(* ===== verification/Prelude.thy ===== *)
theory Prelude
  imports Main "HOL-Library.Word" "HOL-Library.Signed_Division"
begin

text \<open>
  Shared vocabulary of the AEOS development: the machine integers of the C sources, byte arrays
  and NUL-terminated names, the freestanding \<^verbatim>\<open>memset\<close>/\<^verbatim>\<open>memcpy\<close>/\<^verbatim>\<open>memcmp\<close> of
  \<^verbatim>\<open>src/boot/aarch64/utils.c\<close>, and the generic lemmas (list update, ring indices, counting) that
  the component theories use.  It also states the interfaces that several components implement as
  locales: an event system with an invariant, a bounded FIFO, and an overwriting history ring.
\<close>

unbundle bit_operations_syntax

section \<open>Machine integers\<close>

type_synonym u8 = "8 word"
type_synonym u16 = "16 word"
type_synonym u32 = "32 word"
type_synonym u64 = "64 word"

text \<open>
  Signed C integers are \<^typ>\<open>int\<close>; \<open>i32\<close> and \<open>i16\<close> are the two's complement
  conversions that a cast or a store to a 32-bit or 16-bit object performs.
\<close>

definition i32 :: "int \<Rightarrow> int" where
  "i32 x = signed_take_bit 31 x"

definition i16 :: "int \<Rightarrow> int" where
  "i16 x = signed_take_bit 15 x"

named_theorems c_arith \<open>ranges of the C integer conversions\<close>

lemma i32_id [c_arith]: "- 2147483648 \<le> x \<Longrightarrow> x < 2147483648 \<Longrightarrow> i32 x = x"
  unfolding i32_def by (rule signed_take_bit_int_eq_self) simp_all

lemma i32_mod: "i32 (x mod 4294967296) = i32 x"
proof -
  have "signed_take_bit 31 (take_bit 32 x) = signed_take_bit 31 x"
    by (simp add: signed_take_bit_take_bit)
  then show ?thesis by (simp add: i32_def take_bit_eq_mod)
qed

lemma i32_uint_diff: "i32 (uint (a - b :: 32 word)) = i32 (uint a - uint b)"
  by (simp add: uint_word_ariths i32_mod)

lemma i32_range: "- 2147483648 \<le> i32 x \<and> i32 x < 2147483648"
  using signed_take_bit_int_greater_eq_minus_exp [of 31 x] signed_take_bit_int_less_exp [of 31 x]
  by (simp add: i32_def)

lemma i32_uint: "uint w < 2147483648 \<Longrightarrow> i32 (uint w) = uint w"
  by (rule i32_id, rule order_trans [OF _ uint_ge_0]) simp_all

lemma i16_id [c_arith]: "- 32768 \<le> x \<Longrightarrow> x < 32768 \<Longrightarrow> i16 x = x"
  unfolding i16_def by (rule signed_take_bit_int_eq_self) simp_all

lemma i16_range: "- 32768 \<le> i16 x \<and> i16 x < 32768"
  using signed_take_bit_int_greater_eq_minus_exp [of 15 x] signed_take_bit_int_less_exp [of 15 x]
  by (simp add: i16_def)

lemma unat_Suc_word:
  fixes w :: "'a::len word"
  assumes "Suc (unat w) < 2 ^ LENGTH('a)"
  shows "unat (w + 1) = Suc (unat w)"
  using assms by (simp add: unat_word_ariths)

section \<open>Bytes and NUL-terminated names\<close>

text \<open>
  A \<^verbatim>\<open>const char *\<close> argument is the list of the bytes the pointer leads to; the list may go
  on after the first NUL, and bytes past its end read as NUL.
\<close>

type_synonym bytes = "u8 list"

definition str :: "string \<Rightarrow> bytes" where
  "str s = map of_char s"

definition cbyte :: "bytes \<Rightarrow> nat \<Rightarrow> u8" where
  "cbyte s i = (if i < length s then s ! i else 0)"

definition cstr :: "bytes \<Rightarrow> bytes" where
  "cstr s = takeWhile (\<lambda>b. b \<noteq> 0) s"

lemma cbyte_Nil [simp]: "cbyte [] i = 0"
  by (simp add: cbyte_def)

lemma cbyte_Cons_0 [simp]: "cbyte (b # s) 0 = b"
  by (simp add: cbyte_def)

lemma cbyte_Cons_Suc [simp]: "cbyte (b # s) (Suc i) = cbyte s i"
  by (simp add: cbyte_def)

lemma cstr_no_NUL: "b \<in> set (cstr s) \<Longrightarrow> b \<noteq> 0"
  by (auto simp: cstr_def dest: set_takeWhileD)

lemma cbyte_cstr: "i < length (cstr s) \<Longrightarrow> cbyte s i = cstr s ! i"
  by (auto simp: cstr_def cbyte_def takeWhile_nth dest: less_le_trans [OF _ length_takeWhile_le])

lemma cbyte_cstr_end: "cbyte s (length (cstr s)) = 0"
proof (cases "length (cstr s) < length s")
  case True
  then show ?thesis
    using nth_length_takeWhile [of "\<lambda>b. b \<noteq> 0" s] by (simp add: cstr_def cbyte_def)
qed (simp add: cbyte_def)

text \<open>
  The bounded name copy of the kernel:
  \<^verbatim>\<open>for (i = 0; src[i] && i < lim; i++) dst[i] = src[i]; dst[i] = '\0';\<close>
  Bytes of the destination after the terminator keep their old value.
\<close>

function copy_name_loop :: "nat \<Rightarrow> bytes \<Rightarrow> nat \<Rightarrow> bytes \<Rightarrow> bytes" where
  "copy_name_loop lim src i dst =
     (if i < lim \<and> cbyte src i \<noteq> 0
      then copy_name_loop lim src (Suc i) (dst[i := cbyte src i])
      else dst[i := 0])"
  by pat_completeness auto
termination
  by (relation "measure (\<lambda>(lim, src, i, dst). lim - i)") auto

declare copy_name_loop.simps [simp del]

definition copy_name :: "nat \<Rightarrow> bytes \<Rightarrow> bytes \<Rightarrow> bytes" where
  "copy_name lim src dst = copy_name_loop lim src 0 dst"

lemma length_copy_name_loop [simp]:
  "length (copy_name_loop lim src i dst) = length dst"
  by (induction lim src i dst rule: copy_name_loop.induct) (subst copy_name_loop.simps, simp)

lemma length_copy_name [simp]: "length (copy_name lim src dst) = length dst"
  by (simp add: copy_name_def)

lemma copy_name_loop_take:
  assumes "lim < length dst" and "i \<le> lim" and "i \<le> length (cstr src)"
    and "take i dst = take i (cstr src)"
  shows "\<exists>rest. copy_name_loop lim src i dst = take lim (cstr src) @ 0 # rest"
  using assms
proof (induction lim src i dst rule: copy_name_loop.induct)
  case (1 lim src i dst)
  show ?case
  proof (cases "i < lim \<and> cbyte src i \<noteq> 0")
    case True
    then have i: "i < length (cstr src)"
      using "1.prems"(3) cbyte_cstr_end by (metis le_neq_implies_less)
    have "take (Suc i) (dst[i := cbyte src i]) = take (Suc i) (cstr src)"
      using "1.prems" i True by (simp add: take_Suc_conv_app_nth cbyte_cstr)
    with "1.IH" True "1.prems" i show ?thesis
      by (subst copy_name_loop.simps) simp
  next
    case False
    then have "take lim (cstr src) = take i (cstr src)"
      using "1.prems" cbyte_cstr [of i src] cstr_no_NUL [of "cstr src ! i" src]
      by (metis le_neq_implies_less nth_mem take_all)
    moreover have "dst[i := 0] = take i dst @ 0 # drop (Suc i) dst"
      using "1.prems" by (intro upd_conv_take_nth_drop) simp
    ultimately show ?thesis
      using False "1.prems" by (subst copy_name_loop.simps) auto
  qed
qed

lemma cstr_copy_name:
  assumes "lim < length dst"
  shows "cstr (copy_name lim src dst) = take lim (cstr src)"
proof -
  obtain rest where eq: "copy_name lim src dst = take lim (cstr src) @ 0 # rest"
    using copy_name_loop_take [of lim dst 0 src] assms by (auto simp: copy_name_def)
  have "takeWhile (\<lambda>b. b \<noteq> 0) (take lim (cstr src) @ 0 # rest) = take lim (cstr src)"
    by (subst takeWhile_append2) (auto dest: cstr_no_NUL in_set_takeD)
  then show ?thesis by (simp add: eq cstr_def)
qed

section \<open>Fixed-width names\<close>

text \<open>
  The file table and the device table store names padded with zeros to \<open>n\<close> bytes and compare all
  \<open>n\<close> bytes of the caller's buffer.
\<close>

definition pad_name :: "nat \<Rightarrow> bytes \<Rightarrow> bytes" where
  "pad_name n name =
     (let j = length (takeWhile (\<lambda>j. cbyte name j \<noteq> 0) [0..<n])
      in map (cbyte name) [0..<j] @ replicate (n - j) 0)"

definition same_name :: "nat \<Rightarrow> bytes \<Rightarrow> bytes \<Rightarrow> bool" where
  "same_name n a b =
     (let j = length (takeWhile (\<lambda>j. cbyte a j = cbyte b j) [0..<n])
      in j = n \<or> cbyte a j = cbyte b j)"

definition raw_name :: "nat \<Rightarrow> bytes \<Rightarrow> bytes" where
  "raw_name n name = map (cbyte name) [0..<n]"

lemma length_takeWhile_upt:
  "length (takeWhile P [0..<n]) = j \<Longrightarrow> j \<le> n \<and> (\<forall>i<j. P i) \<and> (j < n \<longrightarrow> \<not> P j)"
proof -
  let ?j = "length (takeWhile P [0..<n])"
  have le: "?j \<le> n" using length_takeWhile_le [of P "[0..<n]"] by simp
  have "P i" if "i < ?j" for i
  proof -
    have "takeWhile P [0..<n] ! i \<in> set (takeWhile P [0..<n])" using that by (rule nth_mem)
    then have "P (takeWhile P [0..<n] ! i)" by (auto dest: set_takeWhileD)
    then show ?thesis using takeWhile_nth [OF that] that le by simp
  qed
  moreover have "\<not> P ?j" if "?j < n"
    using that nth_length_takeWhile [of P "[0..<n]"] by simp
  ultimately show "?j = j \<Longrightarrow> j \<le> n \<and> (\<forall>i<j. P i) \<and> (j < n \<longrightarrow> \<not> P j)" using le by blast
qed

lemma same_name_iff: "same_name n a b \<longleftrightarrow> raw_name n a = raw_name n b"
proof -
  define j where "j = length (takeWhile (\<lambda>j. cbyte a j = cbyte b j) [0..<n])"
  have j: "j \<le> n" "\<forall>i<j. cbyte a i = cbyte b i" "j < n \<longrightarrow> cbyte a j \<noteq> cbyte b j"
    using length_takeWhile_upt [OF j_def [symmetric]] by auto
  then have "j = n \<longleftrightarrow> (\<forall>i<n. cbyte a i = cbyte b i)" by (metis le_less)
  then show ?thesis
    using j unfolding same_name_def j_def [symmetric] Let_def raw_name_def by auto
qed

lemma length_pad_name [simp]: "length (pad_name n name) = n"
proof -
  define j where "j = length (takeWhile (\<lambda>j. cbyte name j \<noteq> 0) [0..<n])"
  show ?thesis
    using length_takeWhile_upt [OF j_def [symmetric]] unfolding pad_name_def j_def [symmetric] Let_def by simp
qed

lemma raw_name_id: "length xs = n \<Longrightarrow> raw_name n xs = xs"
  by (auto simp: raw_name_def cbyte_def intro: nth_equalityI)

lemma pad_pad_name [simp]: "pad_name n (pad_name n name) = pad_name n name"
proof -
  define j where "j = length (takeWhile (\<lambda>j. cbyte name j \<noteq> 0) [0..<n])"
  have j: "j \<le> n" "\<forall>i<j. cbyte name i \<noteq> 0"
    using length_takeWhile_upt [OF j_def [symmetric]] by auto
  have p: "pad_name n name = map (cbyte name) [0..<j] @ replicate (n - j) 0"
    by (simp add: pad_name_def j_def Let_def)
  have c: "cbyte (pad_name n name) i = (if i < j then cbyte name i else 0)" for i
    using j(1) by (simp add: p cbyte_def nth_append)
  have "takeWhile (\<lambda>i. i < j) [j..<n] = []" by (cases "j < n") (simp_all add: upt_conv_Cons)
  then have "takeWhile (\<lambda>i. i < j) ([0..<j] @ [j..<n]) = [0..<j]"
    by (subst takeWhile_append2) auto
  moreover have "[0..<n] = [0..<j] @ [j..<n]" using j(1) by (metis le_add_diff_inverse upt_add_eq_append zero_le)
  moreover have "takeWhile (\<lambda>i. cbyte (pad_name n name) i \<noteq> 0) [0..<n] = takeWhile (\<lambda>i. i < j) [0..<n]"
    using j(2) by (intro takeWhile_cong) (auto simp: c)
  ultimately have "takeWhile (\<lambda>i. cbyte (pad_name n name) i \<noteq> 0) [0..<n] = [0..<j]" by simp
  then have "pad_name n (pad_name n name) = map (cbyte (pad_name n name)) [0..<j] @ replicate (n - j) 0"
    by (simp add: pad_name_def [of n "pad_name n name"] Let_def)
  moreover have "map (cbyte (pad_name n name)) [0..<j] = map (cbyte name) [0..<j]"
    by (rule map_cong) (simp_all add: c)
  ultimately show ?thesis using p by metis
qed

section \<open>memset, memcpy, memcmp\<close>

text \<open>
  The three loops of \<^verbatim>\<open>utils.c\<close> over a byte array; an object is a byte list and a pointer
  into it an offset.
\<close>

primrec memset_loop :: "nat \<Rightarrow> nat \<Rightarrow> u8 \<Rightarrow> bytes \<Rightarrow> bytes" where
  "memset_loop 0 p c d = d"
| "memset_loop (Suc n) p c d = memset_loop n (Suc p) c (d[p := c])"

definition memset :: "bytes \<Rightarrow> nat \<Rightarrow> int \<Rightarrow> nat \<Rightarrow> bytes" where
  "memset d p v n = memset_loop n p (word_of_int v) d"

primrec memcpy_loop :: "nat \<Rightarrow> nat \<Rightarrow> nat \<Rightarrow> bytes \<Rightarrow> bytes \<Rightarrow> bytes" where
  "memcpy_loop 0 p q d s = d"
| "memcpy_loop (Suc n) p q d s = memcpy_loop n (Suc p) (Suc q) (d[p := s ! q]) s"

definition memcpy :: "bytes \<Rightarrow> nat \<Rightarrow> bytes \<Rightarrow> nat \<Rightarrow> nat \<Rightarrow> bytes" where
  "memcpy d p s q n = memcpy_loop n p q d s"

fun memcmp :: "bytes \<Rightarrow> bytes \<Rightarrow> nat \<Rightarrow> int" where
  "memcmp a b 0 = 0"
| "memcmp a b (Suc n) =
     (if cbyte a 0 \<noteq> cbyte b 0 then uint (cbyte a 0) - uint (cbyte b 0)
      else memcmp (tl a) (tl b) n)"

lemma length_memcpy [simp]: "length (memcpy d p s q n) = length d"
proof -
  have "length (memcpy_loop n p q d s) = length d" for p q d
    by (induction n arbitrary: p q d) auto
  then show ?thesis by (simp add: memcpy_def)
qed

lemma length_memset [simp]: "length (memset d p v n) = length d"
proof -
  have "length (memset_loop n p c d) = length d" for p c d
    by (induction n arbitrary: p d) auto
  then show ?thesis by (simp add: memset_def)
qed

lemma memset_eq:
  "p + n \<le> length d \<Longrightarrow> memset d p v n = take p d @ replicate n (word_of_int v) @ drop (p + n) d"
proof -
  have "p + n \<le> length d \<Longrightarrow> memset_loop n p c d = take p d @ replicate n c @ drop (p + n) d" for c
    by (induction n arbitrary: p d)
      (auto simp: take_Suc_conv_app_nth replicate_app_Cons_same drop_update_cancel)
  then show "p + n \<le> length d \<Longrightarrow> memset d p v n = take p d @ replicate n (word_of_int v) @ drop (p + n) d"
    by (simp add: memset_def)
qed

lemma memcpy_eq:
  "p + n \<le> length d \<Longrightarrow> q + n \<le> length s \<Longrightarrow>
     memcpy d p s q n = take p d @ take n (drop q s) @ drop (p + n) d"
proof -
  have "p + n \<le> length d \<Longrightarrow> q + n \<le> length s \<Longrightarrow>
     memcpy_loop n p q d s = take p d @ take n (drop q s) @ drop (p + n) d"
  proof (induction n arbitrary: p q d)
    case (Suc n)
    then have "take (Suc n) (drop q s) = s ! q # take n (drop (Suc q) s)"
      by (simp add: Cons_nth_drop_Suc [symmetric])
    with Suc show ?case
      by (simp add: take_Suc_conv_app_nth drop_update_cancel)
  qed simp
  then show "p + n \<le> length d \<Longrightarrow> q + n \<le> length s \<Longrightarrow>
     memcpy d p s q n = take p d @ take n (drop q s) @ drop (p + n) d"
    by (simp add: memcpy_def)
qed

lemma memcmp_eq_0:
  "n \<le> length a \<Longrightarrow> n \<le> length b \<Longrightarrow> memcmp a b n = 0 \<longleftrightarrow> take n a = take n b"
proof (induction a b n rule: memcmp.induct)
  case (2 a b n)
  then obtain x xs y ys where "a = x # xs" "b = y # ys"
    by (cases a; cases b) auto
  with 2 show ?case
    by (auto simp: word_uint_eq_iff)
qed simp

section \<open>Tables of slots\<close>

text \<open>The first index of a table that satisfies a test, as the kernel's \<^verbatim>\<open>for\<close>/\<^verbatim>\<open>return i\<close> loops find it.\<close>

definition first_slot :: "('a \<Rightarrow> bool) \<Rightarrow> 'a list \<Rightarrow> nat option" where
  "first_slot P xs = find (\<lambda>i. P (xs ! i)) [0..<length xs]"

lemma first_slot_Some:
  "first_slot P xs = Some i \<longleftrightarrow> i < length xs \<and> P (xs ! i) \<and> (\<forall>j<i. \<not> P (xs ! j))"
  by (auto simp: first_slot_def find_Some_iff)

lemma first_slot_None: "first_slot P xs = None \<longleftrightarrow> (\<forall>i<length xs. \<not> P (xs ! i))"
  by (auto simp: first_slot_def find_None_iff)

lemma list_all_update: "list_all P xs \<Longrightarrow> P y \<Longrightarrow> list_all P (xs[i := y])"
  using set_update_subset_insert [of xs i y] by (auto simp: list_all_iff)

definition count_slots :: "('a \<Rightarrow> bool) \<Rightarrow> 'a list \<Rightarrow> nat" where
  "count_slots P xs = length (filter P xs)"

lemma count_slots_update:
  assumes "i < length xs"
  shows "count_slots P (xs[i := y]) + (if P (xs ! i) then 1 else 0)
       = count_slots P xs + (if P y then 1 else 0)"
proof -
  have "xs = take i xs @ xs ! i # drop (Suc i) xs"
    using assms by (rule id_take_nth_drop)
  then have "count_slots P xs = count_slots P (take i xs @ xs ! i # drop (Suc i) xs)"
    by simp
  then show ?thesis
    using assms by (simp add: count_slots_def upd_conv_take_nth_drop)
qed

lemma count_slots_le: "count_slots P xs \<le> length xs"
  by (simp add: count_slots_def)

section \<open>Rings\<close>

text \<open>The \<open>n\<close> entries of a ring array that start at index \<open>h\<close>.\<close>

definition ring_items :: "'a list \<Rightarrow> nat \<Rightarrow> nat \<Rightarrow> 'a list" where
  "ring_items ring h n = map (\<lambda>k. ring ! ((h + k) mod length ring)) [0..<n]"

lemma length_ring_items [simp]: "length (ring_items ring h n) = n"
  by (simp add: ring_items_def)

lemma nth_ring_items: "k < n \<Longrightarrow> ring_items ring h n ! k = ring ! ((h + k) mod length ring)"
  by (simp add: ring_items_def)

lemma ring_items_0 [simp]: "ring_items ring h 0 = []"
  by (simp add: ring_items_def)

lemma ring_index_inj:
  assumes "k < n" "n < l" "(h + k) mod l = (h + n) mod (l :: nat)"
  shows False
proof -
  have "l dvd (h + n) - (h + k)" using assms mod_eq_dvd_iff_nat [of "h + k" "h + n" l] by simp
  then show False using assms(1,2) dvd_imp_le [of l "n - k"] by simp
qed

lemma ring_items_put:
  assumes "n < length ring"
  shows "ring_items (ring[(h + n) mod length ring := x]) h (Suc n) = ring_items ring h n @ [x]"
proof -
  have "(h + n) mod length ring < length ring" using assms by (intro mod_less_divisor) linarith
  moreover have "(h + k) mod length ring \<noteq> (h + n) mod length ring" if "k < n" for k
    using ring_index_inj [OF that assms] by blast
  ultimately show ?thesis by (auto simp: ring_items_def nth_list_update_neq [OF not_sym])
qed

lemma ring_items_get:
  assumes "0 < n" "h < length ring"
  shows "ring_items ring h n = ring ! h # ring_items ring (Suc h mod length ring) (n - 1)"
proof -
  have "ring ! ((Suc h mod length ring + k) mod length ring) = ring ! ((h + Suc k) mod length ring)" for k
    by (simp add: mod_add_left_eq)
  then show ?thesis
    using assms by (cases n) (simp_all add: ring_items_def upt_rec [of 0] map_Suc_upt [symmetric] comp_def del: upt_Suc)
qed

section \<open>Interfaces\<close>

text \<open>A deterministic event system whose every event keeps an invariant.\<close>

locale event_system =
  fixes step :: "'s \<Rightarrow> 'e \<Rightarrow> 's"
    and inv :: "'s \<Rightarrow> bool"
  assumes step_inv: "inv s \<Longrightarrow> inv (step s e)"
begin

lemma run_inv: "inv s \<Longrightarrow> inv (foldl step s es)"
  by (induction es arbitrary: s) (simp_all add: step_inv)

lemma run_inv_prefix: "inv s \<Longrightarrow> inv (foldl step s (take n es))"
  by (rule run_inv)

end

text \<open>
  A bounded first-in first-out queue: \<open>put\<close> refuses when the queue holds \<open>cap\<close> items,
  \<open>get\<close> when it is empty, and \<open>items\<close> is the abstract content, oldest first.  \<open>stored\<close> is what the
  queue keeps of an item.
\<close>

fun put_all :: "('x \<Rightarrow> 'q \<Rightarrow> 'q option) \<Rightarrow> 'x list \<Rightarrow> 'q \<Rightarrow> 'q option" where
  "put_all put [] q = Some q"
| "put_all put (x # xs) q = (case put x q of None \<Rightarrow> None | Some q' \<Rightarrow> put_all put xs q')"

fun get_n :: "('q \<Rightarrow> ('y \<times> 'q) option) \<Rightarrow> nat \<Rightarrow> 'q \<Rightarrow> ('y list \<times> 'q) option" where
  "get_n get 0 q = Some ([], q)"
| "get_n get (Suc n) q =
     (case get q of None \<Rightarrow> None
      | Some (y, q') \<Rightarrow> (case get_n get n q' of None \<Rightarrow> None | Some (ys, q'') \<Rightarrow> Some (y # ys, q'')))"

locale bounded_fifo =
  fixes put :: "'x \<Rightarrow> 'q \<Rightarrow> 'q option"
    and get :: "'q \<Rightarrow> ('y \<times> 'q) option"
    and stored :: "'x \<Rightarrow> 'y"
    and items :: "'q \<Rightarrow> 'y list"
    and cap :: nat
    and wf :: "'q \<Rightarrow> bool"
  assumes put_full: "wf q \<Longrightarrow> put x q = None \<longleftrightarrow> length (items q) = cap"
    and put_items: "wf q \<Longrightarrow> put x q = Some q' \<Longrightarrow> items q' = items q @ [stored x] \<and> wf q'"
    and get_empty: "wf q \<Longrightarrow> get q = None \<longleftrightarrow> items q = []"
    and get_items: "wf q \<Longrightarrow> get q = Some (y, q') \<Longrightarrow> items q = y # items q' \<and> wf q'"
begin

lemma put_all_items:
  "wf q \<Longrightarrow> length (items q) + length xs \<le> cap \<Longrightarrow>
     \<exists>q'. put_all put xs q = Some q' \<and> wf q' \<and> items q' = items q @ map stored xs"
proof (induction xs arbitrary: q)
  case (Cons x xs)
  then obtain q' where q': "put x q = Some q'"
    using put_full [of q x] by (cases "put x q") auto
  with Cons.prems have "items q' = items q @ [stored x]" "wf q'"
    using put_items by blast+
  with Cons q' show ?case by fastforce
qed simp

lemma get_n_items:
  "wf q \<Longrightarrow> n \<le> length (items q) \<Longrightarrow>
     \<exists>q'. get_n get n q = Some (take n (items q), q') \<and> wf q' \<and> items q' = drop n (items q)"
proof (induction n arbitrary: q)
  case (Suc n)
  then obtain y q' where q': "get q = Some (y, q')"
    using get_empty [of q] by (cases "get q") auto
  with Suc.prems have "items q = y # items q'" "wf q'"
    using get_items by blast+
  with Suc.IH [of q'] Suc.prems q' show ?case by auto
qed simp

theorem fifo:
  assumes "wf q" and "length (items q) + length xs \<le> cap"
  shows "\<exists>q1 q2. put_all put xs q = Some q1
    \<and> get_n get (length (items q) + length xs) q1 = Some (items q @ map stored xs, q2)
    \<and> wf q2 \<and> items q2 = []"
proof -
  obtain q1 where q1: "put_all put xs q = Some q1" "wf q1" "items q1 = items q @ map stored xs"
    using put_all_items [OF assms] by blast
  then show ?thesis
    using get_n_items [of q1 "length (items q) + length xs"] by auto
qed

end

text \<open>
  A history that keeps its last \<open>cap\<close> entries.  \<open>cnt\<close> counts the entries ever pushed, up to
  \<open>lim\<close>, the width of the counter the code keeps.
\<close>

definition last_n :: "nat \<Rightarrow> 'a list \<Rightarrow> 'a list" where
  "last_n n xs = drop (length xs - n) xs"

lemma last_n_id: "length xs \<le> n \<Longrightarrow> last_n n xs = xs"
  by (simp add: last_n_def)

lemma length_last_n: "length (last_n n xs) = min n (length xs)"
  by (simp add: last_n_def)

lemma last_n_last_n_append: "last_n n (last_n n xs @ ys) = last_n n (xs @ ys)"
  by (cases "length xs \<le> n") (auto simp: last_n_def algebra_simps)

text \<open>The entries that a ring array written at index \<open>c mod length ring\<close> holds after \<open>c\<close> writes, oldest first.\<close>

definition ring_view :: "'a list \<Rightarrow> nat \<Rightarrow> 'a list" where
  "ring_view ring c = ring_items ring (c - length ring) (min (length ring) c)"

lemma ring_view_push:
  assumes "ring \<noteq> []"
  shows "ring_view (ring[c mod length ring := x]) (Suc c) = last_n (length ring) (ring_view ring c @ [x])"
proof (cases "c < length ring")
  case True
  then show ?thesis
    using ring_items_put [OF True, of 0 x] by (simp add: ring_view_def last_n_def Suc_leI min_absorb2)
next
  case False
  let ?n = "length ring"
  obtain k where k: "?n = Suc k" using assms by (cases ring) auto
  have "ring_items ring (c - ?n) ?n = ring ! ((c - ?n) mod ?n) # ring_items ring (Suc c - ?n) k"
    using False k by (simp add: ring_items_def upt_rec [of 0] map_Suc_upt [symmetric] comp_def Suc_diff_le del: upt_Suc)
  moreover have "ring_items (ring[c mod ?n := x]) (Suc c - ?n) (Suc k) = ring_items ring (Suc c - ?n) k @ [x]"
    using ring_items_put [of k ring "Suc c - ?n" x] False k by simp
  ultimately show ?thesis using False k by (simp add: ring_view_def last_n_def)
qed

locale history_ring =
  fixes push :: "'x \<Rightarrow> 's \<Rightarrow> 's"
    and view :: "'s \<Rightarrow> 'x list"
    and cap :: nat
    and wf :: "'s \<Rightarrow> bool"
    and cnt :: "'s \<Rightarrow> nat"
    and lim :: nat
  assumes push_view: "wf s \<Longrightarrow> Suc (cnt s) < lim \<Longrightarrow> view (push x s) = last_n cap (view s @ [x])"
    and push_wf: "wf s \<Longrightarrow> Suc (cnt s) < lim \<Longrightarrow> wf (push x s)"
    and push_cnt: "wf s \<Longrightarrow> Suc (cnt s) < lim \<Longrightarrow> cnt (push x s) \<le> Suc (cnt s)"
begin

theorem pushes_view:
  assumes "wf s" and "cnt s + length xs < lim" and "length (view s) \<le> cap"
  shows "view (foldl (\<lambda>s x. push x s) s xs) = last_n cap (view s @ xs)"
  using assms
proof (induction xs arbitrary: s)
  case Nil
  then show ?case by (simp add: last_n_id)
next
  case (Cons x xs)
  then have s: "view (push x s) = last_n cap (view s @ [x])" "wf (push x s)"
      "cnt (push x s) \<le> Suc (cnt s)"
    using push_view push_wf push_cnt by simp_all
  then have "length (view (push x s)) \<le> cap"
    by (simp add: length_last_n)
  with Cons.IH [of "push x s"] Cons.prems s show ?case
    by (simp add: last_n_last_n_append)
qed

end

text \<open>
  A page allocator: \<open>alloc\<close> returns one of the available pages and takes it out, or 0 when there is
  none; \<open>free\<close> gives a page back.
\<close>

fun alloc_n :: "('s \<Rightarrow> 's \<times> u64) \<Rightarrow> nat \<Rightarrow> 's \<Rightarrow> 's \<times> u64 list" where
  "alloc_n alloc 0 s = (s, [])"
| "alloc_n alloc (Suc n) s = (let (s1, p) = alloc s; (s2, ps) = alloc_n alloc n s1 in (s2, p # ps))"

locale page_allocator =
  fixes alloc :: "'s \<Rightarrow> 's \<times> u64"
    and free :: "u64 \<Rightarrow> 's \<Rightarrow> 's"
    and inv :: "'s \<Rightarrow> bool"
    and avail :: "'s \<Rightarrow> u64 set"
    and page :: "u64 \<Rightarrow> bool"
  assumes alloc_none: "inv s \<Longrightarrow> avail s = {} \<Longrightarrow> alloc s = (s, 0)"
    and alloc_some: "inv s \<Longrightarrow> avail s \<noteq> {} \<Longrightarrow>
          \<exists>s' p. alloc s = (s', p) \<and> p \<in> avail s \<and> inv s' \<and> avail s' = avail s - {p}"
    and avail_page: "inv s \<Longrightarrow> p \<in> avail s \<Longrightarrow> page p"
    and page_nz: "page p \<Longrightarrow> p \<noteq> 0"
    and free_page: "inv s \<Longrightarrow> page p \<Longrightarrow> inv (free p s) \<and> avail (free p s) = insert p (avail s)"
    and avail_finite: "inv s \<Longrightarrow> finite (avail s)"
begin

lemma alloc_nonzero:
  assumes "inv s" "alloc s = (s', p)" "p \<noteq> 0"
  shows "p \<in> avail s \<and> page p \<and> inv s' \<and> avail s' = avail s - {p}"
proof (cases "avail s = {}")
  case True
  then show ?thesis using alloc_none [OF assms(1)] assms(2,3) by simp
next
  case False
  obtain t q where "alloc s = (t, q)" "q \<in> avail s" "inv t" "avail t = avail s - {q}"
    using alloc_some [OF assms(1) False] by blast
  with assms(2) avail_page [OF assms(1)] show ?thesis by simp
qed

lemma alloc_zero:
  assumes "inv s" "alloc s = (s', 0)"
  shows "s' = s \<and> avail s = {}"
proof (cases "avail s = {}")
  case True
  then show ?thesis using alloc_none [OF assms(1)] assms(2) by simp
next
  case False
  obtain t q where "alloc s = (t, q)" "q \<in> avail s"
    using alloc_some [OF assms(1) False] by blast
  with assms(2) page_nz [OF avail_page [OF assms(1)]] show ?thesis by simp
qed

lemma alloc_keeps_inv: "inv s \<Longrightarrow> alloc s = (s', p) \<Longrightarrow> inv s'"
  using alloc_nonzero [of s s' p] alloc_zero [of s s'] by (cases "p = 0") simp_all

lemma alloc_n_distinct:
  "inv s \<Longrightarrow> n \<le> card (avail s) \<Longrightarrow> alloc_n alloc n s = (s', ps) \<Longrightarrow>
     length ps = n \<and> distinct ps \<and> set ps \<subseteq> avail s \<and> inv s' \<and> avail s' = avail s - set ps"
proof (induction n arbitrary: s s' ps)
  case (Suc n)
  have "avail s \<noteq> {}" using Suc.prems(2) by auto
  with Suc.prems(1) obtain s1 p where a: "alloc s = (s1, p)" "p \<in> avail s" "inv s1" "avail s1 = avail s - {p}"
    using alloc_some by blast
  obtain s2 qs where r: "alloc_n alloc n s1 = (s2, qs)" by (cases "alloc_n alloc n s1")
  have "n \<le> card (avail s1)" using Suc.prems(2) a(2) unfolding a(4) by (simp add: card_Diff_singleton)
  from Suc.IH [OF a(3) this r] have "length qs = n" "distinct qs" "set qs \<subseteq> avail s1" "inv s2"
      "avail s2 = avail s1 - set qs" by blast+
  moreover have "s' = s2" "ps = p # qs" using Suc.prems(3) a(1) r by simp_all
  ultimately show ?case using a(2,4) by auto
qed simp

lemma free_all:
  "inv s \<Longrightarrow> \<forall>p\<in>set ps. page p \<Longrightarrow>
     inv (fold free ps s) \<and> avail (fold free ps s) = avail s \<union> set ps"
  by (induction ps arbitrary: s) (auto simp: free_page)

theorem alloc_free_n:
  assumes "inv s" "n \<le> card (avail s)" "alloc_n alloc n s = (s', ps)"
  shows "distinct ps \<and> set ps \<subseteq> avail s \<and> avail s' \<inter> set ps = {} \<and> avail (fold free ps s') = avail s"
proof -
  have a: "distinct ps" "set ps \<subseteq> avail s" "inv s'" "avail s' = avail s - set ps"
    using alloc_n_distinct [OF assms] by auto
  then have "\<forall>p\<in>set ps. page p" using avail_page [OF assms(1)] by blast
  with free_all [OF a(3)] a show ?thesis by auto
qed

end

end
