(* ===== verification/Uart.thy ===== *)
theory Uart
  imports Prelude
begin

text \<open>
  The PL011 console of \<^verbatim>\<open>src/boot/aarch64/uart.c\<close>.  An output routine is the list of bytes it puts
  on the wire; waiting for the transmit FIFO is not part of the model.  The number formatters fill a
  local buffer from its end; the model keeps the part of the buffer that is filled.
\<close>

section \<open>Output\<close>

definition uart_putc :: "u8 \<Rightarrow> bytes" where
  "uart_putc c = (if c = 13 then [] else if c = 10 then [13, c] else [c])"

definition uart_puts_nolf :: "bytes \<Rightarrow> bytes" where
  "uart_puts_nolf s = concat (map uart_putc (cstr s))"

definition uart_puts :: "bytes \<Rightarrow> bytes" where
  "uart_puts s = concat (map uart_putc (cstr s)) @ uart_putc 10"

definition hex_digit :: "u8 \<Rightarrow> u8" where
  "hex_digit n = str ''0123456789abcdef'' ! unat n"

primrec hex_loop :: "nat \<Rightarrow> u64 \<Rightarrow> bytes \<Rightarrow> bytes" where
  "hex_loop 0 v buf = buf"
| "hex_loop (Suc n) v buf = hex_loop n (drop_bit 4 v) (hex_digit (ucast (v AND 0xF)) # buf)"

definition uart_hex :: "u64 \<Rightarrow> bytes" where
  "uart_hex v =
     uart_puts_nolf (str ''0x'')
     @ (if v = 0 then uart_putc 48
        else concat (map uart_putc (dropWhile (\<lambda>d. d = 48) (hex_loop 16 v []))))"

definition uart_hex32 :: "u32 \<Rightarrow> bytes" where
  "uart_hex32 v =
     uart_puts_nolf (str ''0x'')
     @ (if v = 0 then uart_putc 48
        else concat (map uart_putc (dropWhile (\<lambda>d. d = 48) (hex_loop 8 (ucast v) []))))"

function dec_loop :: "u64 \<Rightarrow> bytes \<Rightarrow> bytes" where
  "dec_loop v buf = (if 0 < v then dec_loop (v div 10) ((48 + ucast (v mod 10)) # buf) else buf)"
  by auto

termination dec_loop
proof (relation "measure (\<lambda>(v, _). unat v)")
  fix v :: u64 and buf :: bytes
  assume "0 < v"
  then show "((v div 10, (48 + ucast (v mod 10)) # buf), v, buf) \<in> measure (\<lambda>(v, _). unat v)"
    by (simp add: word_less_nat_alt unat_div_distrib)
qed simp

declare dec_loop.simps [simp del]

definition uart_dec :: "u64 \<Rightarrow> bytes" where
  "uart_dec v = (if v = 0 then uart_putc 48 else concat (map uart_putc (dec_loop v [])))"

section \<open>Base address and input\<close>

record uart =
  uart_base :: u64

definition uart_set_base :: "u64 \<Rightarrow> uart \<Rightarrow> uart" where
  "uart_set_base base u = (if base \<noteq> 0 then u\<lparr>uart_base := base\<rparr> else u)"

definition uart_get_base :: "uart \<Rightarrow> u64" where
  "uart_get_base u = uart_base u"

text \<open>The register writes of \<^verbatim>\<open>uart_init\<close>, as offset and value, in order.\<close>

definition uart_init :: "(u64 \<times> u32) list" where
  "uart_init =
     [(0x030, 0), (0x038, 0x7FF), (0x024, 13), (0x028, 1), (0x02C, push_bit 5 3 OR push_bit 4 1),
      (0x030, push_bit 0 1 OR push_bit 8 1 OR push_bit 9 1)]"

text \<open>The receive FIFO is a list of pending bytes.\<close>

fun uart_getc_nonblock :: "bytes \<Rightarrow> u8 option \<times> bytes" where
  "uart_getc_nonblock [] = (None, [])"
| "uart_getc_nonblock (c # rx) = (Some c, rx)"

section \<open>What the formatters print\<close>

definition dec_value :: "bytes \<Rightarrow> nat" where
  "dec_value ds = foldl (\<lambda>a d. 10 * a + (unat d - 48)) 0 ds"

definition is_digit :: "u8 \<Rightarrow> bool" where
  "is_digit d \<longleftrightarrow> 48 \<le> d \<and> d \<le> 57"

lemma foldl_dec: "foldl (\<lambda>a d. 10 * a + (unat d - 48)) a (ds :: bytes) = a * 10 ^ length ds + dec_value ds"
proof (induction ds arbitrary: a)
  case (Cons d ds)
  have "dec_value (d # ds) = foldl (\<lambda>a d. 10 * a + (unat d - 48)) (unat d - 48) ds"
    by (simp add: dec_value_def)
  then show ?case
    using Cons.IH [of "10 * a + (unat d - 48)"] Cons.IH [of "unat d - 48"] by (simp add: algebra_simps)
qed (simp add: dec_value_def)

lemma dec_value_Cons: "dec_value (d # ds) = (unat d - 48) * 10 ^ length ds + dec_value ds"
  using foldl_dec [of "unat d - 48" ds] by (simp add: dec_value_def)

lemma digit_byte:
  fixes v :: u64
  shows "unat (48 + ucast (v mod 10) :: u8) = 48 + unat v mod 10"
    and "is_digit (48 + ucast (v mod 10))"
proof -
  have m: "unat v mod 10 < 10" by simp
  have u: "unat (ucast (v mod 10) :: u8) = unat v mod 10"
    by (simp add: unsigned_ucast_eq unat_mod take_bit_nat_eq_self_iff)
  show e: "unat (48 + ucast (v mod 10) :: u8) = 48 + unat v mod 10"
    using m by (simp add: unat_word_ariths u)
  show "is_digit (48 + ucast (v mod 10))"
    using m by (simp add: is_digit_def word_le_nat_alt e)
qed

lemma dec_loop_value:
  "dec_value (dec_loop v buf) = unat v * 10 ^ length buf + dec_value buf"
proof (induction v buf rule: dec_loop.induct)
  case (1 v buf)
  show ?case
  proof (cases "0 < v")
    case True
    have split: "n * 10 ^ l = (n div 10) * 10 ^ Suc l + (n mod 10) * 10 ^ l" for n l :: nat
    proof -
      define q r where "q = n div 10" and "r = n mod 10"
      then have n: "10 * q + r = n" by simp
      have "q * 10 ^ Suc l + r * 10 ^ l = (10 * q + r) * 10 ^ l" by (simp add: algebra_simps)
      then show ?thesis by (simp only: q_def [symmetric] r_def [symmetric] n)
    qed
    show ?thesis
      using True 1 split [of "unat v" "length buf"]
      by (simp add: dec_loop.simps [of v] dec_value_Cons digit_byte unat_div)
  next
    case False
    then show ?thesis by (simp add: dec_loop.simps [of 0] word_gt_0)
  qed
qed

lemma dec_loop_digits: "\<forall>d\<in>set buf. is_digit d \<Longrightarrow> \<forall>d\<in>set (dec_loop v buf). is_digit d"
  by (induction v buf rule: dec_loop.induct) (subst dec_loop.simps, auto simp: digit_byte)

lemma dec_loop_length: "unat v < 10 ^ n \<Longrightarrow> length (dec_loop v buf) \<le> n + length buf"
proof (induction v buf arbitrary: n rule: dec_loop.induct)
  case (1 v buf)
  show ?case
  proof (cases "0 < v")
    case True
    then obtain m where m: "n = Suc m" using 1(2) by (cases n) (auto simp: word_less_nat_alt)
    have "unat (v div 10) < 10 ^ m" using 1(2) by (simp add: unat_div m less_mult_imp_div_less mult.commute)
    with 1(1) [OF True, of m] True show ?thesis by (simp add: dec_loop.simps [of v] m)
  qed (simp add: dec_loop.simps [of v])
qed

lemma dec_loop_suffix: "\<exists>ds. dec_loop v buf = ds @ buf"
proof (induction v buf rule: dec_loop.induct)
  case (1 v buf)
  then show ?case
  proof (cases "0 < v")
    case True
    with 1 obtain ds where "dec_loop (v div 10) ((48 + ucast (v mod 10)) # buf) = ds @ (48 + ucast (v mod 10)) # buf" by blast
    with True show ?thesis by (simp add: dec_loop.simps [of v])
  qed (simp add: dec_loop.simps [of v])
qed

lemma dec_loop_head: "0 < v \<Longrightarrow> dec_loop v buf \<noteq> [] \<and> hd (dec_loop v buf) \<noteq> 48"
proof (induction v buf rule: dec_loop.induct)
  case (1 v buf)
  show ?case
  proof (cases "0 < v div 10")
    case True
    with 1 show ?thesis by (simp add: dec_loop.simps [of v])
  next
    case False
    then have z: "v div 10 = 0" by (simp add: word_gt_0)
    have "unat v div 10 = unat (v div 10)" by (simp add: unat_div)
    then have "unat v < 10" using z by simp
    then have "unat (48 + ucast (v mod 10) :: u8) \<noteq> unat (48 :: u8)"
      using 1(2) by (simp add: digit_byte word_less_nat_alt)
    moreover have "dec_loop v buf = (48 + ucast (v mod 10)) # buf"
      using 1(2) z by (simp add: dec_loop.simps [of v] dec_loop.simps [of 0])
    ultimately show ?thesis by auto
  qed
qed

lemma concat_putc: "\<forall>c\<in>set cs. c \<noteq> 10 \<and> c \<noteq> 13 \<Longrightarrow> concat (map uart_putc cs) = cs"
  by (induction cs) (auto simp: uart_putc_def)


text \<open>
  \<^verbatim>\<open>uart_dec\<close> prints the decimal numeral of its argument: digits only, at most 20 of them (so the
  21-byte buffer with its terminator is never overrun), no leading zero, and their value is the
  argument.
\<close>

lemma uart_dec_correct:
  "dec_value (uart_dec v) = unat v \<and> list_all is_digit (uart_dec v) \<and> length (uart_dec v) \<le> 20
   \<and> length (dec_loop v []) < 21 \<and> uart_dec v \<noteq> [] \<and> (hd (uart_dec v) = 48 \<longrightarrow> v = 0)"
proof (cases "v = 0")
  case True
  then show ?thesis
    by (simp add: uart_dec_def uart_putc_def dec_value_def is_digit_def dec_loop.simps [of 0] word_le_nat_alt)
next
  case False
  then have v: "0 < v" by (simp add: word_gt_0)
  have dig: "\<forall>d\<in>set (dec_loop v []). is_digit d" by (rule dec_loop_digits) simp
  then have "uart_dec v = dec_loop v []"
    using False by (auto simp: uart_dec_def is_digit_def word_le_nat_alt intro!: concat_putc)
  moreover have "unat v < 10 ^ 20"
    using unsigned_less [of v, where ?'a = nat] by simp
  then have "length (dec_loop v []) \<le> 20" using dec_loop_length [of v 20 "[]"] by simp
  ultimately show ?thesis
    using dig dec_loop_head [OF v, of "[]"] dec_loop_value [of v "[]"] by (simp add: list_all_iff dec_value_def)
qed

end
