(* ===== verification/Sched.thy ===== *)
theory Sched
  imports Prelude Uart
begin

text \<open>
  The task scheduler of \<^verbatim>\<open>src/kernel/sched.h\<close> and \<^verbatim>\<open>src/kernel/sched.c\<close>: a fixed table of
  sixteen tasks, cooperative round-robin switching, the tick accounting with its watchdog, and the
  preemption test.  A call that reaches the hardware or the console (interrupt mask, page-table
  base, register switch, UART) is recorded, in program order, in the list of effects the operation
  returns; \<^verbatim>\<open>cpu_switch_to\<close> itself is assembly.  An operation that switches away ends its effect
  list with the switch: what follows it in the source runs when the task is next switched in.
\<close>

section \<open>Data\<close>

abbreviation MAX_TASKS :: nat where
  "MAX_TASKS \<equiv> 16"

abbreviation TASK_NAME_LEN :: nat where
  "TASK_NAME_LEN \<equiv> 12"

abbreviation SCHED_QUANTUM :: u32 where
  "SCHED_QUANTUM \<equiv> 25"

datatype task_state = TASK_UNUSED | TASK_READY | TASK_RUNNING | TASK_FINISHED

record task_struct =
  cpu :: "u64 list"
  tstate :: task_state
  tname :: bytes
  ticks_used :: u32
  yields :: u32
  starved_ticks :: u32
  kill_pending :: bool
  task_as :: u64
  kstack_top :: u64
  task_pid :: int
  uentry :: u64
  usp :: u64

record sched =
  tasks :: "task_struct list"
  current :: int
  uptime :: u32
  watchdog_limit :: u32

text \<open>
  What the preprocessor and the linker fix: the port (\<^verbatim>\<open>AEOS_HAS_VMM\<close> is the AArch64 build,
  \<^verbatim>\<open>AEOS_TSS_SWAP\<close> the x86 one) and the addresses of the two assembly entry stubs.
\<close>

datatype port = AArch64 | X86_64

record build =
  build_port :: port
  task_trampoline :: u64
  syscall_user_drop :: u64

datatype hw_effect =
    E_puts_nolf bytes
  | E_puts bytes
  | E_irq_enable
  | E_set_rsp0 u64
  | E_as_switch u64
  | E_cpu_switch nat nat
  | E_tick_subscribe
  | E_park

text \<open>The zero-initialised statics of the file (\<^verbatim>\<open>current\<close> and \<^verbatim>\<open>watchdog_limit\<close> have initialisers).\<close>

definition zero_task :: task_struct where
  "zero_task = \<lparr>cpu = replicate 15 0, tstate = TASK_UNUSED, tname = replicate TASK_NAME_LEN 0,
     ticks_used = 0, yields = 0, starved_ticks = 0, kill_pending = False, task_as = 0,
     kstack_top = 0, task_pid = 0, uentry = 0, usp = 0\<rparr>"

definition sched_statics :: sched where
  "sched_statics = \<lparr>tasks = replicate MAX_TASKS zero_task, current = -1, uptime = 0,
     watchdog_limit = 600\<rparr>"

section \<open>Operations\<close>

definition set_task :: "sched \<Rightarrow> nat \<Rightarrow> task_struct \<Rightarrow> sched" where
  "set_task s i t = s\<lparr>tasks := (tasks s)[i := t]\<rparr>"

definition cur :: "sched \<Rightarrow> nat option" where
  "cur s = (if 0 \<le> current s then Some (nat (current s)) else None)"

definition arch_pre_switch :: "build \<Rightarrow> task_struct \<Rightarrow> hw_effect list" where
  "arch_pre_switch b nxt =
     (case build_port b of
        AArch64 \<Rightarrow> []
      | X86_64 \<Rightarrow> (if kstack_top nxt \<noteq> 0 then [E_set_rsp0 (kstack_top nxt)] else []))"

definition switch_address_space :: "build \<Rightarrow> task_struct \<Rightarrow> task_struct \<Rightarrow> hw_effect list" where
  "switch_address_space b prev nxt =
     (case build_port b of
        AArch64 \<Rightarrow> (if task_as prev \<noteq> task_as nxt then [E_as_switch (task_as nxt)] else [])
      | X86_64 \<Rightarrow> [])"

definition next_ready :: "sched \<Rightarrow> int \<Rightarrow> int" where
  "next_ready s from =
     (case find (\<lambda>idx. tstate (tasks s ! idx) = TASK_READY)
             (map (\<lambda>i. nat ((from + int i) mod int MAX_TASKS)) [1..<Suc MAX_TASKS]) of
        Some idx \<Rightarrow> int idx
      | None \<Rightarrow> -1)"

definition sched_on_tick :: "sched \<Rightarrow> sched \<times> hw_effect list" where
  "sched_on_tick s0 =
     (let s = s0\<lparr>uptime := uptime s0 + 1\<rparr> in
      case cur s of
        None \<Rightarrow> (s, [])
      | Some c \<Rightarrow>
          (let t = tasks s ! c in
           if tstate t = TASK_RUNNING then
             (let t1 = t\<lparr>ticks_used := ticks_used t + 1\<rparr> in
              if watchdog_limit s \<noteq> 0 \<and> current s \<noteq> 0 then
                (let t2 = t1\<lparr>starved_ticks := starved_ticks t1 + 1\<rparr> in
                 if watchdog_limit s \<le> starved_ticks t2 \<and> \<not> kill_pending t2
                 then (set_task s c (t2\<lparr>kill_pending := True\<rparr>),
                       [E_puts_nolf (str ''[wd] task '' @ [39]), E_puts_nolf (tname t2),
                        E_puts (39 # str '' flagged rogue - kill at next yield'')])
                 else (set_task s c t2, []))
              else (set_task s c t1, []))
           else (s, [])))"

definition sched_init :: "bytes \<Rightarrow> sched \<Rightarrow> sched \<times> hw_effect list" where
  "sched_init main_name s =
     (let clear = (\<lambda>t. t\<lparr>tstate := TASK_UNUSED, tname := (tname t)[0 := 0], ticks_used := 0,
                       yields := 0, starved_ticks := 0, kill_pending := False, task_as := 0,
                       kstack_top := 0, task_pid := -1, uentry := 0, usp := 0\<rparr>);
          ts = map clear (tasks s);
          t0 = (ts ! 0)\<lparr>tstate := TASK_RUNNING,
                        tname := copy_name (TASK_NAME_LEN - 1) main_name (tname (ts ! 0))\<rparr>
      in (s\<lparr>tasks := ts[0 := t0], current := 0\<rparr>, [E_tick_subscribe]))"

definition slot_alloc :: "sched \<Rightarrow> int" where
  "slot_alloc s =
     (case first_slot (\<lambda>t. tstate t = TASK_UNUSED \<or> tstate t = TASK_FINISHED) (tasks s) of
        Some i \<Rightarrow> int i
      | None \<Rightarrow> -1)"

definition task_setup :: "task_struct \<Rightarrow> bytes \<Rightarrow> task_struct" where
  "task_setup t name =
     t\<lparr>cpu := replicate 15 0, tstate := TASK_READY, ticks_used := 0, yields := 0,
       starved_ticks := 0, kill_pending := False,
       tname := copy_name (TASK_NAME_LEN - 1) name (tname t)\<rparr>"

definition align_sp :: "u64 \<Rightarrow> u64 \<Rightarrow> u64" where
  "align_sp stack stack_len = (stack + stack_len) AND NOT 0xF"

definition sched_spawn ::
  "build \<Rightarrow> bytes \<Rightarrow> u64 \<Rightarrow> u64 \<Rightarrow> u64 \<Rightarrow> sched \<Rightarrow> sched \<times> int" where
  "sched_spawn b name entry stack stack_len s =
     (let slot = slot_alloc s in
      if slot < 0 \<or> entry = 0 \<or> stack = 0 \<or> stack_len < 256 then (s, -1)
      else
        (let t = task_setup (tasks s ! nat slot) name;
             sp_top = align_sp stack stack_len
         in (set_task s (nat slot)
               (t\<lparr>cpu := (cpu t)[0 := entry, 11 := task_trampoline b, 12 := sp_top],
                  task_as := 0, kstack_top := 0, task_pid := -1, uentry := 0, usp := 0\<rparr>), slot)))"

definition sched_spawn_user_task ::
  "build \<Rightarrow> bytes \<Rightarrow> u64 \<Rightarrow> u64 \<Rightarrow> u64 \<Rightarrow> int \<Rightarrow> u64 \<Rightarrow> u64 \<Rightarrow> sched \<Rightarrow> sched \<times> int" where
  "sched_spawn_user_task b name as_ptr entry sp pid stack stack_len s =
     (let slot = slot_alloc s in
      if slot < 0 \<or> entry = 0 \<or> sp = 0 \<or> stack = 0 \<or> stack_len < 256 then (s, -1)
      else
        (let t = task_setup (tasks s ! nat slot) name;
             sp_top = align_sp stack stack_len;
             lr = (case build_port b of AArch64 \<Rightarrow> syscall_user_drop b | X86_64 \<Rightarrow> task_trampoline b)
         in (set_task s (nat slot)
               (t\<lparr>cpu := (cpu t)[0 := 0, 11 := lr, 12 := sp_top],
                  task_as := as_ptr, kstack_top := 0, task_pid := pid, uentry := entry,
                  usp := sp\<rparr>), slot)))"

text \<open>The common tail of \<^verbatim>\<open>sched_yield\<close> and \<^verbatim>\<open>sched_exit\<close>: hand the CPU from \<open>p\<close> to \<open>n\<close>.\<close>

definition switch_effects :: "build \<Rightarrow> sched \<Rightarrow> nat \<Rightarrow> nat \<Rightarrow> hw_effect list" where
  "switch_effects b s p n =
     [E_irq_enable] @ arch_pre_switch b (tasks s ! n)
     @ switch_address_space b (tasks s ! p) (tasks s ! n) @ [E_cpu_switch p n]"

definition sched_exit :: "build \<Rightarrow> sched \<Rightarrow> sched \<times> hw_effect list" where
  "sched_exit b s =
     (case cur s of
        None \<Rightarrow> (s, [E_park])
      | Some c \<Rightarrow>
          (let s1 = set_task s c ((tasks s ! c)\<lparr>tstate := TASK_FINISHED\<rparr>);
               nxt = next_ready s1 (current s1)
           in if 0 \<le> nxt then
                (let n = nat nxt;
                     s2 = (set_task s1 n ((tasks s1 ! n)\<lparr>tstate := TASK_RUNNING\<rparr>))\<lparr>current := nxt\<rparr>
                 in (s2, switch_effects b s2 c n))
              else (s1, [E_irq_enable, E_park])))"

definition kill_message :: "task_struct \<Rightarrow> hw_effect list" where
  "kill_message t = [E_puts_nolf (str ''[wd] killing task '' @ [39]), E_puts_nolf (tname t), E_puts [39]]"

definition sched_yield :: "build \<Rightarrow> sched \<Rightarrow> sched \<times> hw_effect list" where
  "sched_yield b s =
     (case cur s of
        None \<Rightarrow> (s, [])
      | Some p \<Rightarrow>
          if kill_pending (tasks s ! p) then
            (let msg = kill_message (tasks s ! p);
                 s1 = set_task s p ((tasks s ! p)\<lparr>tstate := TASK_FINISHED\<rparr>);
                 nxt = next_ready s1 (current s1)
             in if 0 \<le> nxt then
                  (let n = nat nxt;
                       s2 = (set_task s1 n ((tasks s1 ! n)\<lparr>tstate := TASK_RUNNING\<rparr>))\<lparr>current := nxt\<rparr>
                   in (s2, msg @ switch_effects b s2 p n))
                else
                  (let (s2, es) = sched_exit b s1 in (s2, msg @ [E_irq_enable] @ es)))
          else
            (let s1 = set_task s p ((tasks s ! p)\<lparr>starved_ticks := 0\<rparr>);
                 nxt = next_ready s1 (current s1)
             in if nxt < 0 then (s1, [])
                else
                  (let n = nat nxt;
                       s2 = set_task s1 p ((tasks s1 ! p)\<lparr>tstate := TASK_READY\<rparr>);
                       s3 = set_task s2 n ((tasks s2 ! n)\<lparr>tstate := TASK_RUNNING\<rparr>);
                       s4 = (set_task s3 p ((tasks s3 ! p)\<lparr>yields := yields (tasks s3 ! p) + 1\<rparr>))
                              \<lparr>current := nxt\<rparr>
                   in (s4, switch_effects b s4 p n))))"

definition sched_task_count :: "sched \<Rightarrow> u32" where
  "sched_task_count s = of_nat (count_slots (\<lambda>t. tstate t \<noteq> TASK_UNUSED) (tasks s))"

definition sched_uptime_ticks :: "sched \<Rightarrow> u32" where
  "sched_uptime_ticks s = uptime s"

definition sched_should_preempt :: "sched \<Rightarrow> bool" where
  "sched_should_preempt s =
     (case cur s of
        None \<Rightarrow> False
      | Some c \<Rightarrow>
          if tstate (tasks s ! c) \<noteq> TASK_RUNNING then False
          else if starved_ticks (tasks s ! c) < SCHED_QUANTUM then False
          else if next_ready s (current s) < 0 then False
          else True)"

definition sched_current_index :: "sched \<Rightarrow> int" where
  "sched_current_index s = current s"

definition sched_task_as :: "sched \<Rightarrow> int \<Rightarrow> u64" where
  "sched_task_as s idx =
     (if idx < 0 \<or> int MAX_TASKS \<le> idx then 0 else task_as (tasks s ! nat idx))"

definition sched_task_pid :: "sched \<Rightarrow> int \<Rightarrow> int" where
  "sched_task_pid s idx =
     (if idx < 0 \<or> int MAX_TASKS \<le> idx then -1 else task_pid (tasks s ! nat idx))"

definition sched_task_set_pid :: "int \<Rightarrow> int \<Rightarrow> sched \<Rightarrow> sched" where
  "sched_task_set_pid idx pid s =
     (if 0 \<le> idx \<and> idx < int MAX_TASKS
      then set_task s (nat idx) ((tasks s ! nat idx)\<lparr>task_pid := pid\<rparr>) else s)"

definition sched_task_set_kstack :: "build \<Rightarrow> int \<Rightarrow> u64 \<Rightarrow> sched \<Rightarrow> sched \<times> hw_effect list" where
  "sched_task_set_kstack b idx ktop s =
     (case build_port b of
        AArch64 \<Rightarrow> (s, [])
      | X86_64 \<Rightarrow>
          (if 0 \<le> idx \<and> idx < int MAX_TASKS
           then (set_task s (nat idx) ((tasks s ! nat idx)\<lparr>kstack_top := ktop\<rparr>), [E_set_rsp0 ktop])
           else (s, [])))"

definition sched_current_user_point :: "sched \<Rightarrow> u64 \<times> u64" where
  "sched_current_user_point s =
     (case cur s of None \<Rightarrow> (0, 0) | Some c \<Rightarrow> (uentry (tasks s ! c), usp (tasks s ! c)))"

definition sched_current_name :: "sched \<Rightarrow> bytes" where
  "sched_current_name s = (case cur s of None \<Rightarrow> str ''?'' | Some c \<Rightarrow> tname (tasks s ! c))"

text \<open>
  \<^verbatim>\<open>sched_snapshot\<close> fills a caller's name buffer and the requested numbers; \<open>None\<close> is its
  return value \<open>-1\<close>.
\<close>

definition sched_snapshot :: "sched \<Rightarrow> int \<Rightarrow> bytes \<Rightarrow> (bytes \<times> task_state \<times> u32 \<times> u32) option" where
  "sched_snapshot s idx name_out =
     (if idx < 0 \<or> int MAX_TASKS \<le> idx then None
      else
        (let t = tasks s ! nat idx in
         if tstate t = TASK_UNUSED then None
         else Some (copy_name (TASK_NAME_LEN - 1) (tname t) name_out, tstate t, ticks_used t, yields t)))"

definition sched_watchdog_set :: "u32 \<Rightarrow> sched \<Rightarrow> sched" where
  "sched_watchdog_set limit s = s\<lparr>watchdog_limit := limit\<rparr>"


fun state_name :: "task_state \<Rightarrow> bytes" where
  "state_name TASK_UNUSED = str ''UNUSED''"
| "state_name TASK_READY = str ''READY''"
| "state_name TASK_RUNNING = str ''RUNNING''"
| "state_name TASK_FINISHED = str ''FINISHED''"

definition sched_report :: "sched \<Rightarrow> bytes" where
  "sched_report s =
     uart_puts (str ''  Task table:'')
     @ concat (map (\<lambda>i.
         let t = tasks s ! i in
         if tstate t = TASK_UNUSED then []
         else uart_puts_nolf (str ''    ['') @ uart_dec (of_nat i) @ uart_puts_nolf (str ''] '')
              @ uart_puts_nolf (tname t) @ uart_puts_nolf (str ''  state='') @ uart_puts (state_name (tstate t))
              @ uart_puts_nolf (str ''       ticks='') @ uart_dec (ucast (ticks_used t))
              @ uart_puts_nolf (str ''  yields='') @ uart_dec (ucast (yields t)) @ uart_puts []) [0..<MAX_TASKS])"

section \<open>Events and runs\<close>

text \<open>
  The calls the rest of the kernel makes.  A tick arrives from the timer in any state; the other
  calls are made by the task that holds the CPU, so they need a running current task.
\<close>

datatype sched_event =
    Ev_tick
  | Ev_yield
  | Ev_exit
  | Ev_spawn bytes u64 u64 u64
  | Ev_spawn_user bytes u64 u64 u64 int u64 u64
  | Ev_watchdog u32
  | Ev_set_pid int int
  | Ev_set_kstack int u64

definition st :: "sched \<Rightarrow> nat \<Rightarrow> task_state" where
  "st s i = tstate (tasks s ! i)"

definition cur_running :: "sched \<Rightarrow> bool" where
  "cur_running s \<longleftrightarrow> 0 \<le> current s \<and> st s (nat (current s)) = TASK_RUNNING"

fun sched_call :: "build \<Rightarrow> sched \<Rightarrow> sched_event \<Rightarrow> sched \<times> hw_effect list" where
  "sched_call b s Ev_tick = sched_on_tick s"
| "sched_call b s Ev_yield = sched_yield b s"
| "sched_call b s Ev_exit = sched_exit b s"
| "sched_call b s (Ev_spawn name entry stack len) = (fst (sched_spawn b name entry stack len s), [])"
| "sched_call b s (Ev_spawn_user name as_ptr entry sp pid stack len) =
     (fst (sched_spawn_user_task b name as_ptr entry sp pid stack len s), [])"
| "sched_call b s (Ev_watchdog l) = (sched_watchdog_set l s, [])"
| "sched_call b s (Ev_set_pid i p) = (sched_task_set_pid i p s, [])"
| "sched_call b s (Ev_set_kstack i t) = sched_task_set_kstack b i t s"

inductive sched_step :: "build \<Rightarrow> sched \<Rightarrow> sched_event \<Rightarrow> sched \<Rightarrow> bool" for b where
  tick: "sched_step b s Ev_tick (fst (sched_call b s Ev_tick))"
| call: "cur_running s \<Longrightarrow> e \<noteq> Ev_tick \<Longrightarrow> sched_step b s e (fst (sched_call b s e))"

inductive sched_run :: "build \<Rightarrow> sched \<Rightarrow> sched_event list \<Rightarrow> sched \<Rightarrow> bool" for b where
  run_nil: "sched_run b s [] s"
| run_cons: "sched_step b s e s1 \<Longrightarrow> sched_run b s1 es s2 \<Longrightarrow> sched_run b s (e # es) s2"

inductive_cases sched_step_yieldE: "sched_step b s Ev_yield s'"
inductive_cases sched_step_exitE: "sched_step b s Ev_exit s'"
inductive_simps sched_run_Nil [simp]: "sched_run b s [] s'"
inductive_simps sched_run_Cons: "sched_run b s (e # es) s'"

fun gives_cpu_away :: "sched_event \<Rightarrow> bool" where
  "gives_cpu_away Ev_yield = True"
| "gives_cpu_away Ev_exit = True"
| "gives_cpu_away _ = False"

definition sched_inv :: "sched \<Rightarrow> bool" where
  "sched_inv s \<longleftrightarrow>
     length (tasks s) = MAX_TASKS \<and> 0 \<le> current s \<and> current s < int MAX_TASKS
     \<and> (\<forall>i<MAX_TASKS. st s i = TASK_RUNNING \<longrightarrow> int i = current s)
     \<and> (st s (nat (current s)) = TASK_RUNNING
        \<or> st s (nat (current s)) = TASK_FINISHED \<and> (\<forall>i<MAX_TASKS. st s i \<noteq> TASK_READY))
     \<and> \<not> kill_pending (tasks s ! 0)"

section \<open>The ready queue in the table\<close>

text \<open>The order in which \<^verbatim>\<open>next_ready\<close> looks at the slots, and the ready tasks in that order.\<close>

definition cyc :: "nat \<Rightarrow> nat list" where
  "cyc c = map (\<lambda>i. (c + i) mod MAX_TASKS) [1..<Suc MAX_TASKS]"

definition run_queue :: "sched \<Rightarrow> nat list" where
  "run_queue s = filter (\<lambda>i. st s i = TASK_READY) (cyc (nat (current s)))"

lemma length_cyc [simp]: "length (cyc c) = 16"
  by (simp add: cyc_def)

lemma nth_cyc [simp]: "k < 16 \<Longrightarrow> cyc c ! k = (c + Suc k) mod 16"
  by (simp add: cyc_def del: upt_Suc)

lemma mod_add_inj:
  assumes "i < n" "j < n" "(c + Suc i) mod n = (c + Suc j) mod (n::nat)"
  shows "i = j"
proof -
  have *: "j \<le> i \<Longrightarrow> (c + Suc i) mod n = (c + Suc j) mod n \<Longrightarrow> i < n \<Longrightarrow> i = j" for i j
    using dvd_imp_le [of n "i - j"] by (cases "j < i") (auto simp: mod_eq_dvd_iff_nat)
  show ?thesis
    using * [of j i] * [of i j] assms by (metis nat_le_linear)
qed

lemma distinct_cyc: "distinct (cyc c)"
  by (auto simp: distinct_conv_nth dest: mod_add_inj [where n = 16])

lemma set_cyc: "set (cyc c) = {..<16}"
proof (rule card_subset_eq)
  show "set (cyc c) \<subseteq> {..<16}" by (auto simp: cyc_def)
  show "card (set (cyc c)) = card {..<16::nat}"
    by (simp add: distinct_card [OF distinct_cyc])
qed simp

lemma last_cyc: "c < 16 \<Longrightarrow> cyc c ! 15 = c"
  by simp

lemma cyc_rotate:
  assumes "k < 16"
  shows "cyc ((c + Suc k) mod 16) = drop (Suc k) (cyc c) @ take (Suc k) (cyc c)"
proof (rule nth_equalityI)
  fix m assume "m < length (cyc ((c + Suc k) mod 16))"
  then have m: "m < 16" by simp
  have l: "cyc ((c + Suc k) mod 16) ! m = (c + Suc k + Suc m) mod 16"
    using m mod_add_left_eq [of "c + Suc k" 16 "Suc m"] by simp
  show "cyc ((c + Suc k) mod 16) ! m = (drop (Suc k) (cyc c) @ take (Suc k) (cyc c)) ! m"
  proof (cases "Suc k + m < 16")
    case True
    then show ?thesis using l assms by (simp add: nth_append add.assoc)
  next
    case False
    then have eq: "c + Suc k + Suc m = c + Suc (m - (16 - Suc k)) + 16"
      using assms m by linarith
    have "(c + Suc k + Suc m) mod 16 = (c + Suc (m - (16 - Suc k))) mod 16"
      unfolding eq by (rule mod_add_self2)
    moreover have "\<not> m < 16 - Suc k" using False by linarith
    then have "(drop (Suc k) (cyc c) @ take (Suc k) (cyc c)) ! m
        = take (Suc k) (cyc c) ! (m - (16 - Suc k))"
      by (simp only: nth_append length_drop length_cyc if_False)
    moreover have "take (Suc k) (cyc c) ! (m - (16 - Suc k)) = cyc c ! (m - (16 - Suc k))"
      using False assms m by (intro nth_take) linarith
    moreover have "cyc c ! (m - (16 - Suc k)) = (c + Suc (m - (16 - Suc k))) mod 16"
      using m by (intro nth_cyc) linarith
    ultimately show ?thesis using l by metis
  qed
qed (use assms in simp)

lemma next_ready_cyc:
  assumes "0 \<le> from" "from < 16"
  shows "next_ready s from =
    (case find (\<lambda>i. st s i = TASK_READY) (cyc (nat from)) of Some i \<Rightarrow> int i | None \<Rightarrow> -1)"
proof -
  have "map (\<lambda>i. nat ((from + int i) mod int MAX_TASKS)) [1..<Suc MAX_TASKS] = cyc (nat from)"
    unfolding cyc_def using assms
    by (intro map_cong refl) (simp add: nat_mod_distrib nat_add_distrib)
  then show ?thesis by (simp add: next_ready_def st_def)
qed

lemma find_filter: "find P xs = (case filter P xs of [] \<Rightarrow> None | x # _ \<Rightarrow> Some x)"
  by (induction xs) auto

lemma next_ready_run_queue:
  assumes "0 \<le> current s" "current s < 16"
  shows "next_ready s (current s) = (case run_queue s of [] \<Rightarrow> -1 | n # _ \<Rightarrow> int n)"
  using assms by (simp add: next_ready_cyc find_filter run_queue_def split: list.split)

lemma in_run_queue: "i \<in> set (run_queue s) \<longleftrightarrow> i < 16 \<and> st s i = TASK_READY"
  by (auto simp: run_queue_def set_cyc)

lemma cyc_split_last:
  assumes "c < 16" "cyc c = pre @ n # post" "n \<noteq> c"
  obtains post' where "post = post' @ [c]"
proof -
  have "cyc c \<noteq> []" by (metis length_cyc list.size(3) zero_neq_numeral)
  then have "last (cyc c) = c"
    using assms(1) by (simp add: last_conv_nth)
  then have "post \<noteq> []" "last post = c"
    using assms by auto
  then show ?thesis using that by (metis append_butlast_last_id)
qed

text \<open>
  Handing the CPU from \<open>c\<close> to the first ready task moves that task to the front of the cyclic
  order: the rest of the queue keeps its order, and \<open>c\<close>, if it stays ready, joins at the end.
\<close>

lemma rotate_queue:
  fixes f :: "nat \<Rightarrow> task_state"
  assumes c: "c < 16" and fc: "f c \<noteq> TASK_READY"
    and q: "filter (\<lambda>i. f i = TASK_READY) (cyc c) = n # q"
  shows "filter (\<lambda>i. (f(c := v, n := TASK_RUNNING)) i = TASK_READY) (cyc n)
       = q @ (if v = TASK_READY then [c] else [])"
proof -
  obtain pre post where split: "cyc c = pre @ n # post" "\<forall>u\<in>set pre. f u \<noteq> TASK_READY"
      "f n = TASK_READY" "q = filter (\<lambda>i. f i = TASK_READY) post"
    using filter_eq_ConsD [OF q] by blast
  then have nc: "n \<noteq> c" using fc by auto
  with c split obtain post' where post': "post = post' @ [c]"
    by (auto elim: cyc_split_last)
  have len: "length pre < 16"
    using arg_cong [OF split(1), of length] by simp
  have "n = cyc c ! length pre" by (simp add: split(1))
  then have n: "n = (c + Suc (length pre)) mod 16" using len by simp
  have cn: "cyc n = post @ pre @ [n]"
    using cyc_rotate [OF len, of c] unfolding n [symmetric] by (simp add: split(1))
  have dist: "distinct (pre @ n # post' @ [c])"
    using distinct_cyc [of c] by (simp add: split(1) post')
  have "filter (\<lambda>i. (f(c := v, n := TASK_RUNNING)) i = TASK_READY) post'
      = filter (\<lambda>i. f i = TASK_READY) post'"
    using dist by (intro filter_cong) auto
  moreover have "filter (\<lambda>i. (f(c := v, n := TASK_RUNNING)) i = TASK_READY) pre = []"
    using dist split(2) by (auto simp: filter_empty_conv)
  ultimately show ?thesis
    using nc fc by (simp add: cn post' split(4))
qed

section \<open>What the operations do to the table\<close>

named_theorems sched_simps \<open>table lookups after an update\<close>

lemma st_set_task [sched_simps]:
  "st (set_task s i t) j = (if i = j \<and> i < length (tasks s) then tstate t else st s j)"
  by (cases "i < length (tasks s)") (auto simp: st_def set_task_def nth_list_update list_update_beyond)

lemma set_task_fields [sched_simps]:
  "length (tasks (set_task s i t)) = length (tasks s)"
  "current (set_task s i t) = current s"
  "watchdog_limit (set_task s i t) = watchdog_limit s"
  "uptime (set_task s i t) = uptime s"
  by (simp_all add: set_task_def)

lemma tasks_set_task [sched_simps]:
  "tasks (set_task s i t) ! j = (if i = j \<and> i < length (tasks s) then t else tasks s ! j)"
  by (cases "i < length (tasks s)") (auto simp: set_task_def nth_list_update list_update_beyond)

lemma st_simps [sched_simps]:
  "st (s\<lparr>current := x\<rparr>) = st s" "st (s\<lparr>uptime := u\<rparr>) = st s" "st (s\<lparr>watchdog_limit := w\<rparr>) = st s"
  by (auto simp: st_def)

lemma tstate_st [sched_simps]: "tstate (tasks s ! i) = st s i"
  by (simp add: st_def)

lemma inv_current:
  assumes "sched_inv s"
  shows "cur s = Some (nat (current s))" "nat (current s) < 16" "length (tasks s) = 16"
    "int (nat (current s)) = current s" "0 \<le> current s" "current s < 16"
  using assms by (auto simp: sched_inv_def cur_def)

lemma running_not_ready: "cur_running s \<Longrightarrow> st s (nat (current s)) \<noteq> TASK_READY"
  by (simp add: cur_running_def)

text \<open>The table after \<open>c\<close> hands over to the head of the queue: \<open>c\<close> becomes \<open>v\<close>, the head runs.\<close>

definition handed_over :: "sched \<Rightarrow> task_state \<Rightarrow> nat \<Rightarrow> sched \<Rightarrow> bool" where
  "handed_over s v n s' \<longleftrightarrow>
     st s' = (st s)(nat (current s) := v, n := TASK_RUNNING)
     \<and> current s' = int n \<and> length (tasks s') = length (tasks s)
     \<and> (\<forall>i<16. kill_pending (tasks s' ! i) = kill_pending (tasks s ! i)
              \<and> task_as (tasks s' ! i) = task_as (tasks s ! i))"

lemma run_queue_same:
  assumes "current s1 = current s" "\<And>i. st s1 i = TASK_READY \<longleftrightarrow> st s i = TASK_READY"
  shows "run_queue s1 = run_queue s"
  using assms by (simp add: run_queue_def)

lemma exit_handed_over:
  assumes inv: "sched_inv s" and run: "cur_running s" and q: "run_queue s = n # q"
  shows "handed_over s TASK_FINISHED n (fst (sched_exit b s))"
    and "snd (sched_exit b s) = switch_effects b (fst (sched_exit b s)) (nat (current s)) n"
proof -
  define c where "c = nat (current s)"
  define s1 where "s1 = set_task s c ((tasks s ! c)\<lparr>tstate := TASK_FINISHED\<rparr>)"
  note cs = inv_current [OF inv, folded c_def]
  have "run_queue s1 = run_queue s"
    using cs run by (intro run_queue_same) (auto simp: s1_def sched_simps cur_running_def c_def)
  then have nxt: "next_ready s1 (current s1) = int n"
    using next_ready_run_queue [of s1] cs q by (simp add: s1_def sched_simps)
  have n: "n < 16" "st s n = TASK_READY"
    using q in_run_queue [of n s] by auto
  have eq: "sched_exit b s = (let s2 = (set_task s1 n ((tasks s1 ! n)\<lparr>tstate := TASK_RUNNING\<rparr>))\<lparr>current := int n\<rparr>
      in (s2, switch_effects b s2 c n))"
    using cs nxt by (simp add: sched_exit_def s1_def Let_def)
  have "n \<noteq> c" using n(2) running_not_ready [OF run] by (auto simp: c_def)
  with n cs show "handed_over s TASK_FINISHED n (fst (sched_exit b s))"
    unfolding eq handed_over_def c_def [symmetric] Let_def fst_conv
    by (intro conjI ext allI impI) (simp_all add: s1_def sched_simps)
  show "snd (sched_exit b s) = switch_effects b (fst (sched_exit b s)) (nat (current s)) n"
    by (simp add: eq Let_def c_def)
qed

lemma exit_parks:
  assumes inv: "sched_inv s" and run: "cur_running s" and q: "run_queue s = []"
  shows "fst (sched_exit b s) = set_task s (nat (current s)) ((tasks s ! nat (current s))\<lparr>tstate := TASK_FINISHED\<rparr>)"
    and "snd (sched_exit b s) = [E_irq_enable, E_park]"
proof -
  define s1 where "s1 = set_task s (nat (current s)) ((tasks s ! nat (current s))\<lparr>tstate := TASK_FINISHED\<rparr>)"
  note cs = inv_current [OF inv]
  have "run_queue s1 = run_queue s"
    using cs run by (intro run_queue_same) (auto simp: s1_def sched_simps cur_running_def)
  then have "next_ready s1 (current s1) = -1"
    using next_ready_run_queue [of s1] cs q by (simp add: s1_def sched_simps)
  then have "sched_exit b s = (s1, [E_irq_enable, E_park])"
    using cs by (simp add: sched_exit_def s1_def Let_def)
  then show "fst (sched_exit b s) = s1" "snd (sched_exit b s) = [E_irq_enable, E_park]"
    by simp_all
qed

lemma yield_kill_handed_over:
  assumes inv: "sched_inv s" and run: "cur_running s" and q: "run_queue s = n # q"
    and k: "kill_pending (tasks s ! nat (current s))"
  shows "handed_over s TASK_FINISHED n (fst (sched_yield b s))"
    and "snd (sched_yield b s) = kill_message (tasks s ! nat (current s))
           @ switch_effects b (fst (sched_yield b s)) (nat (current s)) n"
proof -
  define c where "c = nat (current s)"
  note cs = inv_current [OF inv, folded c_def]
  have n: "n < 16" "st s n = TASK_READY"
    using q in_run_queue [of n s] by auto
  have nc: "n \<noteq> c" using n(2) running_not_ready [OF run] by (auto simp: c_def)
  define s1 where "s1 = set_task s c ((tasks s ! c)\<lparr>tstate := TASK_FINISHED\<rparr>)"
  define s2 where "s2 = (set_task s1 n ((tasks s1 ! n)\<lparr>tstate := TASK_RUNNING\<rparr>))\<lparr>current := int n\<rparr>"
  have "run_queue s1 = run_queue s"
    using cs run by (intro run_queue_same) (auto simp: s1_def sched_simps cur_running_def c_def)
  then have "next_ready s1 (current s1) = int n"
    using next_ready_run_queue [of s1] cs q by (simp add: s1_def sched_simps)
  then have eq: "sched_yield b s = (s2, kill_message (tasks s ! c) @ switch_effects b s2 c n)"
    unfolding sched_yield_def cs(1) option.case Let_def s1_def [symmetric]
    using k [folded c_def] by (simp add: s2_def)
  have "handed_over s TASK_FINISHED n s2"
    using n cs nc unfolding handed_over_def c_def [symmetric]
    by (intro conjI ext allI impI) (simp_all add: s1_def s2_def sched_simps)
  then show "handed_over s TASK_FINISHED n (fst (sched_yield b s))" by (simp add: eq)
  show "snd (sched_yield b s) = kill_message (tasks s ! nat (current s))
           @ switch_effects b (fst (sched_yield b s)) (nat (current s)) n"
    by (simp add: eq c_def)
qed

lemma yield_handed_over:
  assumes inv: "sched_inv s" and run: "cur_running s" and q: "run_queue s = n # q"
    and k: "\<not> kill_pending (tasks s ! nat (current s))"
  shows "handed_over s TASK_READY n (fst (sched_yield b s))"
    and "snd (sched_yield b s) = switch_effects b (fst (sched_yield b s)) (nat (current s)) n"
proof -
  define c where "c = nat (current s)"
  note cs = inv_current [OF inv, folded c_def]
  have n: "n < 16" "st s n = TASK_READY"
    using q in_run_queue [of n s] by auto
  have nc: "n \<noteq> c" using n(2) running_not_ready [OF run] by (auto simp: c_def)
  define s1 where "s1 = set_task s c ((tasks s ! c)\<lparr>starved_ticks := 0\<rparr>)"
  define s2 where "s2 = set_task s1 c ((tasks s1 ! c)\<lparr>tstate := TASK_READY\<rparr>)"
  define s3 where "s3 = set_task s2 n ((tasks s2 ! n)\<lparr>tstate := TASK_RUNNING\<rparr>)"
  define s4 where "s4 = (set_task s3 c ((tasks s3 ! c)\<lparr>yields := yields (tasks s3 ! c) + 1\<rparr>))\<lparr>current := int n\<rparr>"
  have t1: "st s1 i = st s i" "kill_pending (tasks s1 ! i) = kill_pending (tasks s ! i)"
    "task_as (tasks s1 ! i) = task_as (tasks s ! i)" for i
    using cs by (auto simp: s1_def sched_simps)
  have "run_queue s1 = run_queue s"
    using cs t1 by (intro run_queue_same) (auto simp: s1_def sched_simps)
  then have "next_ready s1 (current s1) = int n"
    using next_ready_run_queue [of s1] cs q by (simp add: s1_def sched_simps)
  then have eq: "sched_yield b s = (s4, switch_effects b s4 c n)"
    unfolding sched_yield_def cs(1) option.case Let_def s1_def [symmetric]
    using k [folded c_def] by (simp add: s2_def s3_def s4_def)
  have l: "length (tasks s1) = 16" "length (tasks s2) = 16" "length (tasks s3) = 16"
    using cs by (simp_all add: s1_def s2_def s3_def sched_simps)
  have t2: "st s2 i = (if i = c then TASK_READY else st s i)"
    "kill_pending (tasks s2 ! i) = kill_pending (tasks s ! i)" "task_as (tasks s2 ! i) = task_as (tasks s ! i)" for i
    using cs l t1 by (auto simp: s2_def sched_simps)
  have t3: "st s3 i = (if i = n then TASK_RUNNING else st s2 i)"
    "kill_pending (tasks s3 ! i) = kill_pending (tasks s ! i)" "task_as (tasks s3 ! i) = task_as (tasks s ! i)" for i
    using n l t2 by (auto simp: s3_def sched_simps)
  have t4: "st s4 i = st s3 i"
    "kill_pending (tasks s4 ! i) = kill_pending (tasks s ! i)" "task_as (tasks s4 ! i) = task_as (tasks s ! i)" for i
    using cs l t3 by (auto simp: s4_def sched_simps)
  have "handed_over s TASK_READY n s4"
    using t4 t3 t2 nc cs l unfolding handed_over_def c_def [symmetric]
    by (auto simp: fun_eq_iff s4_def sched_simps)
  then show "handed_over s TASK_READY n (fst (sched_yield b s))" by (simp add: eq)
  show "snd (sched_yield b s) = switch_effects b (fst (sched_yield b s)) (nat (current s)) n"
    by (simp add: eq c_def)
qed

lemma yield_alone:
  assumes inv: "sched_inv s" and run: "cur_running s" and q: "run_queue s = []"
    and k: "\<not> kill_pending (tasks s ! nat (current s))"
  shows "sched_yield b s
    = (set_task s (nat (current s)) ((tasks s ! nat (current s))\<lparr>starved_ticks := 0\<rparr>), [])"
proof -
  define s1 where "s1 = set_task s (nat (current s)) ((tasks s ! nat (current s))\<lparr>starved_ticks := 0\<rparr>)"
  note cs = inv_current [OF inv]
  have "run_queue s1 = run_queue s"
    using cs by (intro run_queue_same) (auto simp: s1_def sched_simps)
  then have "next_ready s1 (current s1) = -1"
    using next_ready_run_queue [of s1] cs q by (simp add: s1_def sched_simps)
  then show ?thesis
    unfolding sched_yield_def cs(1) option.case Let_def s1_def [symmetric] using k by simp
qed

lemma yield_killed_alone:
  assumes inv: "sched_inv s" and run: "cur_running s" and q: "run_queue s = []"
    and k: "kill_pending (tasks s ! nat (current s))"
  shows "fst (sched_yield b s) = fst (sched_exit b s)"
    and "\<forall>a. E_as_switch a \<notin> set (snd (sched_yield b s))"
proof -
  define s1 where "s1 = set_task s (nat (current s)) ((tasks s ! nat (current s))\<lparr>tstate := TASK_FINISHED\<rparr>)"
  note cs = inv_current [OF inv]
  have "run_queue s1 = run_queue s"
    using cs run by (intro run_queue_same) (auto simp: s1_def sched_simps cur_running_def)
  then have nr: "next_ready s1 (current s1) = -1"
    using next_ready_run_queue [of s1] cs q by (simp add: s1_def sched_simps)
  have c1: "cur s1 = Some (nat (current s))" "current s1 = current s"
    using cs by (simp_all add: s1_def cur_def set_task_def)
  have "set_task s1 (nat (current s)) ((tasks s1 ! nat (current s))\<lparr>tstate := TASK_FINISHED\<rparr>) = s1"
    using cs by (simp add: s1_def set_task_def)
  then have "sched_exit b s1 = (s1, [E_irq_enable, E_park])"
    using nr c1 by (simp add: sched_exit_def Let_def)
  moreover have "fst (sched_exit b s) = s1"
    using exit_parks [OF inv run q] by (simp add: s1_def)
  ultimately show "fst (sched_yield b s) = fst (sched_exit b s)"
    and "\<forall>a. E_as_switch a \<notin> set (snd (sched_yield b s))"
    unfolding sched_yield_def cs(1) option.case Let_def s1_def [symmetric]
    using k nr by (simp_all add: kill_message_def)
qed

section \<open>The invariant\<close>

lemma handed_over_inv:
  assumes inv: "sched_inv s" and n: "n < 16" and v: "v \<noteq> TASK_RUNNING"
    and h: "handed_over s v n s'"
  shows "sched_inv s'"
proof -
  have s': "st s' = (st s)(nat (current s) := v, n := TASK_RUNNING)" "current s' = int n"
    "length (tasks s') = length (tasks s)" "kill_pending (tasks s' ! 0) = kill_pending (tasks s ! 0)"
    using h unfolding handed_over_def by simp_all
  have i: "length (tasks s) = 16" "\<not> kill_pending (tasks s ! 0)"
    using inv unfolding sched_inv_def by simp_all
  have only: "\<forall>i<16. st s' i = TASK_RUNNING \<longrightarrow> int i = current s'"
  proof (intro allI impI, rule ccontr)
    fix i assume that: "i < 16" "st s' i = TASK_RUNNING" and "int i \<noteq> current s'"
    then have "i \<noteq> nat (current s)" "st s i = TASK_RUNNING"
      using that v by (auto simp: s'(1,2) split: if_splits)
    moreover have "int i = current s"
      using inv that(1) \<open>st s i = TASK_RUNNING\<close> unfolding sched_inv_def by simp
    ultimately show False by linarith
  qed
  have "st s' (nat (current s')) = TASK_RUNNING" by (simp add: s'(1,2))
  then show ?thesis
    unfolding sched_inv_def by (intro conjI disjI1 only) (simp_all add: s'(2-4) i n)
qed

lemma parked_inv:
  assumes inv: "sched_inv s" and run: "cur_running s" and q: "run_queue s = []"
  shows "sched_inv (set_task s (nat (current s)) ((tasks s ! nat (current s))\<lparr>tstate := TASK_FINISHED\<rparr>))"
proof -
  have "st s i \<noteq> TASK_READY" if "i < 16" for i
    using that q in_run_queue [of i s] by auto
  then show ?thesis
    using inv run by (auto simp: sched_inv_def sched_simps)
qed

text \<open>
  Every call other than \<^verbatim>\<open>sched_yield\<close> and \<^verbatim>\<open>sched_exit\<close> leaves the running task on the CPU
  and at most turns a free slot into a ready one.
\<close>

definition quiet :: "sched \<Rightarrow> sched \<Rightarrow> bool" where
  "quiet s s' \<longleftrightarrow> current s' = current s \<and> length (tasks s') = length (tasks s)
     \<and> (\<forall>i. st s' i = st s i \<or> cur_running s \<and> st s i \<noteq> TASK_RUNNING \<and> st s i \<noteq> TASK_READY \<and> st s' i = TASK_READY)
     \<and> (kill_pending (tasks s' ! 0) \<longrightarrow> kill_pending (tasks s ! 0))
     \<and> task_as (tasks s' ! nat (current s)) = task_as (tasks s ! nat (current s))"

lemma quiet_refl [simp]: "quiet s s"
  by (simp add: quiet_def)

lemma quiet_set_same:
  assumes "st s i = tstate t" "kill_pending t \<longrightarrow> kill_pending (tasks s ! i) \<or> i \<noteq> 0" "task_as t = task_as (tasks s ! i)"
  shows "quiet s (set_task s i t)"
  using assms by (auto simp: quiet_def sched_simps)

lemma quiet_spawned:
  assumes "cur_running s" "st s i = TASK_UNUSED \<or> st s i = TASK_FINISHED" "tstate t = TASK_READY" "\<not> kill_pending t"
  shows "quiet s (set_task s i t)"
  using assms by (auto simp: quiet_def sched_simps cur_running_def)

lemma slot_alloc_free:
  assumes "0 \<le> slot_alloc s"
  shows "nat (slot_alloc s) < length (tasks s)"
    and "st s (nat (slot_alloc s)) = TASK_UNUSED \<or> st s (nat (slot_alloc s)) = TASK_FINISHED"
proof -
  obtain i where "first_slot (\<lambda>t. tstate t = TASK_UNUSED \<or> tstate t = TASK_FINISHED) (tasks s) = Some i"
      "slot_alloc s = int i"
    using assms by (auto simp: slot_alloc_def split: option.splits)
  then show "nat (slot_alloc s) < length (tasks s)"
    "st s (nat (slot_alloc s)) = TASK_UNUSED \<or> st s (nat (slot_alloc s)) = TASK_FINISHED"
    by (auto simp: first_slot_Some st_def)
qed

lemma quiet_tick: "quiet s (fst (sched_on_tick s))"
proof (cases "cur s")
  case None
  then have "cur (s\<lparr>uptime := u\<rparr>) = None" for u by (simp add: cur_def split: if_splits)
  then show ?thesis by (simp add: sched_on_tick_def quiet_def sched_simps Let_def)
next
  case (Some c)
  then have c: "c = nat (current s)" "0 \<le> current s" by (auto simp: cur_def split: if_splits)
  have q: "quiet s ((set_task s i t)\<lparr>uptime := u\<rparr>)"
    if "tstate t = st s i" "kill_pending t \<longrightarrow> kill_pending (tasks s ! i) \<or> i \<noteq> 0" "task_as t = task_as (tasks s ! i)" for t u i
    using that by (auto simp: quiet_def sched_simps)
  have eq: "set_task (s\<lparr>uptime := u\<rparr>) i t = (set_task s i t)\<lparr>uptime := u\<rparr>" for u t i
    by (simp add: set_task_def)
  have "quiet s (s\<lparr>uptime := u\<rparr>)" for u by (auto simp: quiet_def sched_simps)
  then show ?thesis
    using Some c by (auto simp: sched_on_tick_def cur_def Let_def eq sched_simps intro!: q)
qed

lemma quiet_call:
  assumes "\<not> gives_cpu_away e" "e \<noteq> Ev_tick \<longrightarrow> cur_running s"
  shows "quiet s (fst (sched_call b s e))"
proof (cases e)
  case Ev_tick
  then show ?thesis by (simp add: quiet_tick)
next
  case (Ev_spawn name entry stack len)
  then show ?thesis
    using assms slot_alloc_free [of s]
    by (auto simp: sched_spawn_def Let_def task_setup_def intro!: quiet_spawned)
next
  case (Ev_spawn_user name as_ptr entry sp pid stack len)
  then show ?thesis
    using assms slot_alloc_free [of s]
    by (auto simp: sched_spawn_user_task_def Let_def task_setup_def intro!: quiet_spawned)
next
  case (Ev_watchdog l)
  then show ?thesis by (auto simp: sched_watchdog_set_def quiet_def sched_simps)
next
  case (Ev_set_pid i p)
  then show ?thesis by (auto simp: sched_task_set_pid_def sched_simps intro!: quiet_set_same)
next
  case (Ev_set_kstack i t)
  then show ?thesis
    by (auto simp: sched_task_set_kstack_def sched_simps split: port.splits intro!: quiet_set_same)
qed (use assms in auto)

lemma quiet_inv:
  assumes q: "quiet s s'" and inv: "sched_inv s"
  shows "sched_inv s'"
proof -
  have r: "\<forall>i<16. st s' i = TASK_RUNNING \<longrightarrow> int i = current s'"
    using q inv unfolding quiet_def sched_inv_def by (metis task_state.distinct)
  have "st s' (nat (current s)) = st s (nat (current s))"
    using q unfolding quiet_def cur_running_def by metis
  moreover have "\<forall>i<16. st s' i \<noteq> TASK_READY" if "st s (nat (current s)) = TASK_FINISHED" "\<forall>i<16. st s i \<noteq> TASK_READY"
    using that q unfolding quiet_def cur_running_def by (metis task_state.distinct)
  ultimately show ?thesis
    using r q inv unfolding quiet_def sched_inv_def by (intro conjI) (auto simp only:)
qed

lemma quiet_cur_running: "quiet s s' \<Longrightarrow> cur_running s \<Longrightarrow> cur_running s'"
  unfolding quiet_def cur_running_def by metis

lemma quiet_ready: "quiet s s' \<Longrightarrow> st s j = TASK_READY \<Longrightarrow> st s' j = TASK_READY"
  unfolding quiet_def by metis

text \<open>Giving the CPU away: the next task of the queue runs, or the caller stays or parks.\<close>

lemma give_away_cases:
  assumes inv: "sched_inv s" and run: "cur_running s" and e: "gives_cpu_away e"
  obtains (hand_over) n q v where "run_queue s = n # q" "v \<noteq> TASK_RUNNING"
      "handed_over s v n (fst (sched_call b s e))"
      "\<exists>pre. snd (sched_call b s e) = pre @ switch_effects b (fst (sched_call b s e)) (nat (current s)) n
         \<and> (\<forall>a. E_as_switch a \<notin> set pre)"
  | (stay) t where "run_queue s = []" "fst (sched_call b s e) = set_task s (nat (current s)) t"
      "tstate t = TASK_RUNNING" "kill_pending t = kill_pending (tasks s ! nat (current s))"
      "task_as t = task_as (tasks s ! nat (current s))" "\<forall>a. E_as_switch a \<notin> set (snd (sched_call b s e))"
  | (park) "run_queue s = []"
      "fst (sched_call b s e) = set_task s (nat (current s)) ((tasks s ! nat (current s))\<lparr>tstate := TASK_FINISHED\<rparr>)"
      "\<forall>a. E_as_switch a \<notin> set (snd (sched_call b s e))"
proof (cases "run_queue s")
  case (Cons n q)
  note y = yield_handed_over [OF inv run Cons, of b] yield_kill_handed_over [OF inv run Cons, of b]
    exit_handed_over [OF inv run Cons, of b]
  have m: "\<forall>a. E_as_switch a \<notin> set (kill_message t)" for t by (simp add: kill_message_def)
  have ee: "e = Ev_yield \<or> e = Ev_exit" using e by (cases e) auto
  have "\<exists>v. v \<noteq> TASK_RUNNING \<and> handed_over s v n (fst (sched_call b s e))
      \<and> (\<exists>pre. snd (sched_call b s e) = pre @ switch_effects b (fst (sched_call b s e)) (nat (current s)) n
         \<and> (\<forall>a. E_as_switch a \<notin> set pre))"
  proof (cases "e = Ev_exit")
    case True
    then show ?thesis using y(5,6) by (intro exI [of _ TASK_FINISHED]) (auto intro: exI [of _ "[]"])
  next
    case False
    with ee have "e = Ev_yield" by simp
    then show ?thesis
      using y(1-4) m
      by (cases "kill_pending (tasks s ! nat (current s))")
        (fastforce intro: exI [of _ TASK_FINISHED], fastforce intro: exI [of _ TASK_READY] exI [of _ "[]"])
  qed
  then show thesis using hand_over [OF Cons] by blast
next
  case Nil
  have ee: "e = Ev_yield \<or> e = Ev_exit" using e by (cases e) auto
  show thesis
  proof (cases "e = Ev_yield \<and> \<not> kill_pending (tasks s ! nat (current s))")
    case True
    then show thesis
      using yield_alone [OF inv run Nil, of b] run
      by (intro stay [OF Nil, of "(tasks s ! nat (current s))\<lparr>starved_ticks := 0\<rparr>"])
        (auto simp: cur_running_def sched_simps)
  next
    case False
    then show thesis
      using ee exit_parks [OF inv run Nil, of b] yield_killed_alone [OF inv run Nil, of b]
      by (intro park [OF Nil]) auto
  qed
qed

lemma sched_step_inv:
  assumes "sched_step b s e s'" and inv: "sched_inv s"
  shows "sched_inv s'"
  using assms(1)
proof cases
  case tick
  then show ?thesis using inv quiet_inv [OF quiet_tick] by simp
next
  case call
  show ?thesis
  proof (cases "gives_cpu_away e")
    case False
    then show ?thesis using call inv quiet_inv [OF quiet_call] by blast
  next
    case True
    show ?thesis
      using inv call(2) True
    proof (cases rule: give_away_cases [where b = b])
      case (hand_over n q v)
      then show ?thesis
        using call(1) handed_over_inv [OF inv] in_run_queue [of n s] by auto
    next
      case (stay t)
      then have "quiet s s'" using call by (auto simp: cur_running_def intro!: quiet_set_same)
      then show ?thesis using inv by (rule quiet_inv)
    next
      case park
      then show ?thesis using call(1) parked_inv [OF inv call(2)] by simp
    qed
  qed
qed

text \<open>A call a task that does not hold the CPU cannot make leaves the state alone.\<close>

definition sched_do :: "build \<Rightarrow> sched \<Rightarrow> sched_event \<Rightarrow> sched" where
  "sched_do b s e = (if e = Ev_tick \<or> cur_running s then fst (sched_call b s e) else s)"

interpretation sched_sys: event_system "sched_do b" sched_inv for b
  by unfold_locales (auto simp: sched_do_def intro: sched_step_inv sched_step.intros quiet_inv [OF quiet_tick])

lemma sched_run_foldl: "sched_run b s es s' \<Longrightarrow> s' = foldl (sched_do b) s es"
  by (induction rule: sched_run.induct) (auto simp: sched_do_def elim: sched_step.cases)

lemma sched_run_inv: "sched_run b s es s' \<Longrightarrow> sched_inv s \<Longrightarrow> sched_inv s'"
  using sched_sys.run_inv sched_run_foldl by blast

lemma init_inv:
  assumes "length (tasks s) = 16"
  shows "sched_inv (fst (sched_init name s))" and "cur_running (fst (sched_init name s))"
  using assms by (auto simp: sched_inv_def sched_init_def cur_running_def Let_def st_def nth_list_update)

section \<open>Round robin\<close>

text \<open>
  The specification of the scheduler: the running task and the ready ones in the order in which
  they will run.  \<^verbatim>\<open>sched_yield\<close> and \<^verbatim>\<open>sched_exit\<close> implement it on the task table.
\<close>

record rr =
  rr_running :: nat
  rr_ready :: "nat list"

fun rr_yield :: "rr \<Rightarrow> rr" where
  "rr_yield r = (case rr_ready r of [] \<Rightarrow> r | n # q \<Rightarrow> \<lparr>rr_running = n, rr_ready = q @ [rr_running r]\<rparr>)"

fun rr_exit :: "rr \<Rightarrow> rr" where
  "rr_exit r = (case rr_ready r of [] \<Rightarrow> r | n # q \<Rightarrow> \<lparr>rr_running = n, rr_ready = q\<rparr>)"

definition rr_of :: "sched \<Rightarrow> rr" where
  "rr_of s = \<lparr>rr_running = nat (current s), rr_ready = run_queue s\<rparr>"

lemma handed_over_queue:
  assumes inv: "sched_inv s" and run: "cur_running s" and q: "run_queue s = n # q"
    and h: "handed_over s v n s'"
  shows "rr_of s' = \<lparr>rr_running = n, rr_ready = q @ (if v = TASK_READY then [nat (current s)] else [])\<rparr>"
proof -
  note cs = inv_current [OF inv]
  have s': "st s' = (st s)(nat (current s) := v, n := TASK_RUNNING)" "current s' = int n"
    using h unfolding handed_over_def by simp_all
  show ?thesis
    using rotate_queue [OF cs(2) running_not_ready [OF run] q [unfolded run_queue_def], of v] cs(5)
    unfolding rr_of_def run_queue_def by (simp add: s')
qed

lemma same_queue:
  assumes inv: "sched_inv s" and run: "cur_running s" and t: "tstate t \<noteq> TASK_READY"
  shows "rr_of (set_task s (nat (current s)) t) = rr_of s"
proof -
  have "run_queue (set_task s (nat (current s)) t) = run_queue s"
    using running_not_ready [OF run] t by (intro run_queue_same) (auto simp: sched_simps)
  then show ?thesis by (simp add: rr_of_def sched_simps)
qed

section \<open>Fairness\<close>

text \<open>How many slots \<^verbatim>\<open>next_ready\<close> looks at before slot \<open>j\<close> when slot \<open>c\<close> gives the CPU away.\<close>

definition rr_dist :: "nat \<Rightarrow> nat \<Rightarrow> nat" where
  "rr_dist c j = (if c < j then j - c - 1 else j + 15 - c)"

lemma rr_dist_nth: "c < 16 \<Longrightarrow> j < 16 \<Longrightarrow> rr_dist c j < 16 \<and> cyc c ! rr_dist c j = j"
  by (auto simp: rr_dist_def)

lemma rr_dist_step:
  assumes "c < 16" "j < 16" "k < rr_dist c j"
  shows "rr_dist (cyc c ! k) j < rr_dist c j"
proof -
  have k: "k < 16" using assms rr_dist_nth [of c j] by linarith
  show ?thesis
  proof (cases "c + Suc k < 16")
    case True
    then have "cyc c ! k = c + Suc k" using k by simp
    then show ?thesis using assms True by (auto simp: rr_dist_def split: if_splits)
  next
    case False
    then have "cyc c ! k = c + Suc k - 16"
      using k assms(1) by (simp add: mod_if)
    then show ?thesis using assms False by (auto simp: rr_dist_def split: if_splits)
  qed
qed

lemma first_ready_closer:
  assumes "c < 16" "j < 16" "P j" and "filter P (cyc c) = n # q"
  shows "n = j \<or> rr_dist n j < rr_dist c j"
proof -
  obtain pre post where p: "cyc c = pre @ n # post" "\<forall>u\<in>set pre. \<not> P u"
    using filter_eq_ConsD [OF assms(4)] by blast
  have l: "length pre < 16" using arg_cong [OF p(1), of length] by simp
  have d: "rr_dist c j < 16" "cyc c ! rr_dist c j = j" using rr_dist_nth [OF assms(1,2)] by blast+
  have "\<not> rr_dist c j < length pre"
  proof
    assume h: "rr_dist c j < length pre"
    then have "cyc c ! rr_dist c j = pre ! rr_dist c j" by (simp add: p(1) nth_append)
    then have "j \<in> set pre" using h d(2) nth_mem by metis
    then show False using p(2) assms(3) by blast
  qed
  moreover have n: "n = cyc c ! length pre" by (simp add: p(1))
  ultimately show ?thesis
    using rr_dist_step [OF assms(1,2), of "length pre"] d(2) by (metis linorder_cases)
qed

lemma give_away_closer:
  assumes inv: "sched_inv s" and run: "cur_running s" and e: "gives_cpu_away e"
    and j: "j < 16" "st s j = TASK_READY" and s': "s' = fst (sched_call b s e)"
  shows "cur_running s' \<and> (nat (current s') = j
      \<or> st s' j = TASK_READY \<and> rr_dist (nat (current s')) j < rr_dist (nat (current s)) j)"
  using inv run e
proof (cases rule: give_away_cases [where b = b])
  case (hand_over n q v)
  then have h: "st s' = (st s)(nat (current s) := v, n := TASK_RUNNING)" "current s' = int n"
    unfolding s' handed_over_def by simp_all
  have "n = j \<or> rr_dist n j < rr_dist (nat (current s)) j"
    using hand_over(1) j inv_current(2) [OF inv] unfolding run_queue_def
    by (intro first_ready_closer) auto
  moreover have "j \<noteq> nat (current s)" using j(2) running_not_ready [OF run] by auto
  ultimately show ?thesis using h j(2) by (auto simp: cur_running_def)
qed (use j in_run_queue [of j s] in auto)

lemma ready_runs:
  assumes "sched_run b s es s'" "sched_inv s" "cur_running s" "j < 16" "st s j = TASK_READY"
    and "rr_dist (nat (current s)) j < length (filter gives_cpu_away es)"
  shows "\<exists>k s1. sched_run b s (take k es) s1 \<and> cur_running s1 \<and> nat (current s1) = j
    \<and> length (filter gives_cpu_away (take k es)) \<le> Suc (rr_dist (nat (current s)) j)"
  using assms
proof (induction es arbitrary: s)
  case (Cons e es)
  then obtain s1 where step: "sched_step b s e s1" and rest: "sched_run b s1 es s'"
    by (auto simp: sched_run_Cons)
  have s1: "s1 = fst (sched_call b s e)" "e \<noteq> Ev_tick \<longrightarrow> cur_running s"
    using step by (auto elim: sched_step.cases)
  have inv1: "sched_inv s1" using sched_step_inv [OF step] Cons.prems(2) by blast
  have lift: "\<exists>k s2. sched_run b s (take k (e # es)) s2 \<and> cur_running s2 \<and> nat (current s2) = j
      \<and> length (filter gives_cpu_away (take k (e # es))) \<le> m"
    if h: "\<exists>k s2. sched_run b s1 (take k es) s2 \<and> cur_running s2 \<and> nat (current s2) = j
      \<and> length (filter gives_cpu_away (take k es)) \<le> m - (if gives_cpu_away e then 1 else 0)" "0 < m" for m
  proof -
    obtain k s2 where k: "sched_run b s1 (take k es) s2" "cur_running s2" "nat (current s2) = j"
        "length (filter gives_cpu_away (take k es)) \<le> m - (if gives_cpu_away e then 1 else 0)"
      using h(1) by blast
    then show ?thesis
      using h(2) step
      by (intro exI [of _ "Suc k"] exI [of _ s2]) (auto simp: sched_run_Cons split: if_splits)
  qed
  show ?case
  proof (cases "gives_cpu_away e")
    case True
    have r: "cur_running s1" and alt: "nat (current s1) = j
      \<or> st s1 j = TASK_READY \<and> rr_dist (nat (current s1)) j < rr_dist (nat (current s)) j"
      using give_away_closer [OF Cons.prems(2,3) True Cons.prems(4,5) s1(1)] by auto
    show ?thesis
    proof (cases "nat (current s1) = j")
      case True
      with r step show ?thesis by (intro exI [of _ 1] exI [of _ s1]) (auto simp: sched_run_Cons)
    next
      case False
      with alt have c: "st s1 j = TASK_READY" "rr_dist (nat (current s1)) j < rr_dist (nat (current s)) j" by auto
      then show ?thesis
        using Cons.IH [OF rest inv1 r Cons.prems(4) c(1)] Cons.prems(6) True
        by (intro lift) fastforce+
    qed
  next
    case False
    then have q: "quiet s s1" using quiet_call s1 by blast
    then have "current s1 = current s" by (simp add: quiet_def)
    then show ?thesis
      using Cons.IH [OF rest inv1 quiet_cur_running [OF q] Cons.prems(4) quiet_ready [OF q]] Cons.prems False
      by (intro lift) auto
  qed
qed simp

section \<open>Address spaces\<close>

text \<open>The calls of a run with their effects, and the address space the MMU is left with.\<close>

fun sched_exec :: "build \<Rightarrow> sched \<Rightarrow> sched_event list \<Rightarrow> sched \<times> hw_effect list" where
  "sched_exec b s [] = (s, [])"
| "sched_exec b s (e # es) =
     (let (s1, fx) = sched_call b s e; (s2, fy) = sched_exec b s1 es in (s2, fx @ fy))"

fun active_as :: "u64 \<Rightarrow> hw_effect list \<Rightarrow> u64" where
  "active_as a [] = a"
| "active_as a (E_as_switch x # es) = active_as x es"
| "active_as a (_ # es) = active_as a es"

lemma active_as_append: "active_as a (xs @ ys) = active_as (active_as a xs) ys"
  by (induction a xs rule: active_as.induct) auto

lemma active_as_none: "\<forall>a. E_as_switch a \<notin> set es \<Longrightarrow> active_as a es = a"
  by (induction a es rule: active_as.induct) auto

lemma quiet_no_switch: "\<not> gives_cpu_away e \<Longrightarrow> E_as_switch a \<notin> set (snd (sched_call b s e))"
  by (cases e) (auto simp: sched_on_tick_def sched_task_set_kstack_def Let_def split: option.splits port.splits)

lemma call_active_as:
  assumes inv: "sched_inv s" and run: "e \<noteq> Ev_tick \<longrightarrow> cur_running s" and p: "build_port b = AArch64"
    and s': "s' = fst (sched_call b s e)"
  shows "active_as (task_as (tasks s ! nat (current s))) (snd (sched_call b s e))
      = task_as (tasks s' ! nat (current s'))"
proof (cases "gives_cpu_away e")
  case False
  then show ?thesis
    using quiet_call [OF False run, of b] quiet_no_switch [OF False]
    by (simp add: active_as_none s' quiet_def)
next
  case True
  then have "cur_running s" using run by auto
  note cs = inv_current [OF inv]
  show ?thesis
    using inv \<open>cur_running s\<close> True
  proof (cases rule: give_away_cases [where b = b])
    case (hand_over n q v)
    then obtain pre where pre: "snd (sched_call b s e) = pre @ switch_effects b s' (nat (current s)) n"
        "\<forall>a. E_as_switch a \<notin> set pre" unfolding s' by blast
    have "n < 16" using hand_over(1) in_run_queue [of n s] by auto
    then have "current s' = int n" "task_as (tasks s' ! n) = task_as (tasks s ! n)"
      "task_as (tasks s' ! nat (current s)) = task_as (tasks s ! nat (current s))"
      using hand_over(3) cs unfolding handed_over_def s' by auto
    then show ?thesis
      using pre p
      by (simp add: active_as_append active_as_none switch_effects_def arch_pre_switch_def
          switch_address_space_def)
  next
    case (stay t)
    then show ?thesis using cs by (simp add: active_as_none s' sched_simps)
  next
    case park
    then show ?thesis using cs by (simp add: active_as_none s' sched_simps)
  qed
qed

lemma exec_active_as:
  assumes "sched_run b s es s'" "sched_inv s" "build_port b = AArch64"
  shows "fst (sched_exec b s es) = s'
    \<and> active_as (task_as (tasks s ! nat (current s))) (snd (sched_exec b s es))
      = task_as (tasks s' ! nat (current s'))"
  using assms
proof (induction rule: sched_run.induct)
  case (run_cons s e s1 es s2)
  have s1: "s1 = fst (sched_call b s e)" "e \<noteq> Ev_tick \<longrightarrow> cur_running s"
    using run_cons.hyps(1) by (auto elim: sched_step.cases)
  have "sched_inv s1" using sched_step_inv [OF run_cons.hyps(1) run_cons.prems(1)] .
  with run_cons.IH run_cons.prems call_active_as [OF run_cons.prems(1) s1(2) run_cons.prems(2) s1(1)]
  show ?case by (auto simp: Let_def split_beta active_as_append s1(1))
qed simp

section \<open>The watchdog\<close>

definition sched_ticks :: "nat \<Rightarrow> sched \<Rightarrow> sched" where
  "sched_ticks n = (\<lambda>s. fst (sched_on_tick s)) ^^ n"

lemma tick_starves:
  assumes inv: "sched_inv s" and run: "cur_running s" and c: "current s \<noteq> 0" and l: "watchdog_limit s \<noteq> 0"
    and s': "s' = fst (sched_on_tick s)" and t: "t = tasks s ! nat (current s)" "t' = tasks s' ! nat (current s)"
  shows "current s' = current s" "watchdog_limit s' = watchdog_limit s"
    "starved_ticks t' = starved_ticks t + 1"
    "kill_pending t' \<longleftrightarrow> kill_pending t \<or> watchdog_limit s \<le> starved_ticks t + 1"
proof -
  note cs = inv_current [OF inv]
  have "cur (s\<lparr>uptime := u\<rparr>) = Some (nat (current s))" for u using cs by (simp add: cur_def)
  then show "current s' = current s" "watchdog_limit s' = watchdog_limit s"
    "starved_ticks t' = starved_ticks t + 1"
    "kill_pending t' \<longleftrightarrow> kill_pending t \<or> watchdog_limit s \<le> starved_ticks t + 1"
    using run cs c l unfolding s' t cur_running_def
    by (auto simp: sched_on_tick_def Let_def sched_simps)
qed

lemma ticks_starve:
  assumes inv: "sched_inv s" and run: "cur_running s" and c: "current s \<noteq> 0"
    and k: "\<not> kill_pending (tasks s ! nat (current s))"
    and st0: "starved_ticks (tasks s ! nat (current s)) < watchdog_limit s"
    and n: "unat (starved_ticks (tasks s ! nat (current s))) + n < 2 ^ 32"
  defines "s' \<equiv> sched_ticks n s"
  shows "sched_inv s' \<and> cur_running s' \<and> current s' = current s \<and> watchdog_limit s' = watchdog_limit s
    \<and> unat (starved_ticks (tasks s' ! nat (current s))) = unat (starved_ticks (tasks s ! nat (current s))) + n
    \<and> (kill_pending (tasks s' ! nat (current s)) \<longleftrightarrow>
        unat (watchdog_limit s) \<le> unat (starved_ticks (tasks s ! nat (current s))) + n)"
  using n unfolding s'_def
proof (induction n)
  case 0
  then show ?case using inv run k st0 by (simp add: sched_ticks_def word_less_nat_alt)
next
  case (Suc n)
  define s1 where "s1 = sched_ticks n s"
  have IH: "sched_inv s1" "cur_running s1" "current s1 = current s" "watchdog_limit s1 = watchdog_limit s"
    "unat (starved_ticks (tasks s1 ! nat (current s))) = unat (starved_ticks (tasks s ! nat (current s))) + n"
    "kill_pending (tasks s1 ! nat (current s)) \<longleftrightarrow>
        unat (watchdog_limit s) \<le> unat (starved_ticks (tasks s ! nat (current s))) + n"
    using Suc by (simp_all add: s1_def)
  have l: "watchdog_limit s1 \<noteq> 0" using st0 IH(4) by (auto simp: word_less_nat_alt)
  have eq: "sched_ticks (Suc n) s = fst (sched_on_tick s1)"
    by (simp add: sched_ticks_def s1_def)
  note t = tick_starves [OF IH(1,2) _ l refl refl refl, unfolded IH(3,4), OF c]
  have u: "unat (starved_ticks (tasks s1 ! nat (current s)) + 1) = Suc (unat (starved_ticks (tasks s1 ! nat (current s))))"
    using Suc.prems IH(5) by (intro unat_Suc_word) (simp add: less_eq_Suc_le)
  have q: "quiet s1 (fst (sched_on_tick s1))" by (rule quiet_tick)
  show ?case
    unfolding eq
    using t u IH quiet_inv [OF q IH(1)] quiet_cur_running [OF q IH(2)]
    by (auto simp: word_le_nat_alt)
qed

section \<open>Properties\<close>

text \<open>
  C1. \<^verbatim>\<open>sched_yield\<close> and \<^verbatim>\<open>sched_exit\<close> implement round robin: a yield puts the caller behind all
  ready tasks and runs the first of them (a task the watchdog flagged leaves instead), an exit
  drops the caller and runs the first ready task.
\<close>

theorem sched_refines_round_robin:
  assumes inv: "sched_inv s" and run: "cur_running s"
  shows "rr_of (fst (sched_yield b s)) =
    (if kill_pending (tasks s ! nat (current s)) then rr_exit (rr_of s) else rr_yield (rr_of s))
  \<and> rr_of (fst (sched_exit b s)) = rr_exit (rr_of s)"
proof (cases "run_queue s")
  case Nil
  let ?k = "kill_pending (tasks s ! nat (current s))"
  have "rr_of (fst (sched_exit b s)) = rr_of s"
    using exit_parks(1) [OF inv run Nil, of b] same_queue [OF inv run] by simp
  moreover have "rr_of (fst (sched_yield b s)) = rr_of s" if "\<not> ?k"
    using yield_alone [OF inv run Nil that, of b] same_queue [OF inv run] run
    by (simp add: sched_simps cur_running_def)
  ultimately show ?thesis
    using yield_killed_alone(1) [OF inv run Nil, of b] Nil by (simp add: rr_of_def)
next
  case (Cons n q)
  then show ?thesis
    using handed_over_queue [OF inv run Cons exit_handed_over(1) [OF inv run Cons, of b]]
      handed_over_queue [OF inv run Cons yield_kill_handed_over(1) [OF inv run Cons, of b]]
      handed_over_queue [OF inv run Cons yield_handed_over(1) [OF inv run Cons, of b]]
    by (simp add: rr_of_def)
qed


text \<open>A machine with one spawned kernel task, for the examples.\<close>

definition demo_build :: build where
  "demo_build = \<lparr>build_port = AArch64, task_trampoline = 0x40080100, syscall_user_drop = 0x40080200\<rparr>"

definition demo_boot :: sched where
  "demo_boot = fst (sched_init (str ''main'') sched_statics)"

definition demo_sched :: sched where
  "demo_sched = fst (sched_spawn_user_task demo_build (str ''worker'') 0x41000000 0x80000000 0x80100000 1
     0x42000000 4096 demo_boot)"

definition demo_worker :: sched where
  "demo_worker = fst (sched_yield demo_build demo_sched)"

fun run_ok :: "build \<Rightarrow> sched \<Rightarrow> sched_event list \<Rightarrow> bool" where
  "run_ok b s [] = True"
| "run_ok b s (e # es) = ((e = Ev_tick \<or> cur_running s) \<and> run_ok b (fst (sched_call b s e)) es)"

lemma run_okI: "run_ok b s es \<Longrightarrow> sched_run b s es (fst (sched_exec b s es))"
  by (induction es arbitrary: s)
    (auto simp: sched_run_Cons Let_def split_beta intro: sched_step.intros)

lemma demo_boot_facts: "sched_inv demo_boot" "cur_running demo_boot"
  unfolding demo_boot_def by (rule init_inv; simp add: sched_statics_def)+

lemma demo_sched_run: "sched_run demo_build demo_boot
    [Ev_spawn_user (str ''worker'') 0x41000000 0x80000000 0x80100000 1 0x42000000 4096] demo_sched"
  using sched_step.call [OF demo_boot_facts(2), of
      "Ev_spawn_user (str ''worker'') 0x41000000 0x80000000 0x80100000 1 0x42000000 4096" demo_build]
  by (simp add: sched_run_Cons demo_sched_def)

lemma demo_sched_facts: "sched_inv demo_sched" "cur_running demo_sched" "st demo_sched 1 = TASK_READY"
    "\<not> kill_pending (tasks demo_sched ! nat (current demo_sched))" "run_queue demo_sched = [1]" "current demo_sched = 0"
  by (rule sched_run_inv [OF demo_sched_run demo_boot_facts(1)]) (code_simp)+

lemma demo_worker_facts: "sched_inv demo_worker" "cur_running demo_worker" "current demo_worker = 1"
    "\<not> kill_pending (tasks demo_worker ! 1)" "starved_ticks (tasks demo_worker ! 1) = 0"
    "watchdog_limit demo_worker = 600"
proof -
  have "sched_step demo_build demo_sched Ev_yield demo_worker"
    using sched_step.call [OF demo_sched_facts(2), of Ev_yield demo_build] by (simp add: demo_worker_def)
  then show "sched_inv demo_worker" by (rule sched_step_inv [OF _ demo_sched_facts(1)])
qed code_simp+

theorem sched_refines_round_robin_witness:
  "sched_inv demo_sched \<and> cur_running demo_sched
   \<and> rr_of (fst (sched_yield demo_build demo_sched)) = \<lparr>rr_running = 1, rr_ready = [0]\<rparr>"
  using sched_refines_round_robin [OF demo_sched_facts(1,2), of demo_build] demo_sched_facts
  by (simp add: rr_of_def)

text \<open>
  C3. From boot on, in every run of scheduler calls (the calls made by a running task, the ticks at
  any time), at most one task is in state RUNNING and it is the one \<^verbatim>\<open>current\<close> names; the CPU idles in
  a finished task only when no task is ready; and task 0 is never flagged by the watchdog.
\<close>

theorem sched_reachable_inv:
  assumes "length (tasks s0) = MAX_TASKS"
    and "sched_run b (fst (sched_init main_name s0)) es s"
  shows "sched_inv s \<and> card {i. i < MAX_TASKS \<and> st s i = TASK_RUNNING} \<le> 1"
proof -
  have inv: "sched_inv s" using sched_run_inv [OF assms(2)] init_inv(1) [OF assms(1)] by blast
  then have "{i. i < 16 \<and> st s i = TASK_RUNNING} \<subseteq> {nat (current s)}"
    unfolding sched_inv_def by fastforce
  then have "card {i. i < 16 \<and> st s i = TASK_RUNNING} \<le> card {nat (current s)}"
    by (rule card_mono [rotated]) simp
  with inv show ?thesis by simp
qed

theorem sched_reachable_inv_witness:
  "sched_run demo_build (fst (sched_init (str ''main'') sched_statics))
     [Ev_spawn_user (str ''worker'') 0x41000000 0x80000000 0x80100000 1 0x42000000 4096] demo_sched
   \<and> sched_inv demo_sched \<and> card {i. i < MAX_TASKS \<and> st demo_sched i = TASK_RUNNING} \<le> 1"
  using sched_reachable_inv [OF _ demo_sched_run [unfolded demo_boot_def]] demo_sched_run [unfolded demo_boot_def]
  by (simp add: sched_statics_def)

text \<open>
  C2. Fairness: a ready task is running at the latest after fifteen calls that give the CPU away
  (\<^verbatim>\<open>sched_yield\<close>, \<^verbatim>\<open>sched_exit\<close>), whatever ticks, spawns and other calls come between them.
\<close>

theorem sched_fair:
  assumes "sched_inv s" and "cur_running s" and "j < MAX_TASKS" and "st s j = TASK_READY"
    and "sched_run b s es s'" and "15 \<le> length (filter gives_cpu_away es)"
  shows "\<exists>k s1. sched_run b s (take k es) s1 \<and> current s1 = int j \<and> st s1 j = TASK_RUNNING
    \<and> length (filter gives_cpu_away (take k es)) \<le> 15"
proof -
  have "nat (current s) \<noteq> j" using assms(4) running_not_ready [OF assms(2)] by auto
  then have "rr_dist (nat (current s)) j \<le> 14"
    using inv_current [OF assms(1)] assms(3) by (auto simp: rr_dist_def)
  then obtain k s1 where k: "sched_run b s (take k es) s1" "cur_running s1" "nat (current s1) = j"
      "length (filter gives_cpu_away (take k es)) \<le> 15"
    using ready_runs [OF assms(5,1,2,3,4)] assms(6) by fastforce
  then have "current s1 = int j" "st s1 j = TASK_RUNNING" by (auto simp: cur_running_def)
  with k show ?thesis by blast
qed

text \<open>
  C5. On AArch64, after every run of calls the translation tables the MMU was last switched to are
  those of the running task, if they were at the start: every hand-over between tasks of different
  address spaces emits \<^verbatim>\<open>vmm_as_switch\<close> for the new task's space, and no other call touches it.
\<close>

theorem sched_address_space:
  assumes "build_port b = AArch64" and "sched_inv s" and "sched_run b s es s'"
  shows "fst (sched_exec b s es) = s'
    \<and> active_as (task_as (tasks s ! nat (current s))) (snd (sched_exec b s es))
      = task_as (tasks s' ! nat (current s'))"
  using exec_active_as [OF assms(3,2,1)] .

theorem sched_address_space_witness:
  "sched_run demo_build demo_sched [Ev_yield] demo_worker
   \<and> active_as 0 (snd (sched_exec demo_build demo_sched [Ev_yield])) = 0x41000000"
proof -
  have "sched_run demo_build demo_sched [Ev_yield] demo_worker"
    using sched_step.call [OF demo_sched_facts(2), of Ev_yield demo_build]
    by (simp add: sched_run_Cons demo_worker_def)
  moreover have "task_as (tasks demo_sched ! nat (current demo_sched)) = 0"
    "task_as (tasks demo_worker ! nat (current demo_worker)) = 0x41000000" by code_simp+
  ultimately show ?thesis
    using sched_address_space [of demo_build demo_sched "[Ev_yield]" demo_worker] demo_sched_facts(1)
    by (simp add: demo_build_def del: sched_exec.simps)
qed

text \<open>
  C26. The watchdog: a task other than task 0 that is running, unflagged and below the limit is
  flagged after \<open>n\<close> further ticks without a yield exactly when its starved ticks have reached the
  limit, and once flagged its next \<^verbatim>\<open>sched_yield\<close> finishes it.
\<close>

theorem sched_watchdog:
  assumes "sched_inv s" and "cur_running s" and "current s \<noteq> 0"
    and "\<not> kill_pending (tasks s ! nat (current s))"
    and "starved_ticks (tasks s ! nat (current s)) < watchdog_limit s"
    and "unat (starved_ticks (tasks s ! nat (current s))) + n < 2 ^ 32"
  shows "(kill_pending (tasks (sched_ticks n s) ! nat (current s)) \<longleftrightarrow>
           unat (watchdog_limit s) \<le> unat (starved_ticks (tasks s ! nat (current s))) + n)
    \<and> (kill_pending (tasks (sched_ticks n s) ! nat (current s)) \<longrightarrow>
         st (fst (sched_yield b (sched_ticks n s))) (nat (current s)) = TASK_FINISHED)"
proof -
  define s1 where "s1 = sched_ticks n s"
  have t: "sched_inv s1" "cur_running s1" "current s1 = current s"
    "kill_pending (tasks s1 ! nat (current s)) \<longleftrightarrow>
        unat (watchdog_limit s) \<le> unat (starved_ticks (tasks s ! nat (current s))) + n"
    using ticks_starve [OF assms] by (simp_all add: s1_def)
  have "st (fst (sched_yield b s1)) (nat (current s1)) = TASK_FINISHED"
    if k: "kill_pending (tasks s1 ! nat (current s1))"
  proof (cases "run_queue s1")
    case Nil
    then show ?thesis
      using yield_killed_alone(1) [OF t(1,2) Nil k, of b] exit_parks(1) [OF t(1,2) Nil, of b] inv_current(2,3) [OF t(1)]
      by (simp add: sched_simps)
  next
    case (Cons m q)
    then have "st s1 m = TASK_READY" using in_run_queue [of m s1] by auto
    then have "m \<noteq> nat (current s1)" using running_not_ready [OF t(2)] by auto
    then show ?thesis
      using yield_kill_handed_over(1) [OF t(1,2) Cons k, of b] by (simp add: handed_over_def)
  qed
  then show ?thesis using t unfolding s1_def by simp
qed

theorem sched_watchdog_witness:
  "current demo_worker \<noteq> 0 \<and> watchdog_limit demo_worker = 600
   \<and> kill_pending (tasks (sched_ticks 600 demo_worker) ! 1)
   \<and> st (fst (sched_yield demo_build (sched_ticks 600 demo_worker))) 1 = TASK_FINISHED"
  using sched_watchdog [of demo_worker 600 demo_build] demo_worker_facts by simp

theorem sched_fair_witness:
  "sched_run demo_build demo_sched (replicate 15 Ev_yield)
     (fst (sched_exec demo_build demo_sched (replicate 15 Ev_yield)))
   \<and> (\<exists>k s1. sched_run demo_build demo_sched (take k (replicate 15 Ev_yield)) s1 \<and> current s1 = 1 \<and> st s1 1 = TASK_RUNNING)"
proof -
  have "run_ok demo_build demo_sched (replicate 15 Ev_yield)" by code_simp
  note run = run_okI [OF this]
  show ?thesis
    using run sched_fair [OF demo_sched_facts(1,2) _ demo_sched_facts(3) run] by force
qed

end
