(* ===== verification/Ipc.thy ===== *)
theory Ipc
  imports Prelude Uart
begin

text \<open>
  The message queues of \<^verbatim>\<open>src/kernel/ipc.c\<close>: eight queues of sixteen messages of at most 64 bytes.
  A pointer argument is an \<open>option\<close> (\<open>None\<close> is NULL); an operation returns the queue table and
  the C return value.  The theory shows that a queue is a bounded FIFO of truncated messages, that
  queues do not disturb each other, and that a recycled queue starts empty.
\<close>

section \<open>State\<close>

abbreviation IPC_MAX_QUEUES :: nat where
  "IPC_MAX_QUEUES \<equiv> 8"

abbreviation IPC_MAX_MSG :: u32 where
  "IPC_MAX_MSG \<equiv> 16"

abbreviation IPC_MSG_SIZE :: u32 where
  "IPC_MSG_SIZE \<equiv> 64"

abbreviation IPC_OK :: int where
  "IPC_OK \<equiv> 0"

abbreviation IPC_ERR_FULL :: int where
  "IPC_ERR_FULL \<equiv> -1"

abbreviation IPC_ERR_EMPTY :: int where
  "IPC_ERR_EMPTY \<equiv> -2"

abbreviation IPC_ERR_INVALID :: int where
  "IPC_ERR_INVALID \<equiv> -3"

text \<open>The words of a message's \<^verbatim>\<open>data\<close> array are only accessed as bytes.\<close>

record ipc_msg =
  mdata :: bytes
  mlen :: u32
  msender :: u32

record ipc_queue =
  qid :: u32
  qowner :: u32
  reader_count :: u32
  qin_use :: bool
  qring :: "ipc_msg list"
  qhead :: u32
  qtail :: u32
  qcount :: u32

type_synonym ipc = "ipc_queue list"

definition ipc_statics :: ipc where
  "ipc_statics = replicate IPC_MAX_QUEUES
     \<lparr>qid = 0, qowner = 0, reader_count = 0, qin_use = False,
      qring = replicate 16 \<lparr>mdata = replicate 64 0, mlen = 0, msender = 0\<rparr>,
      qhead = 0, qtail = 0, qcount = 0\<rparr>"

section \<open>Operations\<close>

definition ipc_init :: "ipc \<Rightarrow> ipc \<times> bytes" where
  "ipc_init qs =
     (map (\<lambda>q. q\<lparr>qin_use := False, qhead := 0, qtail := 0, qcount := 0\<rparr>) qs,
      uart_puts (str ''  IPC initialized (8 queues, 16 msgs each)''))"

definition ipc_create :: "u32 \<Rightarrow> ipc \<Rightarrow> ipc \<times> int" where
  "ipc_create owner qs =
     (case first_slot (\<lambda>q. \<not> qin_use q) qs of
        Some i \<Rightarrow>
          (qs[i := (qs ! i)\<lparr>qid := of_nat i, qowner := owner, reader_count := 0, qin_use := True,
                           qhead := 0, qtail := 0, qcount := 0\<rparr>], int i)
      | None \<Rightarrow> (qs, IPC_ERR_FULL))"

text \<open>The message written into the slot that held \<open>m\<close>.\<close>

definition fill_msg :: "ipc_msg \<Rightarrow> bytes option \<Rightarrow> u32 \<Rightarrow> u32 \<Rightarrow> ipc_msg" where
  "fill_msg m data len sender =
     (let copy_len = (if IPC_MSG_SIZE < len then IPC_MSG_SIZE else len);
          m1 = m\<lparr>mlen := copy_len, msender := sender\<rparr>
      in case data of
           Some src \<Rightarrow> (if 0 < copy_len then m1\<lparr>mdata := memcpy (mdata m1) 0 src 0 (unat copy_len)\<rparr>
                        else m1\<lparr>mlen := 0\<rparr>)
         | None \<Rightarrow> m1\<lparr>mlen := 0\<rparr>)"

definition ipc_send :: "int \<Rightarrow> bytes option \<Rightarrow> u32 \<Rightarrow> u32 \<Rightarrow> ipc \<Rightarrow> ipc \<times> int" where
  "ipc_send queue_id data len sender qs =
     (if queue_id < 0 \<or> int IPC_MAX_QUEUES \<le> queue_id then (qs, IPC_ERR_INVALID)
      else
        (let i = nat queue_id; q = qs ! i in
         if \<not> qin_use q then (qs, IPC_ERR_INVALID)
         else if IPC_MAX_MSG \<le> qcount q then (qs, IPC_ERR_FULL)
         else if data = None \<and> 0 < len then (qs, IPC_ERR_INVALID)
         else
           (let t = unat (qtail q);
                msg = fill_msg (qring q ! t) data len sender
            in (qs[i := q\<lparr>qring := (qring q)[t := msg], qtail := (qtail q + 1) mod IPC_MAX_MSG,
                          qcount := qcount q + 1\<rparr>], IPC_OK))))"

text \<open>
  \<^verbatim>\<open>ipc_recv\<close> also returns what it stored through the buffer, length and sender pointers.
\<close>

definition ipc_recv :: "int \<Rightarrow> bytes option \<Rightarrow> ipc \<Rightarrow> ipc \<times> int \<times> (bytes \<times> u32 \<times> u32) option" where
  "ipc_recv queue_id buf qs =
     (if queue_id < 0 \<or> int IPC_MAX_QUEUES \<le> queue_id then (qs, IPC_ERR_INVALID, None)
      else
        (case buf of
           None \<Rightarrow> (qs, IPC_ERR_INVALID, None)
         | Some dst \<Rightarrow>
             (let i = nat queue_id; q = qs ! i in
              if \<not> qin_use q then (qs, IPC_ERR_INVALID, None)
              else if qcount q = 0 then (qs, IPC_ERR_EMPTY, None)
              else
                (let msg = qring q ! unat (qhead q) in
                 (qs[i := q\<lparr>qhead := (qhead q + 1) mod IPC_MAX_MSG, qcount := qcount q - 1\<rparr>], IPC_OK,
                  Some (memcpy dst 0 (mdata msg) 0 (unat (mlen msg)), mlen msg, msender msg))))))"

definition ipc_destroy :: "int \<Rightarrow> ipc \<Rightarrow> ipc \<times> int" where
  "ipc_destroy queue_id qs =
     (if queue_id < 0 \<or> int IPC_MAX_QUEUES \<le> queue_id then (qs, IPC_ERR_INVALID)
      else if \<not> qin_use (qs ! nat queue_id) then (qs, IPC_ERR_INVALID)
      else (qs[nat queue_id := (qs ! nat queue_id)\<lparr>qin_use := False\<rparr>], IPC_OK))"

definition ipc_queue_count :: "ipc \<Rightarrow> nat" where
  "ipc_queue_count qs = count_slots qin_use qs"

definition ipc_report :: "ipc \<Rightarrow> bytes" where
  "ipc_report qs =
     uart_puts (str ''=== IPC Report ==='') @ uart_puts_nolf (str ''  Queues: '')
     @ uart_dec (of_nat (ipc_queue_count qs)) @ uart_puts_nolf (str ''/'')
     @ uart_dec (of_nat IPC_MAX_QUEUES) @ uart_puts []
     @ concat (map (\<lambda>i.
         if \<not> qin_use (qs ! i) then []
         else uart_puts_nolf (str ''  ['') @ uart_dec (of_nat i) @ uart_puts_nolf (str ''] msgs='')
              @ uart_dec (ucast (qcount (qs ! i))) @ uart_puts_nolf (str '' owner='')
              @ uart_dec (ucast (qowner (qs ! i))) @ uart_puts []) [0..<IPC_MAX_QUEUES])"

section \<open>Well-formed queues\<close>

definition msg_wf :: "ipc_msg \<Rightarrow> bool" where
  "msg_wf m \<longleftrightarrow> length (mdata m) = 64 \<and> mlen m \<le> IPC_MSG_SIZE"

definition queue_wf :: "ipc_queue \<Rightarrow> bool" where
  "queue_wf q \<longleftrightarrow> length (qring q) = 16 \<and> list_all msg_wf (qring q) \<and> qcount q \<le> IPC_MAX_MSG
     \<and> qhead q < IPC_MAX_MSG \<and> unat (qtail q) = (unat (qhead q) + unat (qcount q)) mod 16"

definition ipc_wf :: "ipc \<Rightarrow> bool" where
  "ipc_wf qs \<longleftrightarrow> length qs = IPC_MAX_QUEUES \<and> list_all queue_wf qs"

text \<open>What a receiver sees of a message, and the messages waiting in a queue, oldest first.\<close>

definition msg_view :: "ipc_msg \<Rightarrow> bytes \<times> u32" where
  "msg_view m = (take (unat (mlen m)) (mdata m), msender m)"

definition queue_view :: "ipc_queue \<Rightarrow> (bytes \<times> u32) list" where
  "queue_view q = map msg_view (ring_items (qring q) (unat (qhead q)) (unat (qcount q)))"

text \<open>What a queue keeps of a message: at most 64 bytes.\<close>

definition stored_msg :: "bytes \<times> u32 \<Rightarrow> bytes \<times> u32" where
  "stored_msg = (\<lambda>(d, sender). (take (min 64 (unat (of_nat (length d) :: u32))) d, sender))"

lemma copy_len: "unat (if IPC_MSG_SIZE < len then IPC_MSG_SIZE else len) = min 64 (unat len)"
  by (simp add: word_less_nat_alt min_def)

lemma fill_msg_wf:
  assumes "msg_wf m"
  shows "msg_wf (fill_msg m data len sender)"
  using assms
  by (auto simp: fill_msg_def msg_wf_def Let_def word_le_nat_alt word_less_nat_alt split: option.splits)

lemma fill_msg_view:
  assumes "msg_wf m" and "unat len \<le> length d"
  shows "msg_view (fill_msg m (Some d) len sender) = (take (min 64 (unat len)) d, sender)"
proof -
  have "memcpy (mdata m) 0 d 0 (min 64 (unat len)) = take (min 64 (unat len)) d @ drop (min 64 (unat len)) (mdata m)"
    using assms by (subst memcpy_eq) (auto simp: msg_wf_def)
  moreover have "length (take (min 64 (unat len)) d) = min 64 (unat len)" using assms(2) by simp
  ultimately show ?thesis
    using copy_len [of len] assms by (auto simp: fill_msg_def msg_view_def Let_def word_less_nat_alt word_neq_0_conv)
qed

lemma next_index: "i < 16 \<Longrightarrow> unat ((i + 1) mod (16 :: u32)) = Suc (unat i) mod 16"
  by (simp add: unat_mod unat_word_ariths word_less_nat_alt)

section \<open>One queue\<close>

definition queue_push :: "ipc_queue \<Rightarrow> ipc_msg \<Rightarrow> ipc_queue" where
  "queue_push q msg = q\<lparr>qring := (qring q)[unat (qtail q) := msg], qtail := (qtail q + 1) mod IPC_MAX_MSG,
     qcount := qcount q + 1\<rparr>"

definition queue_pop :: "ipc_queue \<Rightarrow> ipc_queue" where
  "queue_pop q = q\<lparr>qhead := (qhead q + 1) mod IPC_MAX_MSG, qcount := qcount q - 1\<rparr>"

lemma queue_push_ok:
  assumes q: "queue_wf q" and n: "qcount q < IPC_MAX_MSG" and m: "msg_wf msg"
  shows "queue_wf (queue_push q msg)" and "queue_view (queue_push q msg) = queue_view q @ [msg_view msg]"
proof -
  have u: "unat (qcount q + 1) = Suc (unat (qcount q))"
    using n by (intro unat_Suc_word) (simp add: word_less_nat_alt)
  have t: "unat (qtail q) = (unat (qhead q) + unat (qcount q)) mod 16" "unat (qtail q) < 16"
    using q by (simp_all add: queue_wf_def)
  then show "queue_wf (queue_push q msg)"
    using q n m u next_index [of "qtail q"]
    by (auto simp: queue_wf_def queue_push_def word_le_nat_alt word_less_nat_alt list_all_iff mod_Suc_eq
        dest!: set_update_subset_insert [THEN subsetD])
  show "queue_view (queue_push q msg) = queue_view q @ [msg_view msg]"
    using q n t(1) ring_items_put [of "unat (qcount q)" "qring q" "unat (qhead q)" msg]
    by (simp add: queue_view_def queue_push_def u queue_wf_def word_less_nat_alt)
qed

lemma queue_pop_ok:
  assumes q: "queue_wf q" and n: "qcount q \<noteq> 0"
  shows "queue_wf (queue_pop q)"
    and "queue_view q = msg_view (qring q ! unat (qhead q)) # queue_view (queue_pop q)"
proof -
  have c: "0 < unat (qcount q)" using n by (simp add: unat_gt_0)
  then have u: "unat (qcount q - 1) = unat (qcount q) - 1"
    by (simp add: unat_minus_one n)
  have h: "unat (qhead q) < 16" using q by (simp add: queue_wf_def word_less_nat_alt)
  have nx: "unat ((qhead q + 1) mod 16) = Suc (unat (qhead q)) mod 16"
    using q by (intro next_index) (simp add: queue_wf_def)
  have "Suc (unat (qhead q)) + (unat (qcount q) - 1) = unat (qhead q) + unat (qcount q)"
    using c by simp
  then have "(Suc (unat (qhead q)) mod 16 + (unat (qcount q) - 1)) mod 16 = (unat (qhead q) + unat (qcount q)) mod 16"
    by (metis mod_add_left_eq)
  then show "queue_wf (queue_pop q)"
    using q c u nx by (auto simp: queue_wf_def queue_pop_def word_le_nat_alt word_less_nat_alt)
  show "queue_view q = msg_view (qring q ! unat (qhead q)) # queue_view (queue_pop q)"
    using q c h ring_items_get [of "unat (qcount q)" "unat (qhead q)" "qring q"]
    by (simp add: queue_view_def queue_pop_def u nx queue_wf_def)
qed

lemma queue_view_length: "length (queue_view q) = unat (qcount q)"
  by (simp add: queue_view_def)

lemma send_eq:
  assumes "i < 8" "qin_use (qs ! i)" "qcount (qs ! i) < 16" "data = None \<longrightarrow> len = 0"
  shows "ipc_send (int i) data len sender qs =
    (qs[i := queue_push (qs ! i) (fill_msg (qring (qs ! i) ! unat (qtail (qs ! i))) data len sender)], IPC_OK)"
  using assms by (auto simp: ipc_send_def queue_push_def Let_def not_le word_gt_0)

lemma send_full: "i < 8 \<Longrightarrow> qin_use (qs ! i) \<Longrightarrow> 16 \<le> qcount (qs ! i) \<Longrightarrow>
    ipc_send (int i) data len sender qs = (qs, IPC_ERR_FULL)"
  by (simp add: ipc_send_def Let_def)

lemma recv_eq:
  assumes "i < 8" "qin_use (qs ! i)" "qcount (qs ! i) \<noteq> 0"
  shows "ipc_recv (int i) (Some dst) qs =
    (qs[i := queue_pop (qs ! i)], IPC_OK,
     let msg = qring (qs ! i) ! unat (qhead (qs ! i))
     in Some (memcpy dst 0 (mdata msg) 0 (unat (mlen msg)), mlen msg, msender msg))"
  using assms by (simp add: ipc_recv_def queue_pop_def Let_def)

lemma ipc_wf_nth: "ipc_wf qs \<Longrightarrow> i < 8 \<Longrightarrow> queue_wf (qs ! i) \<and> length qs = 8"
  by (simp add: ipc_wf_def list_all_length)

lemma ipc_wf_update: "ipc_wf qs \<Longrightarrow> queue_wf q \<Longrightarrow> ipc_wf (qs[i := q])"
  by (cases "i < length qs") (auto simp: ipc_wf_def list_all_iff dest!: set_update_subset_insert [THEN subsetD])

section \<open>Queues as FIFOs\<close>

text \<open>
  A client's view of queue \<open>i\<close>: sending a whole byte string and receiving into a 64-byte buffer.
\<close>

definition queue_put :: "nat \<Rightarrow> bytes \<times> u32 \<Rightarrow> ipc \<Rightarrow> ipc option" where
  "queue_put i = (\<lambda>(d, sender) qs.
     case ipc_send (int i) (Some d) (of_nat (length d)) sender qs of
       (qs', rc) \<Rightarrow> if rc = IPC_OK then Some qs' else None)"

definition queue_get :: "nat \<Rightarrow> ipc \<Rightarrow> ((bytes \<times> u32) \<times> ipc) option" where
  "queue_get i qs =
     (case ipc_recv (int i) (Some (replicate 64 0)) qs of
        (qs', rc, Some (buf, len, sender)) \<Rightarrow> Some ((take (unat len) buf, sender), qs')
      | (qs', rc, None) \<Rightarrow> None)"

definition ipc_open :: "nat \<Rightarrow> ipc \<Rightarrow> bool" where
  "ipc_open i qs \<longleftrightarrow> ipc_wf qs \<and> i < IPC_MAX_QUEUES \<and> qin_use (qs ! i)"

lemma unat_of_nat_le: "unat (of_nat n :: 'a::len word) \<le> n"
  by (simp add: unsigned_of_nat take_bit_nat_eq_self_iff)

lemma send_open:
  assumes o: "ipc_open i qs" and n: "qcount (qs ! i) < 16" and d: "unat len \<le> length d"
  shows "\<exists>q'. ipc_send (int i) (Some d) len sender qs = (qs[i := q'], IPC_OK) \<and> queue_wf q' \<and> qin_use q'
    \<and> queue_view q' = queue_view (qs ! i) @ [(take (min 64 (unat len)) d, sender)]"
proof -
  define q where "q = qs ! i"
  have w: "queue_wf q" "i < 8" "qin_use q" using o ipc_wf_nth by (auto simp: ipc_open_def q_def)
  have "unat (qtail q) < length (qring q)" using w(1) by (simp add: queue_wf_def)
  then have m: "msg_wf (qring q ! unat (qtail q))" using w(1) by (auto simp: queue_wf_def list_all_length)
  define msg where "msg = fill_msg (qring q ! unat (qtail q)) (Some d) len sender"
  have "msg_wf msg" using fill_msg_wf [OF m] by (simp add: msg_def)
  moreover have "msg_view msg = (take (min 64 (unat len)) d, sender)"
    using fill_msg_view [OF m d] by (simp add: msg_def)
  ultimately show ?thesis
    using queue_push_ok [OF w(1), of msg] send_eq [of i qs "Some d" len sender] n w
    by (auto simp: q_def [symmetric] msg_def [symmetric] queue_push_def)
qed

lemma recv_open:
  assumes o: "ipc_open i qs" and n: "qcount (qs ! i) \<noteq> 0" and b: "64 \<le> length dst"
  shows "\<exists>q' buf len sender. ipc_recv (int i) (Some dst) qs = (qs[i := q'], IPC_OK, Some (buf, len, sender))
    \<and> queue_wf q' \<and> qin_use q' \<and> length buf = length dst
    \<and> queue_view (qs ! i) = (take (unat len) buf, sender) # queue_view q'"
proof -
  define q where "q = qs ! i"
  have w: "queue_wf q" "i < 8" "qin_use q" using o ipc_wf_nth by (auto simp: ipc_open_def q_def)
  define msg where "msg = qring q ! unat (qhead q)"
  have "unat (qhead q) < length (qring q)" using w(1) by (simp add: queue_wf_def word_less_nat_alt)
  then have m: "length (mdata msg) = 64" "unat (mlen msg) \<le> 64"
    using w(1) by (auto simp: queue_wf_def list_all_length msg_wf_def msg_def word_le_nat_alt)
  then have "memcpy dst 0 (mdata msg) 0 (unat (mlen msg)) = take (unat (mlen msg)) (mdata msg) @ drop (unat (mlen msg)) dst"
    using b by (subst memcpy_eq) auto
  then show ?thesis
    using queue_pop_ok [OF w(1)] recv_eq [of i qs dst] n w m b
    by (auto simp: q_def [symmetric] msg_def [symmetric] queue_pop_def msg_view_def)
qed

interpretation ipc_fifo: bounded_fifo "queue_put i" "queue_get i" stored_msg "\<lambda>qs. queue_view (qs ! i)" 16 "ipc_open i"
  for i
proof
  fix qs and x :: "bytes \<times> u32"
  assume o: "ipc_open i qs"
  obtain d sender where x: "x = (d, sender)" by (cases x)
  have w: "queue_wf (qs ! i)" "i < 8" "length qs = 8" "qin_use (qs ! i)"
    using o ipc_wf_nth [of qs i] by (auto simp: ipc_open_def)
  note send = send_open [OF o, of "of_nat (length d)" d sender, OF _ unat_of_nat_le]
  show "queue_put i x qs = None \<longleftrightarrow> length (queue_view (qs ! i)) = 16"
  proof (cases "qcount (qs ! i) < 16")
    case True
    with send show ?thesis by (auto simp: queue_put_def x queue_view_length word_less_nat_alt)
  next
    case False
    then have "unat (qcount (qs ! i)) = 16"
      using w(1) by (simp add: queue_wf_def word_less_nat_alt word_le_nat_alt)
    with False w send_full [of i qs] show ?thesis
      by (simp add: queue_put_def x queue_view_length not_less)
  qed
  show "queue_view (qs' ! i) = queue_view (qs ! i) @ [stored_msg x] \<and> ipc_open i qs'"
    if "queue_put i x qs = Some qs'" for qs'
  proof -
    have "qcount (qs ! i) < 16"
    proof (rule ccontr)
      assume "\<not> qcount (qs ! i) < 16"
      then show False using that send_full [of i qs] w by (simp add: queue_put_def x not_less)
    qed
    with send that w o show ?thesis
      by (auto simp: queue_put_def x stored_msg_def ipc_open_def ipc_wf_update)
  qed
next
  fix qs
  assume o: "ipc_open i qs"
  have w: "i < 8" "length qs = 8" "qin_use (qs ! i)"
    using o ipc_wf_nth [of qs i] by (auto simp: ipc_open_def)
  note recv = recv_open [OF o, of "replicate 64 0"]
  show "queue_get i qs = None \<longleftrightarrow> queue_view (qs ! i) = []"
  proof (cases "qcount (qs ! i) = 0")
    case True
    with w show ?thesis
      using queue_view_length [of "qs ! i"] by (simp add: queue_get_def ipc_recv_def)
  next
    case False
    with recv show ?thesis by (auto simp: queue_get_def)
  qed
  show "queue_view (qs ! i) = y # queue_view (qs' ! i) \<and> ipc_open i qs'"
    if "queue_get i qs = Some (y, qs')" for y qs'
  proof -
    have "qcount (qs ! i) \<noteq> 0" using that w by (auto simp: queue_get_def ipc_recv_def)
    with recv that w o show ?thesis
      by (auto simp: queue_get_def ipc_open_def ipc_wf_update)
  qed
qed

section \<open>All queues\<close>

datatype ipc_event =
    Ipc_create u32
  | Ipc_send int "bytes option" u32 u32
  | Ipc_recv int "bytes option"
  | Ipc_destroy int

fun ipc_call :: "ipc \<Rightarrow> ipc_event \<Rightarrow> ipc" where
  "ipc_call qs (Ipc_create owner) = fst (ipc_create owner qs)"
| "ipc_call qs (Ipc_send i data len sender) = fst (ipc_send i data len sender qs)"
| "ipc_call qs (Ipc_recv i buf) = fst (ipc_recv i buf qs)"
| "ipc_call qs (Ipc_destroy i) = fst (ipc_destroy i qs)"

lemma push_msg_wf:
  assumes "queue_wf q" "qcount q < 16"
  shows "queue_wf (queue_push q (fill_msg (qring q ! unat (qtail q)) data len sender))"
proof -
  have "unat (qtail q) < length (qring q)" using assms(1) by (simp add: queue_wf_def)
  then have "msg_wf (qring q ! unat (qtail q))" using assms(1) by (auto simp: queue_wf_def list_all_length)
  then show ?thesis using queue_push_ok(1) [OF assms fill_msg_wf] by blast
qed

lemma send_cases:
  assumes "ipc_wf qs"
  obtains "fst (ipc_send i data len sender qs) = qs"
  | k q where "k < 8" "i = int k" "queue_wf q" "fst (ipc_send i data len sender qs) = qs[k := q]"
proof (cases "snd (ipc_send i data len sender qs) = IPC_OK")
  case True
  then have c: "0 \<le> i" "nat i < 8" "qin_use (qs ! nat i)" "qcount (qs ! nat i) < 16" "data = None \<longrightarrow> len = 0"
    by (auto simp: ipc_send_def Let_def not_le word_gt_0 split: if_splits)
  with send_eq [of "nat i" qs data len sender] push_msg_wf [of "qs ! nat i"] ipc_wf_nth [OF assms]
  show thesis by (intro that(2) [of "nat i"]) auto
next
  case False
  then have "fst (ipc_send i data len sender qs) = qs"
    by (auto simp: ipc_send_def Let_def split: if_splits)
  then show thesis by (rule that(1))
qed

lemma recv_cases:
  assumes "ipc_wf qs"
  obtains "fst (ipc_recv i buf qs) = qs"
  | k q where "k < 8" "i = int k" "queue_wf q" "fst (ipc_recv i buf qs) = qs[k := q]"
proof (cases "fst (snd (ipc_recv i buf qs)) = IPC_OK")
  case True
  then obtain dst where c: "0 \<le> i" "nat i < 8" "qin_use (qs ! nat i)" "qcount (qs ! nat i) \<noteq> 0" "buf = Some dst"
    by (auto simp: ipc_recv_def Let_def split: if_splits option.splits)
  with recv_eq [of "nat i" qs dst] queue_pop_ok(1) [of "qs ! nat i"] ipc_wf_nth [OF assms]
  show thesis by (intro that(2) [of "nat i"]) auto
next
  case False
  then have "fst (ipc_recv i buf qs) = qs"
    by (auto simp: ipc_recv_def Let_def split: if_splits option.splits)
  then show thesis by (rule that(1))
qed

lemma ipc_call_wf:
  assumes w: "ipc_wf qs"
  shows "ipc_wf (ipc_call qs e)"
proof (cases e)
  case (Ipc_create owner)
  with w show ?thesis
    by (auto simp: ipc_create_def first_slot_Some ipc_wf_def list_all_length queue_wf_def nth_list_update
        split: option.splits)
next
  case (Ipc_send i data len sender)
  then show ?thesis
    using w by (cases rule: send_cases [OF w, of i data len sender]) (auto intro: ipc_wf_update)
next
  case (Ipc_recv i buf)
  then show ?thesis
    using w by (cases rule: recv_cases [OF w, of i buf]) (auto intro: ipc_wf_update)
next
  case (Ipc_destroy i)
  moreover have "queue_wf (q\<lparr>qin_use := False\<rparr>) = queue_wf q" for q by (simp add: queue_wf_def)
  ultimately show ?thesis
    using w ipc_wf_nth [OF w] by (auto simp: ipc_destroy_def intro!: ipc_wf_update)
qed

interpretation ipc_sys: event_system ipc_call ipc_wf
  by unfold_locales (rule ipc_call_wf)

lemma init_wf: "ipc_wf (fst (ipc_init ipc_statics))"
  by (simp add: ipc_wf_def ipc_init_def ipc_statics_def queue_wf_def msg_wf_def list_all_iff)

text \<open>The queue an event names.\<close>

fun event_queue :: "ipc_event \<Rightarrow> int option" where
  "event_queue (Ipc_create owner) = None"
| "event_queue (Ipc_send i data len sender) = Some i"
| "event_queue (Ipc_recv i buf) = Some i"
| "event_queue (Ipc_destroy i) = Some i"

section \<open>Properties\<close>

lemma send_status:
  assumes "ipc_open i qs"
  shows "length (queue_view (qs ! i)) = 16 \<Longrightarrow> ipc_send (int i) (Some d) len sender qs = (qs, IPC_ERR_FULL)"
    and "length (queue_view (qs ! i)) < 16 \<Longrightarrow> snd (ipc_send (int i) (Some d) len sender qs) = IPC_OK"
  using assms send_full [of i qs "Some d" len sender] send_eq [of i qs "Some d" len sender]
  by (simp_all add: ipc_open_def queue_view_length word_less_nat_alt word_le_nat_alt)

lemma recv_status:
  assumes "ipc_open i qs" "queue_view (qs ! i) = []"
  shows "ipc_recv (int i) (Some dst) qs = (qs, IPC_ERR_EMPTY, None)"
  using assms queue_view_length [of "qs ! i"] by (simp add: ipc_open_def ipc_recv_def unat_eq_0)

text \<open>
  C11. A queue is a FIFO bounded by 16 messages: on an open queue with \<open>k\<close> messages waiting, up to \<open>16 - k\<close>
  sends all succeed; the next send is refused as full, leaving the queue table as it is, when 16 messages are then waiting, and
  accepted when fewer are; as many receives as there are messages then return the waiting ones and the sent ones, in
  order, each with its sender and truncated to 64 bytes; and the next receive is refused as empty.
\<close>

theorem ipc_fifo_order:
  assumes "ipc_open i qs" and "length (queue_view (qs ! i)) + length ms \<le> 16"
  shows "\<exists>qs1 qs2. put_all (queue_put i) ms qs = Some qs1
    \<and> (length (queue_view (qs ! i)) + length ms = 16 \<longrightarrow>
         (\<forall>d len sender. ipc_send (int i) (Some d) len sender qs1 = (qs1, IPC_ERR_FULL)))
    \<and> (length (queue_view (qs ! i)) + length ms < 16 \<longrightarrow>
         (\<forall>d len sender. snd (ipc_send (int i) (Some d) len sender qs1) = IPC_OK))
    \<and> get_n (queue_get i) (length (queue_view (qs ! i)) + length ms) qs1
      = Some (queue_view (qs ! i) @ map stored_msg ms, qs2)
    \<and> ipc_open i qs2 \<and> queue_view (qs2 ! i) = []
    \<and> (\<forall>dst. ipc_recv (int i) (Some dst) qs2 = (qs2, IPC_ERR_EMPTY, None))"
proof -
  obtain qs1 where q1: "put_all (queue_put i) ms qs = Some qs1" "ipc_open i qs1"
      "queue_view (qs1 ! i) = queue_view (qs ! i) @ map stored_msg ms"
    using ipc_fifo.put_all_items [OF assms] by blast
  moreover obtain qs2 where "get_n (queue_get i) (length (queue_view (qs ! i)) + length ms) qs1
      = Some (queue_view (qs ! i) @ map stored_msg ms, qs2)" "ipc_open i qs2" "queue_view (qs2 ! i) = []"
    using ipc_fifo.get_n_items [OF q1(2), of "length (queue_view (qs ! i)) + length ms"] q1(3) by auto
  ultimately show ?thesis using send_status [OF q1(2)] recv_status [of i qs2] q1(3) by auto
qed

definition demo_ipc :: ipc where
  "demo_ipc = fst (ipc_create 7 (fst (ipc_init ipc_statics)))"

lemma demo_ipc_open: "ipc_open 0 demo_ipc" "queue_view (demo_ipc ! 0) = []"
proof -
  have "ipc_wf demo_ipc" using ipc_call_wf [OF init_wf, of "Ipc_create 7"] by (simp add: demo_ipc_def)
  moreover have "qin_use (demo_ipc ! 0)" "queue_view (demo_ipc ! 0) = []" by code_simp+
  ultimately show "ipc_open 0 demo_ipc" "queue_view (demo_ipc ! 0) = []" by (auto simp: ipc_open_def)
qed

theorem ipc_fifo_order_witness:
  "\<exists>qs1 qs2. put_all (queue_put 0) [(str ''ping'', 3), (str ''pong'', 4)] demo_ipc = Some qs1
    \<and> get_n (queue_get 0) 2 qs1 = Some ([(str ''ping'', 3), (str ''pong'', 4)], qs2)"
proof -
  have m: "map stored_msg [(str ''ping'', 3), (str ''pong'', 4)] = [(str ''ping'', 3), (str ''pong'', 4)]"
    by code_simp
  obtain qs1 qs2 where "put_all (queue_put 0) [(str ''ping'', 3), (str ''pong'', 4)] demo_ipc = Some qs1"
      "get_n (queue_get 0) 2 qs1 = Some ([(str ''ping'', 3), (str ''pong'', 4)], qs2)"
    using ipc_fifo_order [OF demo_ipc_open(1), of "[(str ''ping'', 3), (str ''pong'', 4)]"]
    unfolding m demo_ipc_open(2) by (auto simp del: put_all.simps get_n.simps simp: numeral_2_eq_2)
  then show ?thesis by blast
qed

text \<open>
  C31. Isolation and recycling: in every state reached from \<^verbatim>\<open>ipc_init\<close> by any sequence of calls all
  ring indices and lengths are in range; a call on one queue leaves the others as they were; and a
  queue handed out by \<^verbatim>\<open>ipc_create\<close> was free, belongs to its creator and holds no message, so
  nothing sent before its previous owner destroyed it can be received.
\<close>

theorem ipc_isolation:
  assumes "qs = foldl ipc_call (fst (ipc_init ipc_statics)) es"
  shows "ipc_wf qs
    \<and> (\<forall>e j. event_queue e \<noteq> None \<and> event_queue e \<noteq> Some (int j) \<longrightarrow> ipc_call qs e ! j = qs ! j)
    \<and> (\<forall>owner qs' r. ipc_create owner qs = (qs', r) \<and> 0 \<le> r \<longrightarrow>
         \<not> qin_use (qs ! nat r) \<and> ipc_open (nat r) qs' \<and> qowner (qs' ! nat r) = owner
         \<and> queue_view (qs' ! nat r) = [] \<and> (\<forall>j. j \<noteq> nat r \<longrightarrow> qs' ! j = qs ! j))"
proof (intro conjI allI impI)
  show w: "ipc_wf qs" using ipc_sys.run_inv [OF init_wf] assms by blast
  show "ipc_call qs e ! j = qs ! j"
    if "event_queue e \<noteq> None \<and> event_queue e \<noteq> Some (int j)" for e j
  proof (cases e)
    case (Ipc_send i data len sender)
    with that show ?thesis by (cases rule: send_cases [OF w, of i data len sender]) auto
  next
    case (Ipc_recv i buf)
    with that show ?thesis by (cases rule: recv_cases [OF w, of i buf]) auto
  next
    case (Ipc_destroy i)
    with that show ?thesis by (auto simp: ipc_destroy_def)
  qed (use that in simp)
  fix owner qs' r
  assume c: "ipc_create owner qs = (qs', r) \<and> 0 \<le> r"
  then obtain i where f: "first_slot (\<lambda>q. \<not> qin_use q) qs = Some i"
    by (cases "first_slot (\<lambda>q. \<not> qin_use q) qs") (force simp: ipc_create_def, simp)
  then have i: "i < length qs" "\<not> qin_use (qs ! i)" by (simp_all add: first_slot_Some)
  moreover have e: "r = int i" "qs' = qs[i := (qs ! i)\<lparr>qid := of_nat i, qowner := owner, reader_count := 0,
      qin_use := True, qhead := 0, qtail := 0, qcount := 0\<rparr>]"
    using c f by (simp_all add: ipc_create_def)
  moreover have "ipc_wf qs'" using ipc_call_wf [OF w, of "Ipc_create owner"] c by simp
  ultimately show "\<not> qin_use (qs ! nat r)" "ipc_open (nat r) qs'" "qowner (qs' ! nat r) = owner"
    "queue_view (qs' ! nat r) = []"
    using w by (simp_all add: ipc_open_def ipc_wf_def queue_view_def)
  show "qs' ! j = qs ! j" if "j \<noteq> nat r" for j using that e by simp
qed

theorem ipc_isolation_witness:
  "\<not> qin_use (fst (ipc_init ipc_statics) ! 0) \<and> queue_view (demo_ipc ! 0) = [] \<and> qowner (demo_ipc ! 0) = 7"
proof -
  have "ipc_create 7 (fst (ipc_init ipc_statics)) = (demo_ipc, 0)" by code_simp
  then show ?thesis
    using ipc_isolation [OF foldl.simps(1) [symmetric], THEN conjunct2, THEN conjunct2, rule_format, of 7 demo_ipc 0]
    by simp
qed

end
