(* ===== verification/Pmm.thy ===== *)
theory Pmm
  imports Prelude
begin

text \<open>
  The physical page allocator of \<^verbatim>\<open>src/boot/aarch64/pmm.c\<close>: a bitmap over the 32768 frames of the
  128 MB RAM (a set bit is a used frame) and a count of free frames.  Addresses are \<^typ>\<open>64 word\<close>,
  frame numbers \<^typ>\<open>nat\<close>; address 0 is the failure value of the allocating calls.  The interface
  the address-space and process code relies on is the locale \<open>page_allocator\<close>, interpreted here
  on the bitmap.
\<close>

section \<open>Memory map\<close>

abbreviation PAGE_SHIFT :: nat where
  "PAGE_SHIFT \<equiv> 12"

abbreviation PAGE_SIZE :: u64 where
  "PAGE_SIZE \<equiv> 4096"

abbreviation KERNEL_BASE :: u64 where
  "KERNEL_BASE \<equiv> 0x40080000"

abbreviation RAM_START :: u64 where
  "RAM_START \<equiv> 0x40000000"

abbreviation RAM_SIZE :: u64 where
  "RAM_SIZE \<equiv> 0x8000000"

abbreviation RAM_END :: u64 where
  "RAM_END \<equiv> RAM_START + RAM_SIZE"

text \<open>\<^verbatim>\<open>RAM_SIZE / PAGE_SIZE\<close> and \<^verbatim>\<open>BITMAP_SIZE\<close>.\<close>

abbreviation FRAMES :: nat where
  "FRAMES \<equiv> 32768"

definition page_align_up :: "u64 \<Rightarrow> u64" where
  "page_align_up a = (a + PAGE_SIZE - 1) AND NOT (PAGE_SIZE - 1)"

definition page_align_down :: "u64 \<Rightarrow> u64" where
  "page_align_down a = a AND NOT (PAGE_SIZE - 1)"

definition phys_to_frame :: "u64 \<Rightarrow> u64" where
  "phys_to_frame a = drop_bit PAGE_SHIFT (a - RAM_START)"

definition frame_to_phys :: "nat \<Rightarrow> u64" where
  "frame_to_phys f = push_bit PAGE_SHIFT (of_nat f) + RAM_START"

section \<open>State and bitmap access\<close>

record pmm =
  pmm_bitmap :: bytes
  pmm_total_pages :: u64
  pmm_free_count :: u64

definition pmm_statics :: pmm where
  "pmm_statics = \<lparr>pmm_bitmap = replicate 4096 0, pmm_total_pages = 0, pmm_free_count = 0\<rparr>"

definition pmm_test_bit :: "bytes \<Rightarrow> nat \<Rightarrow> bool" where
  "pmm_test_bit bm f = bit (bm ! (f div 8)) (f mod 8)"

definition pmm_set_bit :: "bytes \<Rightarrow> nat \<Rightarrow> bytes" where
  "pmm_set_bit bm f = bm[f div 8 := (bm ! (f div 8)) OR push_bit (f mod 8) 1]"

definition pmm_clear_bit :: "bytes \<Rightarrow> nat \<Rightarrow> bytes" where
  "pmm_clear_bit bm f = bm[f div 8 := (bm ! (f div 8)) AND NOT (push_bit (f mod 8) 1)]"

section \<open>Operations\<close>

definition pmm_clear_frame :: "pmm \<Rightarrow> nat \<Rightarrow> pmm" where
  "pmm_clear_frame s f =
     s\<lparr>pmm_bitmap := pmm_clear_bit (pmm_bitmap s) f, pmm_free_count := pmm_free_count s + 1\<rparr>"

definition pmm_init :: "pmm \<Rightarrow> pmm" where
  "pmm_init s =
     (let s1 = s\<lparr>pmm_bitmap := map (\<lambda>_. 0xFF) (pmm_bitmap s), pmm_total_pages := RAM_SIZE div PAGE_SIZE,
                 pmm_free_count := 0\<rparr>;
          reserve_end = page_align_up (KERNEL_BASE + 18 * 1024 * 1024);
          start = unat (phys_to_frame reserve_end);
          end_frame = unat (phys_to_frame RAM_END)
      in foldl pmm_clear_frame s1 [start..<end_frame])"

definition pmm_alloc_page :: "pmm \<Rightarrow> pmm \<times> u64" where
  "pmm_alloc_page s =
     (if pmm_free_count s = 0 then (s, 0)
      else
        (case find (\<lambda>f. \<not> pmm_test_bit (pmm_bitmap s) f) [0..<FRAMES] of
           Some f \<Rightarrow> (s\<lparr>pmm_bitmap := pmm_set_bit (pmm_bitmap s) f,
                       pmm_free_count := pmm_free_count s - 1\<rparr>, frame_to_phys f)
         | None \<Rightarrow> (s, 0)))"

definition pmm_alloc_pages :: "u64 \<Rightarrow> pmm \<Rightarrow> pmm \<times> u64" where
  "pmm_alloc_pages count s =
     (if count = 0 \<or> pmm_free_count s < count then (s, 0)
      else
        (let total = RAM_SIZE div PAGE_SIZE in
         case find (\<lambda>f. list_all (\<lambda>i. \<not> pmm_test_bit (pmm_bitmap s) (f + i)) [0..<unat count])
                [0..<Suc (unat (total - count))] of
           Some f \<Rightarrow> (s\<lparr>pmm_bitmap := foldl (\<lambda>bm i. pmm_set_bit bm (f + i)) (pmm_bitmap s) [0..<unat count],
                       pmm_free_count := pmm_free_count s - count\<rparr>, frame_to_phys f)
         | None \<Rightarrow> (s, 0)))"

definition pmm_free_page :: "u64 \<Rightarrow> pmm \<Rightarrow> pmm" where
  "pmm_free_page addr s =
     (let f = phys_to_frame addr in
      if f < RAM_SIZE div PAGE_SIZE \<and> pmm_test_bit (pmm_bitmap s) (unat f)
      then pmm_clear_frame s (unat f)
      else s)"

definition pmm_free_pages :: "u64 \<Rightarrow> u64 \<Rightarrow> pmm \<Rightarrow> pmm" where
  "pmm_free_pages addr count s =
     foldl (\<lambda>s i. pmm_free_page (addr + of_nat i * PAGE_SIZE) s) s [0..<unat count]"

definition pmm_get_total_pages :: "pmm \<Rightarrow> u64" where
  "pmm_get_total_pages s = pmm_total_pages s"

definition pmm_get_free_pages :: "pmm \<Rightarrow> u64" where
  "pmm_get_free_pages s = pmm_free_count s"

section \<open>The bitmap as a set of frames\<close>

text \<open>The frame range is too long to be enumerated by the simplifier.\<close>

declare upt_rec_numeral [simp del]

lemma find_upt_None: "find P [0..<n] = None \<longleftrightarrow> (\<forall>f<n. \<not> P f)"
  by (auto simp: find_None_iff)

lemma find_upt_Some: "find P [0..<n] = Some f \<longleftrightarrow> f < n \<and> P f \<and> (\<forall>g<f. \<not> P g)"
  by (auto simp: find_Some_iff)

definition free_frames :: "bytes \<Rightarrow> nat set" where
  "free_frames bm = {f. f < FRAMES \<and> \<not> pmm_test_bit bm f}"

definition pmm_inv :: "pmm \<Rightarrow> bool" where
  "pmm_inv s \<longleftrightarrow> length (pmm_bitmap s) = 4096
     \<and> unat (pmm_free_count s) = card (free_frames (pmm_bitmap s))"

lemma length_set_clear [simp]:
  "length (pmm_set_bit bm f) = length bm" "length (pmm_clear_bit bm f) = length bm"
  by (simp_all add: pmm_set_bit_def pmm_clear_bit_def)

lemma frame_index: "f div 8 = g div 8 \<Longrightarrow> f mod 8 = g mod 8 \<Longrightarrow> f = (g :: nat)"
  by (metis mult_div_mod_eq)

lemma bit_or_one: "k < 8 \<Longrightarrow> bit ((w :: u8) OR 2 ^ k) j \<longleftrightarrow> j = k \<or> bit w j"
  by (auto simp: bit_simps)

lemma bit_and_not_one: "j < 8 \<Longrightarrow> bit ((w :: u8) AND NOT (2 ^ k)) j \<longleftrightarrow> j \<noteq> k \<and> bit w j"
  by (auto simp: bit_simps)

lemma test_set_bit:
  assumes "length bm = 4096" "f < FRAMES"
  shows "pmm_test_bit (pmm_set_bit bm f) g \<longleftrightarrow> g = f \<or> pmm_test_bit bm g"
proof (cases "g div 8 = f div 8")
  case True
  have "f div 8 < 4096" using assms(2) by simp
  then have "pmm_test_bit (pmm_set_bit bm f) g \<longleftrightarrow> g mod 8 = f mod 8 \<or> pmm_test_bit bm g"
    unfolding pmm_test_bit_def pmm_set_bit_def True by (simp add: assms(1) bit_or_one)
  then show ?thesis using frame_index [OF True] by auto
next
  case False
  then show ?thesis by (auto simp: pmm_test_bit_def pmm_set_bit_def)
qed

lemma test_clear_bit:
  assumes "length bm = 4096" "f < FRAMES"
  shows "pmm_test_bit (pmm_clear_bit bm f) g \<longleftrightarrow> g \<noteq> f \<and> pmm_test_bit bm g"
proof (cases "g div 8 = f div 8")
  case True
  have "f div 8 < 4096" using assms(2) by simp
  then have "pmm_test_bit (pmm_clear_bit bm f) g \<longleftrightarrow> g mod 8 \<noteq> f mod 8 \<and> pmm_test_bit bm g"
    unfolding pmm_test_bit_def pmm_clear_bit_def True by (simp add: assms(1) bit_and_not_one)
  then show ?thesis using frame_index [OF True] by auto
next
  case False
  then show ?thesis by (auto simp: pmm_test_bit_def pmm_clear_bit_def)
qed

lemma free_set: "length bm = 4096 \<Longrightarrow> f < FRAMES \<Longrightarrow> free_frames (pmm_set_bit bm f) = free_frames bm - {f}"
  by (auto simp: free_frames_def test_set_bit)

lemma free_clear: "length bm = 4096 \<Longrightarrow> f < FRAMES \<Longrightarrow> free_frames (pmm_clear_bit bm f) = insert f (free_frames bm)"
  by (auto simp: free_frames_def test_clear_bit)

lemma free_finite [simp]: "finite (free_frames bm)"
  by (simp add: free_frames_def)

lemma free_card: "card (free_frames bm) \<le> FRAMES"
proof -
  have "free_frames bm \<subseteq> {..<FRAMES}" by (auto simp: free_frames_def)
  then show ?thesis using card_mono [of "{..<FRAMES}"] by simp
qed

section \<open>Addresses\<close>

lemma unat_frame: "f < FRAMES \<Longrightarrow> unat (of_nat f :: u64) = f"
  by (simp add: unsigned_of_nat take_bit_nat_eq_self)

lemma frame_to_phys_unat: "f < FRAMES \<Longrightarrow> unat (frame_to_phys f) = 0x40000000 + 4096 * f"
  by (simp add: frame_to_phys_def push_bit_eq_mult unat_word_ariths unat_frame)

lemma frame_to_phys_nz: "f < FRAMES \<Longrightarrow> frame_to_phys f \<noteq> 0"
  using frame_to_phys_unat [of f] by auto

lemma phys_to_frame_unat: "unat (phys_to_frame a) = unat (a - RAM_START) div 4096"
  by (simp add: phys_to_frame_def drop_bit_eq_div unat_div)

lemma phys_frame: "f < FRAMES \<Longrightarrow> unat (phys_to_frame (frame_to_phys f)) = f"
  by (simp add: phys_to_frame_unat frame_to_phys_def push_bit_eq_mult unat_word_ariths unat_frame)

section \<open>What the operations do\<close>

lemma clear_frame_inv:
  assumes inv: "pmm_inv s" and f: "f < FRAMES" "f \<notin> free_frames (pmm_bitmap s)"
  shows "pmm_inv (pmm_clear_frame s f)"
    and "free_frames (pmm_bitmap (pmm_clear_frame s f)) = insert f (free_frames (pmm_bitmap s))"
proof -
  let ?F = "free_frames (pmm_bitmap s)"
  have l: "length (pmm_bitmap s) = 4096" and c: "unat (pmm_free_count s) = card ?F"
    using inv by (simp_all add: pmm_inv_def)
  show e: "free_frames (pmm_bitmap (pmm_clear_frame s f)) = insert f ?F"
    by (simp add: pmm_clear_frame_def free_clear [OF l f(1)])
  have "unat (pmm_free_count s + 1) = Suc (card ?F)"
    using free_card [of "pmm_bitmap s"] c by (subst unat_Suc_word) auto
  then show "pmm_inv (pmm_clear_frame s f)"
    using f(2) l e by (simp add: pmm_inv_def pmm_clear_frame_def)
qed

lemma total_clear_frame [simp]: "pmm_total_pages (pmm_clear_frame s f) = pmm_total_pages s"
  by (simp add: pmm_clear_frame_def)

lemma clear_range:
  assumes "pmm_inv s" "b \<le> FRAMES" "\<forall>f\<in>{a..<b}. f \<notin> free_frames (pmm_bitmap s)"
  shows "pmm_inv (foldl pmm_clear_frame s [a..<b])
    \<and> free_frames (pmm_bitmap (foldl pmm_clear_frame s [a..<b])) = free_frames (pmm_bitmap s) \<union> {a..<b}
    \<and> pmm_total_pages (foldl pmm_clear_frame s [a..<b]) = pmm_total_pages s"
  using assms(2,3)
proof (induction b)
  case (Suc b)
  show ?case
  proof (cases "a \<le> b")
    case True
    let ?s = "foldl pmm_clear_frame s [a..<b]"
    have IH: "pmm_inv ?s" "free_frames (pmm_bitmap ?s) = free_frames (pmm_bitmap s) \<union> {a..<b}"
      "pmm_total_pages ?s = pmm_total_pages s"
      using Suc True by auto
    have "b \<notin> free_frames (pmm_bitmap ?s)" using Suc.prems True IH(2) by auto
    with clear_frame_inv [OF IH(1), of b] IH(2,3) Suc.prems True show ?thesis
      by (auto simp: atLeastLessThanSuc)
  qed (use assms(1) in auto)
qed (use assms(1) in simp)

lemma pmm_init_free:
  assumes "length (pmm_bitmap s) = 4096"
  shows "pmm_inv (pmm_init s)" "free_frames (pmm_bitmap (pmm_init s)) = {0x1280..<FRAMES}"
    "pmm_total_pages (pmm_init s) = 32768"
proof -
  define s1 where "s1 = s\<lparr>pmm_bitmap := map (\<lambda>_. 0xFF) (pmm_bitmap s), pmm_total_pages := RAM_SIZE div PAGE_SIZE,
    pmm_free_count := 0\<rparr>"
  have "bit (0xFF :: u8) k" if "k < 8" for k
  proof -
    have m: "(0xFF :: u8) = mask 8" by (simp add: mask_eq_exp_minus_1)
    show ?thesis unfolding m bit_mask_iff using that by simp
  qed
  then have e: "free_frames (pmm_bitmap s1) = {}"
    using assms by (auto simp: free_frames_def s1_def pmm_test_bit_def)
  then have "pmm_inv s1" using assms by (simp add: pmm_inv_def s1_def)
  moreover have "unat (phys_to_frame (page_align_up (KERNEL_BASE + 18 * 1024 * 1024))) = 0x1280"
    by (simp add: phys_to_frame_def page_align_up_def drop_bit_eq_div)
  moreover have "unat (phys_to_frame RAM_END) = FRAMES"
    by (simp add: phys_to_frame_def drop_bit_eq_div)
  ultimately have "pmm_init s = foldl pmm_clear_frame s1 [0x1280..<FRAMES]"
    by (simp only: pmm_init_def Let_def s1_def)
  with clear_range [OF \<open>pmm_inv s1\<close>, of FRAMES "0x1280"] e
  show "pmm_inv (pmm_init s)" "free_frames (pmm_bitmap (pmm_init s)) = {0x1280..<FRAMES}"
    "pmm_total_pages (pmm_init s) = 32768"
    by (simp_all add: s1_def)
qed


text \<open>The bits set for a run of frames.\<close>

lemma set_run:
  assumes "length bm = 4096" "f + n \<le> FRAMES"
  shows "length (foldl (\<lambda>bm i. pmm_set_bit bm (f + i)) bm [0..<n]) = 4096
    \<and> free_frames (foldl (\<lambda>bm i. pmm_set_bit bm (f + i)) bm [0..<n]) = free_frames bm - {f..<f + n}"
  using assms(2)
proof (induction n)
  case (Suc n)
  let ?bm = "foldl (\<lambda>bm i. pmm_set_bit bm (f + i)) bm [0..<n]"
  have IH: "length ?bm = 4096" "free_frames ?bm = free_frames bm - {f..<f + n}" using Suc by auto
  have "free_frames (pmm_set_bit ?bm (f + n)) = free_frames ?bm - {f + n}"
    using IH(1) Suc.prems by (intro free_set) auto
  then show ?case using IH by (auto simp: atLeastLessThanSuc)
qed (use assms(1) in simp)

lemma alloc_page_spec:
  assumes inv: "pmm_inv s"
  shows "(free_frames (pmm_bitmap s) = {} \<and> pmm_alloc_page s = (s, 0))
    \<or> (\<exists>f s'. pmm_alloc_page s = (s', frame_to_phys f) \<and> f \<in> free_frames (pmm_bitmap s)
        \<and> (\<forall>g\<in>free_frames (pmm_bitmap s). f \<le> g) \<and> pmm_inv s'
        \<and> free_frames (pmm_bitmap s') = free_frames (pmm_bitmap s) - {f})"
proof (cases "free_frames (pmm_bitmap s) = {}")
  case True
  then have "pmm_free_count s = 0" using inv by (simp add: pmm_inv_def unat_eq_0)
  then show ?thesis using True by (simp add: pmm_alloc_page_def)
next
  case False
  let ?bm = "pmm_bitmap s"
  have l: "length ?bm = 4096" and c: "unat (pmm_free_count s) = card (free_frames ?bm)"
    using inv by (simp_all add: pmm_inv_def)
  then have nz: "pmm_free_count s \<noteq> 0" using False by (auto simp: card_eq_0_iff)
  obtain f where f: "find (\<lambda>f. \<not> pmm_test_bit ?bm f) [0..<FRAMES] = Some f"
    using False by (cases "find (\<lambda>f. \<not> pmm_test_bit ?bm f) [0..<FRAMES]")
      (auto simp: find_upt_None free_frames_def)
  then have m: "f \<in> free_frames ?bm" "\<forall>g\<in>free_frames ?bm. f \<le> g"
    by (auto simp: find_upt_Some free_frames_def not_le [symmetric])
  then have fr: "f < FRAMES" by (simp add: free_frames_def)
  define s' where "s' = s\<lparr>pmm_bitmap := pmm_set_bit ?bm f, pmm_free_count := pmm_free_count s - 1\<rparr>"
  have e: "free_frames (pmm_bitmap s') = free_frames ?bm - {f}" by (simp add: s'_def free_set [OF l fr])
  have "unat (pmm_free_count s - 1) = unat (pmm_free_count s) - 1" using nz by (simp add: unat_minus_one)
  then have "pmm_inv s'" using l c e m(1) by (simp add: pmm_inv_def s'_def)
  moreover have "pmm_alloc_page s = (s', frame_to_phys f)" using nz f by (simp add: pmm_alloc_page_def s'_def)
  ultimately show ?thesis using m e by blast
qed

lemma free_page_spec:
  assumes inv: "pmm_inv s" and f: "f < FRAMES"
  shows "pmm_inv (pmm_free_page (frame_to_phys f) s)
    \<and> free_frames (pmm_bitmap (pmm_free_page (frame_to_phys f) s)) = insert f (free_frames (pmm_bitmap s))"
proof -
  have "phys_to_frame (frame_to_phys f) < RAM_SIZE div PAGE_SIZE"
    using phys_frame [OF f] f by (simp add: word_less_nat_alt)
  then have e: "pmm_free_page (frame_to_phys f) s
      = (if f \<in> free_frames (pmm_bitmap s) then s else pmm_clear_frame s f)"
    using f by (simp add: pmm_free_page_def phys_frame free_frames_def)
  show ?thesis
    using clear_frame_inv [OF inv f] inv unfolding e by auto
qed

lemma alloc_pages_spec:
  assumes inv: "pmm_inv s" and n: "0 < unat count"
  shows "(\<exists>f s'. pmm_alloc_pages count s = (s', frame_to_phys f) \<and> f + unat count \<le> FRAMES
        \<and> {f..<f + unat count} \<subseteq> free_frames (pmm_bitmap s) \<and> pmm_inv s'
        \<and> free_frames (pmm_bitmap s') = free_frames (pmm_bitmap s) - {f..<f + unat count})
    \<or> pmm_alloc_pages count s = (s, 0) \<and> (\<forall>f. f + unat count \<le> FRAMES \<longrightarrow> \<not> {f..<f + unat count} \<subseteq> free_frames (pmm_bitmap s))"
proof (cases "pmm_free_count s < count")
  case True
  have "\<not> {f..<f + unat count} \<subseteq> free_frames (pmm_bitmap s)" for f
    using True inv card_mono [of "free_frames (pmm_bitmap s)" "{f..<f + unat count}"]
    by (auto simp: pmm_inv_def word_less_nat_alt)
  with True show ?thesis by (simp add: pmm_alloc_pages_def)
next
  case False
  let ?bm = "pmm_bitmap s" and ?n = "unat count"
  have l: "length ?bm = 4096" and c: "unat (pmm_free_count s) = card (free_frames ?bm)"
    using inv by (simp_all add: pmm_inv_def)
  have le: "?n \<le> card (free_frames ?bm)" using False c by (simp add: word_less_nat_alt)
  with free_card [of ?bm] have nF: "?n \<le> FRAMES" by linarith
  then have t: "unat (RAM_SIZE div PAGE_SIZE - count) = FRAMES - ?n"
    by (subst unat_sub) (simp_all add: word_le_nat_alt)
  define ok where "ok f = list_all (\<lambda>i. \<not> pmm_test_bit ?bm (f + i)) [0..<?n]" for f
  have ok: "ok f \<longleftrightarrow> {f..<f + ?n} \<subseteq> free_frames ?bm" if "f + ?n \<le> FRAMES" for f
  proof -
    have "ok f \<longleftrightarrow> (\<forall>g\<in>{f..<f + ?n}. \<not> pmm_test_bit ?bm g)"
      unfolding ok_def list_all_iff by (auto simp: nat_le_iff_add less_diff_conv2)
    then show ?thesis using that by (auto simp: free_frames_def)
  qed
  have eq: "pmm_alloc_pages count s =
      (case find ok [0..<Suc (FRAMES - ?n)] of
         Some f \<Rightarrow> (s\<lparr>pmm_bitmap := foldl (\<lambda>bm i. pmm_set_bit bm (f + i)) ?bm [0..<?n],
                     pmm_free_count := pmm_free_count s - count\<rparr>, frame_to_phys f)
       | None \<Rightarrow> (s, 0))"
    using False n unfolding pmm_alloc_pages_def t Let_def ok_def by auto
  show ?thesis
  proof (cases "find ok [0..<Suc (FRAMES - ?n)]")
    case None
    then have "\<not> ok f" if "f + ?n \<le> FRAMES" for f
      using that unfolding find_upt_None by auto
    then show ?thesis using None eq ok by (simp del: upt_Suc)
  next
    case (Some f)
    then have f: "f + ?n \<le> FRAMES" "ok f" using nF unfolding find_upt_Some by auto
    define s' where "s' = s\<lparr>pmm_bitmap := foldl (\<lambda>bm i. pmm_set_bit bm (f + i)) ?bm [0..<?n],
      pmm_free_count := pmm_free_count s - count\<rparr>"
    have fr: "{f..<f + ?n} \<subseteq> free_frames ?bm" using ok f by blast
    have e: "free_frames (pmm_bitmap s') = free_frames ?bm - {f..<f + ?n}" "length (pmm_bitmap s') = 4096"
      using set_run [OF l f(1)] by (simp_all add: s'_def)
    have "unat (pmm_free_count s - count) = unat (pmm_free_count s) - ?n"
      using False by (intro unat_sub) simp
    then have "pmm_inv s'"
      using c e fr by (simp add: pmm_inv_def s'_def card_Diff_subset)
    moreover have "pmm_alloc_pages count s = (s', frame_to_phys f)"
      using Some eq by (simp add: s'_def del: upt_Suc)
    ultimately show ?thesis using f(1) fr e(1) by blast
  qed
qed

lemma frame_add: "frame_to_phys f + of_nat i * PAGE_SIZE = frame_to_phys (f + i)"
  by (simp add: frame_to_phys_def push_bit_eq_mult algebra_simps)

lemma free_pages_spec:
  assumes "pmm_inv s" "f + unat count \<le> FRAMES"
  shows "pmm_inv (pmm_free_pages (frame_to_phys f) count s)
    \<and> free_frames (pmm_bitmap (pmm_free_pages (frame_to_phys f) count s))
      = free_frames (pmm_bitmap s) \<union> {f..<f + unat count}"
proof -
  have "n \<le> unat count \<Longrightarrow> pmm_inv (foldl (\<lambda>s i. pmm_free_page (frame_to_phys (f + i)) s) s [0..<n])
    \<and> free_frames (pmm_bitmap (foldl (\<lambda>s i. pmm_free_page (frame_to_phys (f + i)) s) s [0..<n]))
      = free_frames (pmm_bitmap s) \<union> {f..<f + n}" for n
  proof (induction n)
    case (Suc n)
    then show ?case
      using free_page_spec [of "foldl (\<lambda>s i. pmm_free_page (frame_to_phys (f + i)) s) s [0..<n]" "f + n"] assms(2)
      by (auto simp: atLeastLessThanSuc)
  qed (use assms in simp)
  then show ?thesis by (simp add: pmm_free_pages_def frame_add)
qed

section \<open>The allocator interface\<close>

definition is_page :: "u64 \<Rightarrow> bool" where
  "is_page p \<longleftrightarrow> (\<exists>f<FRAMES. p = frame_to_phys f)"

definition free_page_set :: "pmm \<Rightarrow> u64 set" where
  "free_page_set s = frame_to_phys ` free_frames (pmm_bitmap s)"

lemma frame_to_phys_inj:
  assumes "f < FRAMES" "g < FRAMES" "frame_to_phys f = frame_to_phys g"
  shows "f = g"
  using frame_to_phys_unat [OF assms(1)] frame_to_phys_unat [OF assms(2)] unfolding assms(3) by linarith

lemma free_page_set_Diff:
  assumes "f < FRAMES"
  shows "frame_to_phys ` (free_frames bm - {f}) = frame_to_phys ` free_frames bm - {frame_to_phys f}"
proof -
  have "inj_on frame_to_phys {f. f < FRAMES}" by (intro inj_onI frame_to_phys_inj) simp_all
  then have "frame_to_phys ` (free_frames bm - {f}) = frame_to_phys ` free_frames bm - frame_to_phys ` {f}"
    using assms by (intro inj_on_image_set_diff) (auto simp: free_frames_def)
  then show ?thesis by simp
qed

lemma alloc_page_none: "pmm_inv s \<Longrightarrow> free_page_set s = {} \<Longrightarrow> pmm_alloc_page s = (s, 0)"
  using alloc_page_spec [of s] by (auto simp: free_page_set_def)

lemma alloc_page_some:
  assumes "pmm_inv s" and "free_page_set s \<noteq> {}"
  shows "\<exists>s' p. pmm_alloc_page s = (s', p) \<and> p \<in> free_page_set s \<and> pmm_inv s'
    \<and> free_page_set s' = free_page_set s - {p}"
proof -
  have "free_frames (pmm_bitmap s) \<noteq> {}" using assms(2) by (simp add: free_page_set_def)
  then obtain f s' where f: "pmm_alloc_page s = (s', frame_to_phys f)" "f \<in> free_frames (pmm_bitmap s)" "pmm_inv s'"
      "free_frames (pmm_bitmap s') = free_frames (pmm_bitmap s) - {f}"
    using alloc_page_spec [OF assms(1)] by blast
  moreover have "f < FRAMES" using f(2) by (simp add: free_frames_def)
  ultimately show ?thesis
    unfolding free_page_set_def using free_page_set_Diff [of f "pmm_bitmap s"] by (intro exI [of _ s'] exI [of _ "frame_to_phys f"]) simp
qed

interpretation pmm_pages: page_allocator pmm_alloc_page pmm_free_page pmm_inv free_page_set is_page
proof
  show "pmm_alloc_page s = (s, 0)" if "pmm_inv s" "free_page_set s = {}" for s
    using that by (rule alloc_page_none)
  show "\<exists>s' p. pmm_alloc_page s = (s', p) \<and> p \<in> free_page_set s \<and> pmm_inv s' \<and> free_page_set s' = free_page_set s - {p}"
    if "pmm_inv s" "free_page_set s \<noteq> {}" for s
    using that by (rule alloc_page_some)
  show "is_page p" if "pmm_inv s" "p \<in> free_page_set s" for s p
    using that(2) by (auto simp: free_page_set_def is_page_def free_frames_def)
  show "p \<noteq> 0" if "is_page p" for p
    using that frame_to_phys_nz by (auto simp: is_page_def)
  show "pmm_inv (pmm_free_page p s) \<and> free_page_set (pmm_free_page p s) = insert p (free_page_set s)"
    if "pmm_inv s" "is_page p" for s p
    using free_page_spec [OF that(1)] that(2) unfolding is_page_def free_page_set_def by auto
  show "finite (free_page_set s)" if "pmm_inv s" for s by (simp add: free_page_set_def)
qed

section \<open>Runs of calls\<close>

datatype pmm_event =
    Pmm_alloc
  | Pmm_alloc_n u64
  | Pmm_free u64
  | Pmm_free_n u64 u64

fun pmm_call :: "pmm \<Rightarrow> pmm_event \<Rightarrow> pmm" where
  "pmm_call s Pmm_alloc = fst (pmm_alloc_page s)"
| "pmm_call s (Pmm_alloc_n n) = fst (pmm_alloc_pages n s)"
| "pmm_call s (Pmm_free a) = pmm_free_page a s"
| "pmm_call s (Pmm_free_n a n) = pmm_free_pages a n s"

lemma free_page_inv: "pmm_inv s \<Longrightarrow> pmm_inv (pmm_free_page a s)"
  using clear_frame_inv(1) [of s "unat (phys_to_frame a)"]
  by (auto simp: pmm_free_page_def Let_def free_frames_def word_less_nat_alt)

lemma free_pages_inv: "pmm_inv s \<Longrightarrow> pmm_inv (pmm_free_pages a n s)"
proof -
  have "pmm_inv s \<Longrightarrow> pmm_inv (foldl (\<lambda>s i. pmm_free_page (a + of_nat i * PAGE_SIZE) s) s is)" for s "is"
    by (induction "is" arbitrary: s) (auto intro: free_page_inv)
  then show "pmm_inv s \<Longrightarrow> pmm_inv (pmm_free_pages a n s)" by (simp add: pmm_free_pages_def)
qed

lemma pmm_call_inv: "pmm_inv s \<Longrightarrow> pmm_inv (pmm_call s e)"
proof (cases e)
  case Pmm_alloc
  assume "pmm_inv s"
  then show ?thesis using alloc_page_spec [of s] Pmm_alloc by auto
next
  case (Pmm_alloc_n n)
  assume "pmm_inv s"
  then show ?thesis
    using alloc_pages_spec [of s n] Pmm_alloc_n
    by (cases "unat n = 0") (auto simp: pmm_alloc_pages_def unat_eq_0)
qed (auto intro: free_page_inv free_pages_inv)

interpretation pmm_sys: event_system pmm_call pmm_inv
  by unfold_locales (rule pmm_call_inv)

declare upt_rec_numeral [simp]

section \<open>Properties\<close>

text \<open>
  C7. After \<^verbatim>\<open>pmm_init\<close> and any sequence of allocations and frees, the free count is the number of
  free frames; \<^verbatim>\<open>pmm_alloc_page\<close> fails only when no frame is free and otherwise returns the
  page-aligned RAM address of the lowest free frame and takes exactly that frame, so a page that is
  allocated is never handed out again before it is freed.
\<close>

theorem pmm_alloc_page_correct:
  assumes "length (pmm_bitmap s0) = 4096" and "s = foldl pmm_call (pmm_init s0) es"
    and "pmm_alloc_page s = (s', p)"
  shows "unat (pmm_get_free_pages s) = card (free_frames (pmm_bitmap s))
    \<and> (if free_frames (pmm_bitmap s) = {} then s' = s \<and> p = 0
       else \<exists>f. f \<in> free_frames (pmm_bitmap s) \<and> (\<forall>g. g \<in> free_frames (pmm_bitmap s) \<longrightarrow> f \<le> g)
         \<and> f < FRAMES \<and> unat p = 0x40000000 + 4096 * f
         \<and> free_frames (pmm_bitmap s') = free_frames (pmm_bitmap s) - {f})"
proof -
  let ?F = "free_frames (pmm_bitmap s)"
  have inv: "pmm_inv s"
    using pmm_sys.run_inv [OF pmm_init_free(1) [OF assms(1)]] assms(2) by blast
  then have c: "unat (pmm_get_free_pages s) = card ?F" by (simp add: pmm_inv_def pmm_get_free_pages_def)
  show ?thesis
  proof (cases "?F = {}")
    case True
    then have "pmm_alloc_page s = (s, 0)" using alloc_page_spec [OF inv] by blast
    then show ?thesis using True c assms(3) by simp
  next
    case False
    then obtain f t where f: "pmm_alloc_page s = (t, frame_to_phys f)" "f \<in> ?F" "\<forall>g\<in>?F. f \<le> g"
        "free_frames (pmm_bitmap t) = ?F - {f}"
      using alloc_page_spec [OF inv] by blast
    have "f < FRAMES" using f(2) by (simp add: free_frames_def)
    moreover have "s' = t" "p = frame_to_phys f" using f(1) assms(3) by simp_all
    ultimately show ?thesis using False c f(2-4) frame_to_phys_unat [of f] by auto
  qed
qed

text \<open>
  C32. \<^verbatim>\<open>pmm_alloc_pages\<close> finds a run of \<open>count\<close> contiguous free frames whenever there is one, takes
  exactly that run, and \<^verbatim>\<open>pmm_free_pages\<close> on its result gives it back.
\<close>

theorem pmm_alloc_pages_correct:
  assumes "pmm_inv s" and "0 < unat count" and "pmm_alloc_pages count s = (s', p)"
  shows "(p = 0 \<longleftrightarrow> (\<forall>f. f + unat count \<le> FRAMES \<longrightarrow> \<not> {f..<f + unat count} \<subseteq> free_frames (pmm_bitmap s)))
    \<and> (p \<noteq> 0 \<longrightarrow> (\<exists>f. p = frame_to_phys f \<and> {f..<f + unat count} \<subseteq> free_frames (pmm_bitmap s)
         \<and> free_frames (pmm_bitmap s') = free_frames (pmm_bitmap s) - {f..<f + unat count}
         \<and> free_frames (pmm_bitmap (pmm_free_pages p count s')) = free_frames (pmm_bitmap s)))"
  using alloc_pages_spec [OF assms(1,2)]
proof (elim disjE exE conjE)
  fix f t
  assume a: "pmm_alloc_pages count s = (t, frame_to_phys f)" "f + unat count \<le> FRAMES"
    "{f..<f + unat count} \<subseteq> free_frames (pmm_bitmap s)" "pmm_inv t"
    "free_frames (pmm_bitmap t) = free_frames (pmm_bitmap s) - {f..<f + unat count}"
  then have e: "t = s'" "p = frame_to_phys f" using assms(3) by simp_all
  have "p \<noteq> 0" using frame_to_phys_nz [of f] a(2) assms(2) e by simp
  then show ?thesis
    using a e free_pages_spec [OF a(4,2)] by blast
next
  assume "pmm_alloc_pages count s = (s, 0)"
    "\<forall>f. f + unat count \<le> FRAMES \<longrightarrow> \<not> {f..<f + unat count} \<subseteq> free_frames (pmm_bitmap s)"
  then show ?thesis using assms(3) by simp
qed

lemma pmm_boot_free: "pmm_inv (pmm_init pmm_statics)" "free_frames (pmm_bitmap (pmm_init pmm_statics)) = {0x1280..<FRAMES}"
  using pmm_init_free [of pmm_statics] by (simp_all add: pmm_statics_def)

theorem pmm_alloc_page_correct_witness:
  "free_frames (pmm_bitmap (pmm_init pmm_statics)) = {0x1280..<FRAMES}
   \<and> unat (snd (pmm_alloc_page (pmm_init pmm_statics))) = 0x41280000"
proof -
  obtain s' p where a: "pmm_alloc_page (pmm_init pmm_statics) = (s', p)"
    by (cases "pmm_alloc_page (pmm_init pmm_statics)")
  have "length (pmm_bitmap pmm_statics) = 4096" by (simp add: pmm_statics_def)
  from pmm_alloc_page_correct [OF this foldl.simps(1) [symmetric] a]
  obtain f where f: "f \<in> {0x1280..<FRAMES}" "\<forall>g. g \<in> {0x1280..<FRAMES} \<longrightarrow> f \<le> g" "unat p = 0x40000000 + 4096 * f"
    unfolding pmm_boot_free(2) by auto
  have "f \<le> 0x1280" using f(2) [rule_format, of "0x1280"] by simp
  then have "f = 0x1280" using f(1) by simp
  then show ?thesis using f(3) a pmm_boot_free(2) by simp
qed

theorem pmm_alloc_pages_correct_witness:
  "\<exists>f s' p. pmm_alloc_pages 1024 (pmm_init pmm_statics) = (s', p) \<and> p = frame_to_phys f
     \<and> free_frames (pmm_bitmap s') = {0x1280..<FRAMES} - {f..<f + 1024}
     \<and> free_frames (pmm_bitmap (pmm_free_pages p 1024 s')) = {0x1280..<FRAMES}"
proof -
  obtain s' p where a: "pmm_alloc_pages 1024 (pmm_init pmm_statics) = (s', p)"
    by (cases "pmm_alloc_pages 1024 (pmm_init pmm_statics)")
  note c = pmm_alloc_pages_correct [OF pmm_boot_free(1) _ a, unfolded pmm_boot_free(2)]
  have "{5000..<5000 + 1024} \<subseteq> {0x1280..<FRAMES}" by auto
  then have "p \<noteq> 0" using c by (auto intro!: exI [of _ 5000])
  then show ?thesis using c a by auto
qed

end
