(* ===== verification/Heap.thy ===== *)
theory Heap
  imports Pmm
begin

text \<open>
  The bump allocator of \<^verbatim>\<open>src/boot/aarch64/heap.c\<close>.  Sizes and addresses are \<^typ>\<open>64 word\<close> with
  the wrap-around of the C code; a NULL result is 0.
\<close>

abbreviation HEAP_START :: u64 where
  "HEAP_START \<equiv> KERNEL_BASE + 16 * 1024 * 1024"

abbreviation HEAP_SIZE :: u64 where
  "HEAP_SIZE \<equiv> 16 * 1024 * 1024"

abbreviation HEAP_END :: u64 where
  "HEAP_END \<equiv> HEAP_START + HEAP_SIZE"

record heap =
  heap_ptr :: u64
  heap_used :: u64

text \<open>The state after \<^verbatim>\<open>heap_init\<close> and the arguments of its \<^verbatim>\<open>memset\<close>.\<close>

definition heap_init :: "heap \<Rightarrow> heap \<times> (u64 \<times> int \<times> u64)" where
  "heap_init h = (h\<lparr>heap_ptr := HEAP_START, heap_used := 0\<rparr>, (HEAP_START, 0, HEAP_SIZE))"

definition kmalloc :: "u64 \<Rightarrow> heap \<Rightarrow> heap \<times> u64" where
  "kmalloc sz h =
     (if sz = 0 then (h, 0)
      else
        (let szr = (sz + 7) AND NOT 7 in
         if HEAP_END < heap_ptr h + szr then (h, 0)
         else (h\<lparr>heap_ptr := heap_ptr h + szr, heap_used := heap_used h + szr\<rparr>, heap_ptr h)))"

definition kmalloc_aligned :: "u64 \<Rightarrow> u64 \<Rightarrow> heap \<Rightarrow> heap \<times> u64" where
  "kmalloc_aligned sz align h =
     (if sz = 0 \<or> align = 0 \<or> align AND (align - 1) \<noteq> 0 then (h, 0)
      else kmalloc sz (h\<lparr>heap_ptr := (heap_ptr h + align - 1) AND NOT (align - 1)\<rparr>))"

definition kfree :: "u64 \<Rightarrow> heap \<Rightarrow> heap" where
  "kfree p h = h"

definition heap_get_used :: "heap \<Rightarrow> u64" where
  "heap_get_used h = heap_used h"

definition heap_get_free :: "heap \<Rightarrow> u64" where
  "heap_get_free h = HEAP_END - heap_ptr h"

definition heap_get_capacity :: u64 where
  "heap_get_capacity = HEAP_SIZE"

section \<open>Blocks of ordinary size\<close>

definition heap_inv :: "heap \<Rightarrow> bool" where
  "heap_inv h \<longleftrightarrow> unat HEAP_START \<le> unat (heap_ptr h) \<and> unat (heap_ptr h) \<le> unat HEAP_END
     \<and> 8 dvd unat (heap_ptr h)
     \<and> unat (heap_used h) = unat (heap_ptr h) - unat HEAP_START"

lemma and_not_7: "unat ((x :: u64) AND NOT 7) = 8 * (unat x div 8)"
proof -
  have m: "(7 :: u64) = mask 3" by (simp add: mask_eq_exp_minus_1)
  have "x AND NOT 7 = push_bit 3 (drop_bit 3 x)"
    unfolding m by (rule bit_word_eqI) (auto simp: bit_simps bit_mask_iff)
  then have "x AND NOT 7 = (x div 8) * 8" by (simp add: push_bit_eq_mult drop_bit_eq_div)
  moreover have "unat x div 8 * 8 < 2 ^ 64"
    using unsigned_less [of x, where ?'a = nat] by (simp add: div_times_less_eq_dividend le_less_trans)
  ultimately show ?thesis by (simp add: unat_word_ariths unat_div)
qed

lemma kmalloc_spec:
  assumes inv: "heap_inv h" and sz: "0 < unat sz" "unat sz \<le> 2 ^ 62" and k: "kmalloc sz h = (h', p)"
  shows "(p = 0 \<and> h' = h \<and> unat HEAP_END < unat (heap_ptr h) + 8 * ((unat sz + 7) div 8))
    \<or> (p = heap_ptr h \<and> p \<noteq> 0 \<and> heap_inv h'
        \<and> unat (heap_ptr h') = unat p + 8 * ((unat sz + 7) div 8))"
proof -
  define r where "r = (sz + 7) AND NOT 7"
  have ur: "unat r = 8 * ((unat sz + 7) div 8)"
    unfolding r_def and_not_7 using sz(2) by (simp add: unat_word_ariths)
  have "unat r \<le> unat sz + 7" using ur by simp
  then have rb: "unat r \<le> 2 ^ 62 + 7" using sz(2) by linarith
  have pb: "unat (heap_ptr h) \<le> 0x42080000" "0x41080000 \<le> unat (heap_ptr h)"
    using inv by (simp_all add: heap_inv_def)
  have s: "unat (heap_ptr h + r) = unat (heap_ptr h) + unat r"
    using pb rb by (simp add: unat_word_ariths)
  have nz: "sz \<noteq> 0" using sz(1) by auto
  show ?thesis
  proof (cases "HEAP_END < heap_ptr h + r")
    case True
    then have "h' = h" "p = 0" using k nz by (simp_all add: kmalloc_def r_def Let_def)
    with True s ur show ?thesis by (simp add: word_less_nat_alt)
  next
    case False
    then have e: "h' = h\<lparr>heap_ptr := heap_ptr h + r, heap_used := heap_used h + r\<rparr>" "p = heap_ptr h"
      using k nz by (auto simp: kmalloc_def r_def Let_def)
    have le: "unat (heap_ptr h) + unat r \<le> 0x42080000" using False s by (simp add: word_less_nat_alt)
    have "unat (heap_used h + r) = unat (heap_used h) + unat r"
      using le pb inv by (simp add: unat_word_ariths heap_inv_def)
    moreover have "p \<noteq> 0" using pb e(2) by auto
    ultimately show ?thesis
      using inv e s ur le pb by (simp add: heap_inv_def)
  qed
qed

text \<open>A sequence of requests, and the blocks it got: address and requested size of each success.\<close>

fun kmalloc_all :: "u64 list \<Rightarrow> heap \<Rightarrow> heap \<times> (u64 \<times> u64) list" where
  "kmalloc_all [] h = (h, [])"
| "kmalloc_all (sz # szs) h =
     (let (h1, p) = kmalloc sz h; (h2, bs) = kmalloc_all szs h1
      in (h2, if p = 0 then bs else (p, sz) # bs))"

definition heap_block :: "nat \<Rightarrow> u64 \<times> u64 \<Rightarrow> bool" where
  "heap_block lo = (\<lambda>(p, sz). lo \<le> unat p \<and> unat p + unat sz \<le> unat HEAP_END \<and> 8 dvd unat p)"

lemma kmalloc_all_spec:
  "heap_inv h \<Longrightarrow> list_all (\<lambda>sz. 0 < unat sz \<and> unat sz \<le> 2 ^ 62) szs \<Longrightarrow> kmalloc_all szs h = (h', bs) \<Longrightarrow>
     heap_inv h' \<and> list_all (heap_block (unat (heap_ptr h))) bs
     \<and> sorted_wrt (\<lambda>(p, sz) (q, _). unat p + unat sz \<le> unat q) bs"
proof (induction szs arbitrary: h h' bs)
  case (Cons sz szs)
  obtain h1 p where k: "kmalloc sz h = (h1, p)" by (cases "kmalloc sz h")
  obtain h2 cs where r: "kmalloc_all szs h1 = (h2, cs)" by (cases "kmalloc_all szs h1")
  have e: "h' = h2" "bs = (if p = 0 then cs else (p, sz) # cs)" using Cons.prems(3) k r by simp_all
  have z: "0 < unat sz" "unat sz \<le> 2 ^ 62" and zs: "list_all (\<lambda>sz. 0 < unat sz \<and> unat sz \<le> 2 ^ 62) szs"
    using Cons.prems(2) by simp_all
  from kmalloc_spec [OF Cons.prems(1) z k] show ?case
  proof (elim disjE conjE)
    assume "p = 0" "h1 = h"
    then show ?thesis using Cons.IH [OF _ zs r] Cons.prems(1) e by simp
  next
    assume a: "p = heap_ptr h" "p \<noteq> 0" "heap_inv h1" "unat (heap_ptr h1) = unat p + 8 * ((unat sz + 7) div 8)"
    have IH: "heap_inv h2" "list_all (heap_block (unat (heap_ptr h1))) cs"
      "sorted_wrt (\<lambda>(p, sz) (q, _). unat p + unat sz \<le> unat q) cs"
      using Cons.IH [OF a(3) zs r] by blast+
    have le: "unat p + unat sz \<le> unat (heap_ptr h1)" using a(4) by linarith
    have "heap_block (unat (heap_ptr h)) (p, sz)"
      using a(1,3) le Cons.prems(1) by (simp add: heap_block_def heap_inv_def)
    moreover have "list_all (heap_block (unat (heap_ptr h))) cs"
      using IH(2) le a(1) by (auto simp: list_all_iff heap_block_def)
    moreover have "\<forall>b\<in>set cs. unat p + unat sz \<le> unat (fst b)"
      using IH(2) le by (auto simp: list_all_iff heap_block_def)
    ultimately show ?thesis using IH a(2) e by auto
  qed
qed simp

lemma heap_init_inv: "heap_inv (fst (heap_init h))"
  by (simp add: heap_init_def heap_inv_def)

section \<open>Properties\<close>

text \<open>
  C34. The blocks of any sequence of \<^verbatim>\<open>kmalloc\<close> calls after \<^verbatim>\<open>heap_init\<close> with sizes up to \<open>2^62\<close> lie
  inside the 16 MB heap, are 8-byte aligned and pairwise disjoint in allocation order; the used
  counter is the distance the heap pointer has moved.
\<close>

theorem heap_blocks_disjoint:
  assumes "list_all (\<lambda>sz. 0 < unat sz \<and> unat sz \<le> 2 ^ 62) szs"
    and "kmalloc_all szs (fst (heap_init h)) = (h', bs)"
  shows "list_all (heap_block (unat HEAP_START)) bs
    \<and> sorted_wrt (\<lambda>(p, sz) (q, _). unat p + unat sz \<le> unat q) bs
    \<and> unat (heap_get_used h') = unat (heap_ptr h') - unat HEAP_START
    \<and> unat (heap_get_used h') + unat (heap_get_free h') = unat heap_get_capacity"
proof -
  have i: "heap_inv h'" "list_all (heap_block (unat (heap_ptr (fst (heap_init h))))) bs"
    "sorted_wrt (\<lambda>(p, sz) (q, _). unat p + unat sz \<le> unat q) bs"
    using kmalloc_all_spec [OF heap_init_inv assms] by blast+
  have "heap_ptr (fst (heap_init h)) = HEAP_START" by (simp add: heap_init_def)
  moreover have "unat (HEAP_END - heap_ptr h') = unat HEAP_END - unat (heap_ptr h')"
    using i(1) by (intro unat_sub) (simp add: heap_inv_def word_le_nat_alt)
  ultimately show ?thesis
    using i unfolding heap_inv_def heap_get_used_def heap_get_free_def heap_get_capacity_def by simp
qed

theorem heap_blocks_disjoint_witness:
  "snd (kmalloc_all [100, 24] (fst (heap_init \<lparr>heap_ptr = 0, heap_used = 0\<rparr>)))
     = [(0x41080000, 100), (0x41080068, 24)]
   \<and> sorted_wrt (\<lambda>(p, sz) (q, _). unat p + unat sz \<le> unat q) [(0x41080000 :: u64, 100 :: u64), (0x41080068, 24 :: u64)]"
proof -
  have e: "snd (kmalloc_all [100, 24] (fst (heap_init \<lparr>heap_ptr = 0, heap_used = 0\<rparr>)))
     = [(0x41080000, 100), (0x41080068, 24)]"
    by (simp add: heap_init_def kmalloc_def)
  have "kmalloc_all [100, 24] (fst (heap_init \<lparr>heap_ptr = 0, heap_used = 0\<rparr>))
    = (fst (kmalloc_all [100, 24] (fst (heap_init \<lparr>heap_ptr = 0, heap_used = 0\<rparr>))), [(0x41080000, 100), (0x41080068, 24)])"
    using e by (metis prod.collapse)
  from heap_blocks_disjoint [OF _ this] e show ?thesis by simp
qed

text \<open>
  Where the size arithmetic breaks: a request of \<open>2^64 - 8\<close> bytes wraps around, succeeds and moves
  the heap pointer back by eight, so the following block of eight bytes overlaps the last one; and a
  failed \<^verbatim>\<open>kmalloc_aligned\<close> with an alignment beyond the heap leaves the pointer past the end, after
  which every ordinary request fails.
\<close>

theorem kmalloc_wraps:
  shows "kmalloc (- 8) \<lparr>heap_ptr = HEAP_START + 8, heap_used = 8\<rparr>
        = (\<lparr>heap_ptr = HEAP_START, heap_used = 0\<rparr>, HEAP_START + 8)
    \<and> snd (kmalloc_aligned 8 0x80000000 \<lparr>heap_ptr = HEAP_START, heap_used = 0\<rparr>) = 0
    \<and> snd (kmalloc (of_nat (Suc n mod 2 ^ 32))
          (fst (kmalloc_aligned 8 0x80000000 \<lparr>heap_ptr = HEAP_START, heap_used = 0\<rparr>))) = 0"
proof (intro conjI)
  show "kmalloc (- 8) \<lparr>heap_ptr = HEAP_START + 8, heap_used = 8\<rparr>
        = (\<lparr>heap_ptr = HEAP_START, heap_used = 0\<rparr>, HEAP_START + 8)"
    by (simp add: kmalloc_def)
  have e: "kmalloc_aligned 8 0x80000000 \<lparr>heap_ptr = HEAP_START, heap_used = 0\<rparr>
      = (\<lparr>heap_ptr = 0x80000000, heap_used = 0\<rparr>, 0)"
    by (simp add: kmalloc_aligned_def kmalloc_def)
  then show "snd (kmalloc_aligned 8 0x80000000 \<lparr>heap_ptr = HEAP_START, heap_used = 0\<rparr>) = 0" by simp
  define sz :: u64 where "sz = of_nat (Suc n mod 2 ^ 32)"
  have "unat sz < 2 ^ 32" by (simp add: sz_def unsigned_of_nat take_bit_nat_eq_self)
  then have "unat ((sz + 7) AND NOT 7) \<le> 2 ^ 32 + 7"
    unfolding and_not_7 by (simp add: unat_word_ariths)
  then have "unat HEAP_END < unat (0x80000000 + ((sz + 7) AND NOT 7))"
    by (simp add: unat_word_ariths)
  then have "HEAP_END < 0x80000000 + ((sz + 7) AND NOT 7)" by (simp add: word_less_nat_alt)
  then show "snd (kmalloc (of_nat (Suc n mod 2 ^ 32))
          (fst (kmalloc_aligned 8 0x80000000 \<lparr>heap_ptr = HEAP_START, heap_used = 0\<rparr>))) = 0"
    unfolding e sz_def [symmetric] by (simp add: kmalloc_def)
qed

end
