(* ===== verification/Sync.thy ===== *)
theory Sync
  imports Prelude
begin

text \<open>
  The mutex and the counting semaphore of \<^verbatim>\<open>src/kernel/sync.c\<close>.  The index of the calling task, which
  the code reads with \<^verbatim>\<open>sched_current_index\<close>, is the argument \<open>me\<close>; the bracketing
  \<^verbatim>\<open>irq_disable\<close>/\<^verbatim>\<open>irq_enable\<close> makes each operation one atomic step.  The blocking calls retry after
  \<^verbatim>\<open>sched_yield\<close>; what the other tasks do to the object during the \<open>i\<close>-th yield is the argument
  \<open>others i\<close>.
\<close>

section \<open>Mutex\<close>

record mutex =
  owner :: int
  lock_count :: u32

definition mutex_init :: mutex where
  "mutex_init = \<lparr>owner = -1, lock_count = 0\<rparr>"

definition mutex_trylock :: "int \<Rightarrow> mutex \<Rightarrow> mutex \<times> bool" where
  "mutex_trylock me m =
     (if owner m = -1 \<or> owner m = me then (m\<lparr>owner := me\<rparr>, True)
      else (m\<lparr>lock_count := lock_count m + 1\<rparr>, False))"

partial_function (option) mutex_lock :: "(nat \<Rightarrow> mutex \<Rightarrow> mutex) \<Rightarrow> int \<Rightarrow> nat \<Rightarrow> mutex \<Rightarrow> mutex option" where
  "mutex_lock others me i m =
     (case mutex_trylock me m of
        (m', got) \<Rightarrow> if got then Some m' else mutex_lock others me (Suc i) (others i m'))"

definition mutex_unlock :: "int \<Rightarrow> mutex \<Rightarrow> mutex" where
  "mutex_unlock me m = (if owner m = me then m\<lparr>owner := -1\<rparr> else m)"

section \<open>Semaphore\<close>

record semaphore =
  sem_count :: int
  wakeups :: u32

definition sem_init :: "int \<Rightarrow> semaphore" where
  "sem_init initial = \<lparr>sem_count = initial, wakeups = 0\<rparr>"

definition sem_trywait :: "semaphore \<Rightarrow> semaphore \<times> bool" where
  "sem_trywait s =
     (if 0 < sem_count s then (s\<lparr>sem_count := i32 (sem_count s - 1)\<rparr>, True) else (s, False))"

partial_function (option) sem_wait :: "(nat \<Rightarrow> semaphore \<Rightarrow> semaphore) \<Rightarrow> nat \<Rightarrow> semaphore \<Rightarrow> semaphore option" where
  "sem_wait others i s =
     (case sem_trywait s of
        (s', got) \<Rightarrow> if got then Some s' else sem_wait others (Suc i) (others i s'))"

definition sem_post :: "semaphore \<Rightarrow> semaphore" where
  "sem_post s = s\<lparr>sem_count := i32 (sem_count s + 1), wakeups := wakeups s + 1\<rparr>"

section \<open>Interleavings\<close>

text \<open>
  Tasks use one mutex in any order.  The ghost component records which tasks are between a
  successful lock and their unlock.
\<close>

datatype mutex_event =
    Try_lock nat
  | Unlock nat

fun mutex_step :: "mutex \<times> (nat \<Rightarrow> bool) \<Rightarrow> mutex_event \<Rightarrow> mutex \<times> (nat \<Rightarrow> bool)" where
  "mutex_step (m, inside) (Try_lock t) =
     (let (m', got) = mutex_trylock (int t) m in (m', if got then inside(t := True) else inside))"
| "mutex_step (m, inside) (Unlock t) = (mutex_unlock (int t) m, inside(t := False))"

definition mutex_inv :: "mutex \<times> (nat \<Rightarrow> bool) \<Rightarrow> bool" where
  "mutex_inv = (\<lambda>(m, inside). -1 \<le> owner m \<and> (\<forall>t. inside t \<longleftrightarrow> owner m = int t))"

interpretation mutex_sys: event_system mutex_step mutex_inv
proof
  show "mutex_inv (mutex_step s e)" if "mutex_inv s" for s e
    using that
    by (cases s; cases e) (auto simp: mutex_inv_def mutex_trylock_def mutex_unlock_def Let_def)
qed

datatype sem_event =
    Try_wait
  | Post

text \<open>The ghost components count the successful waits and the posts.\<close>

fun sem_step :: "semaphore \<times> nat \<times> nat \<Rightarrow> sem_event \<Rightarrow> semaphore \<times> nat \<times> nat" where
  "sem_step (s, waits, posts) Try_wait =
     (let (s', got) = sem_trywait s in (s', if got then Suc waits else waits, posts))"
| "sem_step (s, waits, posts) Post = (sem_post s, waits, Suc posts)"

lemma sem_run:
  assumes "0 \<le> n" and "n + int (length (filter (\<lambda>e. e = Post) es)) < 2147483648"
    and "foldl sem_step (sem_init n, 0, 0) es = (s, waits, posts)"
  shows "0 \<le> sem_count s \<and> sem_count s + int waits = n + int posts
    \<and> posts = length (filter (\<lambda>e. e = Post) es)"
  using assms(2,3)
proof (induction es arbitrary: s waits posts rule: rev_induct)
  case Nil
  then show ?case using assms(1) by (auto simp: sem_init_def)
next
  case (snoc e es)
  obtain s1 w1 p1 where r: "foldl sem_step (sem_init n, 0, 0) es = (s1, w1, p1)"
    by (cases "foldl sem_step (sem_init n, 0, 0) es") auto
  have b: "n + int (length (filter (\<lambda>e. e = Post) es)) < 2147483648" using snoc.prems(1) by auto
  have IH: "0 \<le> sem_count s1" "sem_count s1 + int w1 = n + int p1" "p1 = length (filter (\<lambda>e. e = Post) es)"
    using snoc.IH [OF b r] by blast+
  show ?case
  proof (cases e)
    case Try_wait
    have "i32 (sem_count s1 - 1) = sem_count s1 - 1" if "0 < sem_count s1"
      using that IH b by (intro i32_id) auto
    with Try_wait snoc.prems(2) r IH show ?thesis
      by (auto simp: sem_trywait_def Let_def split: if_splits)
  next
    case Post
    have "i32 (sem_count s1 + 1) = sem_count s1 + 1"
      using IH snoc.prems(1) Post by (intro i32_id) auto
    with Post snoc.prems(2) r IH show ?thesis by (auto simp: sem_post_def)
  qed
qed

section \<open>The blocking calls\<close>

text \<open>The mutex as the caller finds it at its \<open>k\<close>-th attempt, if all attempts before failed.\<close>

fun attempt :: "(nat \<Rightarrow> mutex \<Rightarrow> mutex) \<Rightarrow> int \<Rightarrow> nat \<Rightarrow> nat \<Rightarrow> mutex \<Rightarrow> mutex" where
  "attempt others me i 0 m = m"
| "attempt others me i (Suc k) m = attempt others me (Suc i) k (others i (fst (mutex_trylock me m)))"

lemma mutex_lock_Some:
  "snd (mutex_trylock me (attempt others me i k m)) \<Longrightarrow> \<exists>m'. mutex_lock others me i m = Some m' \<and> owner m' = me"
proof (induction k arbitrary: i m)
  case 0
  then show ?case
    by (subst mutex_lock.simps) (auto simp: mutex_trylock_def split: if_splits)
next
  case (Suc k)
  show ?case
  proof (cases "snd (mutex_trylock me m)")
    case True
    then show ?thesis by (subst mutex_lock.simps) (auto simp: mutex_trylock_def split: if_splits)
  next
    case False
    have "mutex_lock others me i m = mutex_lock others me (Suc i) (others i (fst (mutex_trylock me m)))"
      using False by (subst mutex_lock.simps) (simp add: split_beta)
    with Suc show ?thesis by simp
  qed
qed

lemma mutex_lock_attempt:
  assumes "mutex_lock others me i m = Some m'"
  shows "\<exists>k. snd (mutex_trylock me (attempt others me i k m))"
proof (rule mutex_lock.raw_induct [where P = "\<lambda>others me i m _. \<exists>k. snd (mutex_trylock me (attempt others me i k m))"])
  fix lock others me i m m'
  assume IH: "\<And>others me i m m'. lock others me i m = Some m' \<Longrightarrow> \<exists>k. snd (mutex_trylock me (attempt others me i k m))"
    and body: "(case mutex_trylock me m of (m', got) \<Rightarrow> if got then Some m' else lock others me (Suc i) (others i m')) = Some m'"
  show "\<exists>k. snd (mutex_trylock me (attempt others me i k m))"
  proof (cases "snd (mutex_trylock me m)")
    case True
    then show ?thesis by (intro exI [of _ 0]) simp
  next
    case False
    then have "lock others me (Suc i) (others i (fst (mutex_trylock me m))) = Some m'"
      using body by (simp add: split_beta)
    from IH [OF this] obtain k where
      "snd (mutex_trylock me (attempt others me (Suc i) k (others i (fst (mutex_trylock me m)))))" by blast
    then show ?thesis by (intro exI [of _ "Suc k"]) simp
  qed
qed (rule assms)

section \<open>Properties\<close>

text \<open>
  C13. Mutual exclusion: whatever the order of lock attempts and unlocks of all tasks, the tasks that
  have locked and not yet unlocked are exactly the owner, so there is at most one.
\<close>

theorem mutex_exclusion:
  assumes "foldl mutex_step (mutex_init, \<lambda>_. False) es = (m, inside)"
  shows "(inside t \<longleftrightarrow> owner m = int t) \<and> (inside t \<and> inside u \<longrightarrow> t = u)
    \<and> (snd (mutex_trylock (int t) m) \<longleftrightarrow> (\<forall>u. inside u \<longrightarrow> u = t))"
proof -
  have "mutex_inv (m, inside)"
    using mutex_sys.run_inv [of "(mutex_init, \<lambda>_. False)" es] assms
    by (simp add: mutex_inv_def mutex_init_def)
  then have i: "\<And>t. inside t \<longleftrightarrow> owner m = int t" "-1 \<le> owner m" by (auto simp: mutex_inv_def)
  have "owner m = -1 \<or> (\<exists>u. owner m = int u)"
    using i(2) by (cases "owner m = -1") (auto intro!: exI [of _ "nat (owner m)"])
  then show ?thesis using i(1) by (auto simp: mutex_trylock_def)
qed

text \<open>
  C39. \<^verbatim>\<open>mutex_lock\<close> returns exactly when at one of its attempts the mutex is free or already the
  caller's, and then the caller owns it.
\<close>

theorem mutex_lock_returns:
  "((\<exists>m'. mutex_lock others me 0 m = Some m')
     \<longleftrightarrow> (\<exists>k. owner (attempt others me 0 k m) = -1 \<or> owner (attempt others me 0 k m) = me))
   \<and> (case mutex_lock others me 0 m of Some m' \<Rightarrow> owner m' = me | None \<Rightarrow> True)"
proof -
  have s: "snd (mutex_trylock me m) \<longleftrightarrow> owner m = -1 \<or> owner m = me" for m by (simp add: mutex_trylock_def)
  have "(\<exists>m'. mutex_lock others me 0 m = Some m') \<longleftrightarrow> (\<exists>k. snd (mutex_trylock me (attempt others me 0 k m)))"
    using mutex_lock_Some mutex_lock_attempt by blast
  moreover have "owner m' = me" if "mutex_lock others me 0 m = Some m'" for m'
  proof -
    from mutex_lock_attempt [OF that] obtain k where "snd (mutex_trylock me (attempt others me 0 k m))" by blast
    from mutex_lock_Some [OF this] that show ?thesis by auto
  qed
  ultimately show ?thesis unfolding s by (auto split: option.split)
qed

text \<open>
  C40. Semaphore conservation: in any order of wait attempts and posts, and as long as the 32-bit
  counter cannot overflow, the count never goes below zero and the successful waits plus the count
  are the initial value plus the posts.
\<close>

theorem sem_conservation:
  assumes "0 \<le> n" and "n + int (length (filter (\<lambda>e. e = Post) es)) < 2 ^ 31"
    and "foldl sem_step (sem_init n, 0, 0) es = (s, waits, posts)"
  shows "0 \<le> sem_count s \<and> sem_count s + int waits = n + int posts \<and> int waits \<le> n + int posts"
  using sem_run [OF assms(1) _ assms(3)] assms(2) by simp

theorem mutex_exclusion_witness:
  "\<exists>m inside. foldl mutex_step (mutex_init, \<lambda>_. False) [Try_lock 1, Try_lock 2] = (m, inside)
     \<and> inside 1 \<and> \<not> inside 2 \<and> owner m = 1 \<and> \<not> snd (mutex_trylock 2 m)"
proof -
  have r: "foldl mutex_step (mutex_init, \<lambda>_. False) [Try_lock 1, Try_lock 2]
      = (\<lparr>owner = 1, lock_count = 1\<rparr>, (\<lambda>_. False)(1 := True))"
    by (simp add: mutex_init_def mutex_trylock_def)
  show ?thesis
    using r mutex_exclusion [OF r, of 2 1]
    by (intro exI [of _ "\<lparr>owner = 1, lock_count = 1\<rparr>"] exI [of _ "(\<lambda>_. False)(1 := True)"]) simp
qed

theorem sem_conservation_witness:
  "\<exists>s waits posts. foldl sem_step (sem_init 1, 0, 0) [Try_wait, Try_wait, Post] = (s, waits, posts)
     \<and> waits = 1 \<and> posts = 1 \<and> sem_count s = 1"
proof -
  obtain s waits posts where r: "foldl sem_step (sem_init 1, 0, 0) [Try_wait, Try_wait, Post] = (s, waits, posts)"
    by (cases "foldl sem_step (sem_init 1, 0, 0) [Try_wait, Try_wait, Post]") auto
  then have "waits = 1" "posts = 1" by (auto simp: sem_init_def sem_trywait_def sem_post_def i32_id)
  with sem_conservation [OF _ _ r] r show ?thesis by auto
qed

end
