(* ===== verification/Ramfs.thy ===== *)
theory Ramfs
  imports Prelude Uart
begin

text \<open>
  The flat RAM file system of \<^verbatim>\<open>src/kernel/ramfs.c\<close>: 32 slots with a 16-byte name and 4096 bytes of
  data.  A name argument is the memory at the caller's pointer: the code compares all 16 bytes of it,
  also those behind the terminator.  The theory relates the table to the map from names to contents.
\<close>

section \<open>State\<close>

abbreviation RAMFS_MAX_FILES :: nat where
  "RAMFS_MAX_FILES \<equiv> 32"

abbreviation RAMFS_MAX_NAME :: nat where
  "RAMFS_MAX_NAME \<equiv> 16"

abbreviation RAMFS_MAX_SIZE :: u32 where
  "RAMFS_MAX_SIZE \<equiv> 4096"

abbreviation RAMFS_OK :: int where
  "RAMFS_OK \<equiv> 0"

abbreviation RAMFS_ERR_FULL :: int where
  "RAMFS_ERR_FULL \<equiv> -1"

abbreviation RAMFS_ERR_NOTFOUND :: int where
  "RAMFS_ERR_NOTFOUND \<equiv> -2"

abbreviation RAMFS_ERR_INVAL :: int where
  "RAMFS_ERR_INVAL \<equiv> -4"

record ramfs_file =
  fname :: bytes
  fsize :: u32
  fin_use :: bool
  fdata :: bytes

record ramfs =
  files :: "ramfs_file list"
  file_count :: u32

definition ramfs_statics :: ramfs where
  "ramfs_statics = \<lparr>files = replicate RAMFS_MAX_FILES
     \<lparr>fname = replicate 16 0, fsize = 0, fin_use = False, fdata = replicate 4096 0\<rparr>, file_count = 0\<rparr>"

section \<open>Operations\<close>

definition ramfs_init :: "ramfs \<Rightarrow> ramfs \<times> bytes" where
  "ramfs_init s =
     (s\<lparr>files := map (\<lambda>f. f\<lparr>fin_use := False, fsize := 0\<rparr>) (files s), file_count := 0\<rparr>,
      uart_puts (str ''  RAMFS initialized (32 files, 4KB each)''))"

definition find_file :: "bytes \<Rightarrow> ramfs \<Rightarrow> nat option" where
  "find_file name s = first_slot (\<lambda>f. fin_use f \<and> same_name RAMFS_MAX_NAME (fname f) name) (files s)"

definition set_file :: "ramfs \<Rightarrow> nat \<Rightarrow> ramfs_file \<Rightarrow> ramfs" where
  "set_file s i f = s\<lparr>files := (files s)[i := f]\<rparr>"

definition ramfs_create :: "bytes \<Rightarrow> ramfs \<Rightarrow> ramfs \<times> int" where
  "ramfs_create name s =
     (case find_file name s of
        Some _ \<Rightarrow> (s, RAMFS_OK)
      | None \<Rightarrow>
          (case first_slot (\<lambda>f. \<not> fin_use f) (files s) of
             Some i \<Rightarrow>
               ((set_file s i ((files s ! i)\<lparr>fname := pad_name RAMFS_MAX_NAME name, fsize := 0, fin_use := True\<rparr>))
                  \<lparr>file_count := file_count s + 1\<rparr>, RAMFS_OK)
           | None \<Rightarrow> (s, RAMFS_ERR_FULL)))"

text \<open>The copy loop of \<^verbatim>\<open>ramfs_write\<close> stores \<open>copy_len\<close> bytes from \<open>data\<close> at \<open>offset\<close>.\<close>

definition ramfs_write :: "bytes \<Rightarrow> bytes \<Rightarrow> u32 \<Rightarrow> u32 \<Rightarrow> ramfs \<Rightarrow> ramfs \<times> int" where
  "ramfs_write name data len offset s =
     (case find_file name s of
        None \<Rightarrow> (s, RAMFS_ERR_NOTFOUND)
      | Some i \<Rightarrow>
          if RAMFS_MAX_SIZE \<le> offset then (s, RAMFS_ERR_INVAL)
          else
            (let f = files s ! i;
                 remaining = RAMFS_MAX_SIZE - offset;
                 copy_len = (if remaining < len then remaining else len);
                 end_off = offset + copy_len;
                 f1 = f\<lparr>fdata := memcpy (fdata f) (unat offset) data 0 (unat end_off - unat offset)\<rparr>;
                 f2 = (if fsize f1 < end_off then f1\<lparr>fsize := end_off\<rparr> else f1)
             in (set_file s i f2, i32 (uint copy_len))))"

definition ramfs_read :: "bytes \<Rightarrow> bytes \<Rightarrow> u32 \<Rightarrow> u32 \<Rightarrow> ramfs \<Rightarrow> bytes \<times> int" where
  "ramfs_read name buf len offset s =
     (case find_file name s of
        None \<Rightarrow> (buf, RAMFS_ERR_NOTFOUND)
      | Some i \<Rightarrow>
          (let f = files s ! i;
               end0 = offset + len;
               end_off = (if fsize f < end0 then fsize f else end0)
           in if fsize f \<le> offset then (buf, 0)
              else (memcpy buf 0 (fdata f) (unat offset) (unat end_off - unat offset),
                    i32 (uint (end_off - offset)))))"

definition ramfs_delete :: "bytes \<Rightarrow> ramfs \<Rightarrow> ramfs \<times> int" where
  "ramfs_delete name s =
     (case find_file name s of
        None \<Rightarrow> (s, RAMFS_ERR_NOTFOUND)
      | Some i \<Rightarrow>
          ((set_file s i ((files s ! i)\<lparr>fin_use := False, fsize := 0\<rparr>))\<lparr>file_count := file_count s - 1\<rparr>, RAMFS_OK))"

definition ramfs_exists :: "bytes \<Rightarrow> ramfs \<Rightarrow> bool" where
  "ramfs_exists name s = (find_file name s \<noteq> None)"

definition ramfs_size :: "bytes \<Rightarrow> ramfs \<Rightarrow> u32" where
  "ramfs_size name s = (case find_file name s of Some i \<Rightarrow> fsize (files s ! i) | None \<Rightarrow> 0)"

text \<open>The names \<^verbatim>\<open>ramfs_list\<close> stores and its return value.\<close>

definition ramfs_list :: "int \<Rightarrow> ramfs \<Rightarrow> bytes list \<times> int" where
  "ramfs_list max_names s =
     (if max_names \<le> 0 then ([], 0)
      else
        (let ns = take (nat max_names) (map fname (filter fin_use (files s)))
         in (ns, int (length ns))))"

definition ramfs_report :: "ramfs \<Rightarrow> bytes" where
  "ramfs_report s =
     uart_puts (str ''=== RAMFS Report ==='') @ uart_puts_nolf (str ''  Files: '')
     @ uart_dec (ucast (file_count s)) @ uart_puts_nolf (str ''/'') @ uart_dec (of_nat RAMFS_MAX_FILES)
     @ uart_puts_nolf (str ''  Total size: '')
     @ uart_dec (ucast (foldl (\<lambda>total f. if fin_use f then total + fsize f else total) 0 (files s)))
     @ uart_puts (str '' bytes'')"

section \<open>The table as a map\<close>

definition file_wf :: "ramfs_file \<Rightarrow> bool" where
  "file_wf f \<longleftrightarrow> length (fname f) = 16 \<and> length (fdata f) = 4096 \<and> fsize f \<le> RAMFS_MAX_SIZE
     \<and> (fin_use f \<longrightarrow> pad_name 16 (fname f) = fname f)"

definition names_unique :: "ramfs_file list \<Rightarrow> bool" where
  "names_unique fs \<longleftrightarrow> (\<forall>i<length fs. \<forall>j<length fs.
     fin_use (fs ! i) \<and> fin_use (fs ! j) \<and> fname (fs ! i) = fname (fs ! j) \<longrightarrow> i = j)"

definition ramfs_wf :: "ramfs \<Rightarrow> bool" where
  "ramfs_wf s \<longleftrightarrow> length (files s) = RAMFS_MAX_FILES \<and> list_all file_wf (files s)
     \<and> unat (file_count s) = count_slots fin_use (files s) \<and> names_unique (files s)"

definition content :: "ramfs_file \<Rightarrow> bytes" where
  "content f = take (unat (fsize f)) (fdata f)"

definition ramfs_map :: "ramfs \<Rightarrow> bytes \<Rightarrow> bytes option" where
  "ramfs_map s n =
     (case first_slot (\<lambda>f. fin_use f \<and> fname f = n) (files s) of
        Some i \<Rightarrow> Some (content (files s ! i))
      | None \<Rightarrow> None)"

text \<open>A name buffer whose 16 bytes are the name padded with zeros.\<close>

definition clean_name :: "bytes \<Rightarrow> bool" where
  "clean_name name \<longleftrightarrow> raw_name 16 name = pad_name 16 name"

lemma wf_length: "ramfs_wf s \<Longrightarrow> length (files s) = 32"
  by (simp add: ramfs_wf_def)

lemma wf_file: "ramfs_wf s \<Longrightarrow> i < 32 \<Longrightarrow> file_wf (files s ! i)"
  by (simp add: ramfs_wf_def list_all_length)

lemma wf_unique:
  assumes "ramfs_wf s" "i < 32" "j < 32" "fin_use (files s ! i)" "fin_use (files s ! j)"
    "fname (files s ! i) = fname (files s ! j)"
  shows "i = j"
proof -
  have "names_unique (files s)" "length (files s) = 32" using assms(1) by (simp_all add: ramfs_wf_def)
  then show ?thesis using assms(2-) unfolding names_unique_def by metis
qed

lemma slot_of_name:
  assumes w: "ramfs_wf s"
  shows "first_slot (\<lambda>f. fin_use f \<and> fname f = n) (files s) = Some i
    \<longleftrightarrow> i < 32 \<and> fin_use (files s ! i) \<and> fname (files s ! i) = n"
proof
  assume a: "i < 32 \<and> fin_use (files s ! i) \<and> fname (files s ! i) = n"
  moreover have "\<not> (fin_use (files s ! j) \<and> fname (files s ! j) = n)" if "j < i" for j
    using wf_unique [OF w, of j i] that a by auto
  ultimately show "first_slot (\<lambda>f. fin_use f \<and> fname f = n) (files s) = Some i"
    using wf_length [OF w] by (simp add: first_slot_Some)
qed (use wf_length [OF w] in \<open>simp add: first_slot_Some\<close>)

lemma ramfs_map_Some:
  assumes w: "ramfs_wf s"
  shows "ramfs_map s n = Some c \<longleftrightarrow>
    (\<exists>i<32. fin_use (files s ! i) \<and> fname (files s ! i) = n \<and> content (files s ! i) = c)"
proof (cases "first_slot (\<lambda>f. fin_use f \<and> fname f = n) (files s)")
  case None
  then have "\<not> (i < 32 \<and> fin_use (files s ! i) \<and> fname (files s ! i) = n)" for i
    using slot_of_name [OF w, of n i] by simp
  with None show ?thesis by (auto simp: ramfs_map_def)
next
  case (Some k)
  then have k: "k < 32" "fin_use (files s ! k)" "fname (files s ! k) = n"
    using slot_of_name [OF w, of n k] by simp_all
  have "i = k" if "i < 32" "fin_use (files s ! i)" "fname (files s ! i) = n" for i
    using slot_of_name [OF w, of n i] that Some by simp
  then have "(\<exists>i<32. fin_use (files s ! i) \<and> fname (files s ! i) = n \<and> content (files s ! i) = c)
      \<longleftrightarrow> content (files s ! k) = c"
    using k by metis
  then show ?thesis using Some by (simp add: ramfs_map_def)
qed

lemma ramfs_map_None:
  assumes w: "ramfs_wf s"
  shows "ramfs_map s n = None \<longleftrightarrow> (\<forall>i<32. fin_use (files s ! i) \<longrightarrow> fname (files s ! i) \<noteq> n)"
proof -
  have "ramfs_map s n = None \<longleftrightarrow> (\<nexists>c. ramfs_map s n = Some c)" by auto
  then show ?thesis using ramfs_map_Some [OF w, of n] by auto
qed

lemma first_slot_cong: "(\<And>x. x \<in> set xs \<Longrightarrow> P x = Q x) \<Longrightarrow> first_slot P xs = first_slot Q xs"
  unfolding first_slot_def by (rule find_cong) (auto intro: nth_mem)

lemma find_file_clean:
  assumes w: "ramfs_wf s" and c: "clean_name name"
  shows "find_file name s = first_slot (\<lambda>f. fin_use f \<and> fname f = pad_name 16 name) (files s)"
  unfolding find_file_def
proof (rule first_slot_cong)
  fix f assume "f \<in> set (files s)"
  then have "length (fname f) = 16" using w by (auto simp: ramfs_wf_def list_all_iff file_wf_def)
  then show "(fin_use f \<and> same_name 16 (fname f) name) = (fin_use f \<and> fname f = pad_name 16 name)"
    using c by (simp add: same_name_iff raw_name_id clean_name_def)
qed

lemma find_file_map:
  assumes "ramfs_wf s" "clean_name name"
  shows "find_file name s = None \<longleftrightarrow> ramfs_map s (pad_name 16 name) = None"
    and "find_file name s = Some i \<Longrightarrow> i < 32 \<and> fin_use (files s ! i) \<and> fname (files s ! i) = pad_name 16 name
      \<and> ramfs_map s (pad_name 16 name) = Some (content (files s ! i))"
proof -
  show "find_file name s = None \<longleftrightarrow> ramfs_map s (pad_name 16 name) = None"
    unfolding find_file_clean [OF assms] by (simp add: ramfs_map_def split: option.splits)
  assume "find_file name s = Some i"
  then have e: "first_slot (\<lambda>f. fin_use f \<and> fname f = pad_name 16 name) (files s) = Some i"
    unfolding find_file_clean [OF assms] .
  then show "i < 32 \<and> fin_use (files s ! i) \<and> fname (files s ! i) = pad_name 16 name
      \<and> ramfs_map s (pad_name 16 name) = Some (content (files s ! i))"
    using slot_of_name [OF assms(1), of "pad_name 16 name" i] by (simp add: ramfs_map_def)
qed

lemma set_file_simps [simp]:
  "files (set_file s i f) = (files s)[i := f]" "file_count (set_file s i f) = file_count s"
  by (simp_all add: set_file_def)

lemma map_update:
  assumes w: "ramfs_wf s" and i: "i < 32" "fin_use (files s ! i)"
    and f: "file_wf f" "fin_use f" "fname f = fname (files s ! i)"
  shows "ramfs_wf (set_file s i f)"
    and "ramfs_map (set_file s i f) = (ramfs_map s)(fname f \<mapsto> content f)"
proof -
  have l: "length (files s) = 32" using wf_length [OF w] .
  have n: "fin_use ((files s)[i := f] ! j) = fin_use (files s ! j)" "fname ((files s)[i := f] ! j) = fname (files s ! j)" for j
    using i f l by (cases "j = i"; simp)+
  have "count_slots fin_use ((files s)[i := f]) = count_slots fin_use (files s)"
    using count_slots_update [of i "files s" fin_use f] i f l by simp
  moreover have "names_unique ((files s)[i := f]) = names_unique (files s)"
    unfolding names_unique_def length_list_update n ..
  ultimately show w': "ramfs_wf (set_file s i f)"
    using w f(1) by (simp add: ramfs_wf_def list_all_update)
  show "ramfs_map (set_file s i f) = (ramfs_map s)(fname f \<mapsto> content f)"
  proof
    fix m
    show "ramfs_map (set_file s i f) m = ((ramfs_map s)(fname f \<mapsto> content f)) m"
    proof (cases "m = fname f")
      case True
      have "ramfs_map (set_file s i f) m = Some (content f)"
        unfolding ramfs_map_Some [OF w'] using i f l True by (intro exI [of _ i]) simp
      then show ?thesis using True by simp
    next
      case False
      have j: "fin_use (files (set_file s i f) ! j) \<and> fname (files (set_file s i f) ! j) = m
            \<and> content (files (set_file s i f) ! j) = c
          \<longleftrightarrow> fin_use (files s ! j) \<and> fname (files s ! j) = m \<and> content (files s ! j) = c" for j c
        using False f(3) i l by (cases "j = i") simp_all
      have "ramfs_map (set_file s i f) m = Some c \<longleftrightarrow> ramfs_map s m = Some c" for c
        unfolding ramfs_map_Some [OF w'] ramfs_map_Some [OF w] j ..
      then show ?thesis using False by (metis fun_upd_other not_Some_eq)
    qed
  qed
qed

lemma map_create:
  assumes w: "ramfs_wf s" and i: "i < 32" "\<not> fin_use (files s ! i)"
    and n: "ramfs_map s (pad_name 16 name) = None"
  defines "f \<equiv> (files s ! i)\<lparr>fname := pad_name 16 name, fsize := 0, fin_use := True\<rparr>"
  defines "s' \<equiv> (set_file s i f)\<lparr>file_count := file_count s + 1\<rparr>"
  shows "ramfs_wf s'" and "ramfs_map s' = (ramfs_map s)(pad_name 16 name \<mapsto> [])"
proof -
  have l: "length (files s) = 32" using wf_length [OF w] .
  have fs: "files s' = (files s)[i := f]" by (simp add: s'_def)
  have new: "\<not> (fin_use (files s ! j) \<and> fname (files s ! j) = pad_name 16 name)" if "j < 32" for j
    using n that unfolding ramfs_map_None [OF w] by blast
  have f: "file_wf f" "fin_use f" "fname f = pad_name 16 name" "content f = []"
    using wf_file [OF w i(1)] by (simp_all add: f_def file_wf_def content_def)
  have "names_unique (files s')"
    unfolding names_unique_def fs length_list_update l
  proof (intro allI impI)
    fix a b
    assume a: "a < 32" "b < 32" "fin_use ((files s)[i := f] ! a) \<and> fin_use ((files s)[i := f] ! b)
      \<and> fname ((files s)[i := f] ! a) = fname ((files s)[i := f] ! b)"
    show "a = b"
    proof (cases "a = i \<or> b = i")
      case True
      then show ?thesis using a new [of a] new [of b] f l i by (cases "a = i"; cases "b = i") auto
    next
      case False
      then show ?thesis using a wf_unique [OF w, of a b] by simp
    qed
  qed
  moreover have "count_slots fin_use ((files s)[i := f]) = Suc (count_slots fin_use (files s))"
    using count_slots_update [of i "files s" fin_use f] i f l by simp
  moreover have "unat (file_count s + 1) = Suc (count_slots fin_use (files s))"
  proof -
    have "count_slots fin_use (files s) \<le> 32" using count_slots_le [of fin_use "files s"] l by simp
    moreover have "unat (file_count s) = count_slots fin_use (files s)" using w by (simp add: ramfs_wf_def)
    ultimately show ?thesis using unat_Suc_word [of "file_count s"] by simp
  qed
  ultimately show w': "ramfs_wf s'"
    using w f(1) by (simp add: ramfs_wf_def list_all_update fs s'_def)
  show "ramfs_map s' = (ramfs_map s)(pad_name 16 name \<mapsto> [])"
  proof
    fix m
    show "ramfs_map s' m = ((ramfs_map s)(pad_name 16 name \<mapsto> [])) m"
    proof (cases "m = pad_name 16 name")
      case True
      have "ramfs_map s' m = Some []"
        unfolding ramfs_map_Some [OF w'] fs using i f l True by (intro exI [of _ i]) simp
      then show ?thesis using True by simp
    next
      case False
      have j: "fin_use (files s' ! j) \<and> fname (files s' ! j) = m \<and> content (files s' ! j) = c
          \<longleftrightarrow> fin_use (files s ! j) \<and> fname (files s ! j) = m \<and> content (files s ! j) = c" for j c
        using False f(3) i l unfolding fs by (cases "j = i") simp_all
      have "ramfs_map s' m = Some c \<longleftrightarrow> ramfs_map s m = Some c" for c
        unfolding ramfs_map_Some [OF w'] ramfs_map_Some [OF w] j ..
      then show ?thesis using False by (metis fun_upd_other not_Some_eq)
    qed
  qed
qed

lemma map_delete:
  assumes w: "ramfs_wf s" and i: "i < 32" "fin_use (files s ! i)"
  defines "f \<equiv> (files s ! i)\<lparr>fin_use := False, fsize := 0\<rparr>"
  defines "s' \<equiv> (set_file s i f)\<lparr>file_count := file_count s - 1\<rparr>"
  shows "ramfs_wf s'" and "ramfs_map s' = (ramfs_map s)(fname (files s ! i) := None)"
proof -
  have l: "length (files s) = 32" using wf_length [OF w] .
  have fs: "files s' = (files s)[i := f]" by (simp add: s'_def)
  have f: "file_wf f" "\<not> fin_use f"
    using wf_file [OF w i(1)] by (simp_all add: f_def file_wf_def)
  have u: "fin_use (files s' ! j) \<longleftrightarrow> j \<noteq> i \<and> fin_use (files s ! j)" for j
    using f i l unfolding fs by (cases "j = i") simp_all
  have o: "j \<noteq> i \<Longrightarrow> files s' ! j = files s ! j" for j by (simp add: fs)
  have "names_unique (files s')"
    unfolding names_unique_def
  proof (intro allI impI)
    fix a b
    assume a: "a < length (files s')" "b < length (files s')"
      "fin_use (files s' ! a) \<and> fin_use (files s' ! b) \<and> fname (files s' ! a) = fname (files s' ! b)"
    then have "a < 32" "b < 32" using l by (simp_all add: fs)
    then show "a = b" using a(3) wf_unique [OF w, of a b] u [of a] u [of b] o [of a] o [of b] by simp
  qed
  moreover have "Suc (count_slots fin_use ((files s)[i := f])) = count_slots fin_use (files s)"
    using count_slots_update [of i "files s" fin_use f] i f l by simp
  moreover have "unat (file_count s) = count_slots fin_use (files s)" using w by (simp add: ramfs_wf_def)
  moreover have "unat (file_count s - 1) = unat (file_count s) - 1"
    using calculation by (intro unat_minus_one) auto
  ultimately show w': "ramfs_wf s'"
    using w f(1) by (simp add: ramfs_wf_def list_all_update fs s'_def)
  show "ramfs_map s' = (ramfs_map s)(fname (files s ! i) := None)"
  proof
    fix m
    have "ramfs_map s' m = Some c \<longleftrightarrow> ramfs_map s m = Some c" if "m \<noteq> fname (files s ! i)" for c
    proof -
      have j: "fin_use (files s' ! j) \<and> fname (files s' ! j) = m \<and> content (files s' ! j) = c
          \<longleftrightarrow> fin_use (files s ! j) \<and> fname (files s ! j) = m \<and> content (files s ! j) = c" for j
        using that u [of j] o [of j] by (cases "j = i") auto
      show ?thesis unfolding ramfs_map_Some [OF w'] ramfs_map_Some [OF w] j ..
    qed
    moreover have "ramfs_map s' (fname (files s ! i)) = None"
      unfolding ramfs_map_None [OF w'] using wf_unique [OF w, of _ i] i u o by metis
    ultimately show "ramfs_map s' m = ((ramfs_map s)(fname (files s ! i) := None)) m"
      by (cases "m = fname (files s ! i)") (auto, metis not_Some_eq)
  qed
qed

lemma no_free_slot:
  assumes w: "ramfs_wf s"
  shows "first_slot (\<lambda>f. \<not> fin_use f) (files s) = None \<longleftrightarrow> file_count s = 32"
proof -
  have l: "length (files s) = 32" and c: "unat (file_count s) = length (filter fin_use (files s))"
    using w by (simp_all add: ramfs_wf_def count_slots_def)
  have "length (filter fin_use (files s)) = 32 \<longleftrightarrow> (\<forall>f\<in>set (files s). fin_use f)"
    using length_filter_less [of _ "files s" fin_use] filter_True [of "files s" fin_use] l by fastforce
  then show ?thesis
    using l c by (auto simp: first_slot_None all_set_conv_all_nth word_unat_eq_iff)
qed

lemma write_spec:
  assumes w: "ramfs_wf s" and c: "clean_name name" and m: "ramfs_map s (pad_name 16 name) = Some c"
    and off: "unat offset < 4096" and len: "unat len \<le> length data"
  shows "\<exists>i s'. find_file name s = Some i \<and> ramfs_write name data len offset s = (s', int (min (unat len) (4096 - unat offset)))
    \<and> ramfs_wf s' \<and> ramfs_map s' = (ramfs_map s)(pad_name 16 name \<mapsto>
        take (max (length c) (unat offset + min (unat len) (4096 - unat offset)))
          (take (unat offset) (fdata (files s ! i)) @ take (min (unat len) (4096 - unat offset)) data
           @ drop (unat offset + min (unat len) (4096 - unat offset)) (fdata (files s ! i))))"
proof -
  let ?k = "min (unat len) (4096 - unat offset)"
  obtain i where i: "find_file name s = Some i" using find_file_map(1) [OF w c] m by force
  define f where "f = files s ! i"
  have fi: "i < 32" "fin_use f" "fname f = pad_name 16 name" "content f = c"
    using find_file_map(2) [OF w c i] m by (simp_all add: f_def)
  have fw: "file_wf f" using wf_file [OF w fi(1)] by (simp add: f_def)
  have lc: "length c = unat (fsize f)"
    using fi(4) fw by (auto simp: content_def file_wf_def word_le_nat_alt)
  define copy_len where "copy_len = (if RAMFS_MAX_SIZE - offset < len then RAMFS_MAX_SIZE - offset else len)"
  have "unat (RAMFS_MAX_SIZE - offset) = 4096 - unat offset"
    using off by (subst unat_sub) (simp_all add: word_le_nat_alt)
  then have k: "unat copy_len = ?k" by (simp add: copy_len_def word_less_nat_alt)
  have e: "unat (offset + copy_len) = unat offset + ?k"
    using off k by (simp add: unat_word_ariths)
  define D where "D = memcpy (fdata f) (unat offset) data 0 ?k"
  define f2 where "f2 = f\<lparr>fdata := D, fsize := (if fsize f < offset + copy_len then offset + copy_len else fsize f)\<rparr>"
  have "(let f1 = f\<lparr>fdata := memcpy (fdata f) (unat offset) data 0 (unat (offset + copy_len) - unat offset)\<rparr>
      in if fsize f1 < offset + copy_len then f1\<lparr>fsize := offset + copy_len\<rparr> else f1) = f2"
    using e by (simp add: f2_def D_def Let_def)
  note f2_eq = this
  have md: "D = take (unat offset) (fdata f) @ take ?k data @ drop (unat offset + ?k) (fdata f)"
    unfolding D_def using fw off len by (subst memcpy_eq) (auto simp: file_wf_def)
  have sz: "unat (fsize f2) = max (length c) (unat offset + ?k)"
    using e lc by (simp add: f2_def word_less_nat_alt max_def)
  have kb: "unat offset + ?k \<le> 4096" using off by linarith
  have "unat (fsize f2) \<le> 4096" unfolding sz using kb lc fw by (simp add: file_wf_def word_le_nat_alt)
  then have f2: "file_wf f2" "fin_use f2" "fname f2 = pad_name 16 name"
    using fw fi by (simp_all add: file_wf_def word_le_nat_alt D_def f2_def)
  have ct: "content f2 = take (max (length c) (unat offset + ?k))
      (take (unat offset) (fdata f) @ take ?k data @ drop (unat offset + ?k) (fdata f))"
    unfolding content_def sz md [symmetric] by (simp add: f2_def)
  have "i32 (uint copy_len) = int ?k"
    using k off by (subst i32_id) (auto simp: uint_nat)
  then have "ramfs_write name data len offset s = (set_file s i f2, int ?k)"
    unfolding f2_eq [symmetric] copy_len_def f_def
    using i off by (simp add: ramfs_write_def Let_def word_le_nat_alt)
  moreover have "ramfs_wf (set_file s i f2)" "ramfs_map (set_file s i f2) = (ramfs_map s)(fname f2 \<mapsto> content f2)"
    using map_update [OF w fi(1) _ f2(1,2)] fi f2(3) by (simp_all add: f_def)
  ultimately show ?thesis using i ct f2(3) by (auto simp: f_def)
qed

lemma read_spec:
  assumes w: "ramfs_wf s" and c: "clean_name name" and m: "ramfs_map s (pad_name 16 name) = Some c"
    and no: "unat offset + unat len < 2 ^ 32"
  shows "ramfs_read name buf len offset s =
    (if length c \<le> unat offset then (buf, 0)
     else (memcpy buf 0 c (unat offset) (length (take (unat len) (drop (unat offset) c))),
           int (length (take (unat len) (drop (unat offset) c)))))"
proof -
  obtain i where i: "find_file name s = Some i" using find_file_map(1) [OF w c] m by force
  define f where "f = files s ! i"
  have fi: "i < 32" "content f = c" using find_file_map(2) [OF w c i] m by (simp_all add: f_def)
  have fw: "file_wf f" using wf_file [OF w fi(1)] by (simp add: f_def)
  then have lc: "length c = unat (fsize f)" and l4: "unat (fsize f) \<le> 4096" "length (fdata f) = 4096"
    using fi(2) by (auto simp: content_def file_wf_def word_le_nat_alt)
  define ee where "ee = (if fsize f < offset + len then fsize f else offset + len)"
  have ue: "unat ee = min (unat (fsize f)) (unat offset + unat len)"
    using no by (simp add: ee_def word_less_nat_alt unat_word_ariths)
  have le: "length (take (unat len) (drop (unat offset) c)) = unat ee - unat offset"
    using lc ue by simp
  show ?thesis
  proof (cases "fsize f \<le> offset")
    case True
    then show ?thesis using i lc by (simp add: ramfs_read_def f_def word_le_nat_alt)
  next
    case False
    then have o: "unat offset < length c" using lc by (simp add: word_le_nat_alt)
    then have oe: "unat offset \<le> unat ee" using ue lc by simp
    then have "unat (ee - offset) = unat ee - unat offset" by (intro unat_sub) (simp add: word_le_nat_alt)
    moreover have "unat ee \<le> 4096" using ue l4 by simp
    ultimately have r: "i32 (uint (ee - offset)) = int (unat ee - unat offset)"
      by (subst i32_id) (auto simp: uint_nat)
    have "memcpy buf 0 (fdata f) (unat offset) n = memcpy buf 0 c (unat offset) n" if "unat offset + n \<le> length c" for n
    proof -
      have "q + n \<le> length c \<Longrightarrow> memcpy_loop n p q b (fdata f) = memcpy_loop n p q b c" for n p q b
        using fi(2) by (induction n arbitrary: p q b) (auto simp: content_def)
      then show ?thesis using that by (simp add: memcpy_def)
    qed
    moreover have "unat offset + (unat ee - unat offset) \<le> length c" using oe ue lc by simp
    ultimately show ?thesis
      using i False o r le by (simp add: ramfs_read_def f_def [symmetric] ee_def [symmetric] Let_def)
  qed
qed

lemma pad_raw_name: "pad_name n (raw_name n name) = pad_name n name"
proof -
  define j where "j = length (takeWhile (\<lambda>j. cbyte name j \<noteq> 0) [0..<n])"
  have c: "cbyte (raw_name n name) i = cbyte name i" if "i < n" for i
    using that by (simp add: raw_name_def cbyte_def [of "map (cbyte name) [0..<n]"])
  have e: "takeWhile (\<lambda>j. cbyte (raw_name n name) j \<noteq> 0) [0..<n] = takeWhile (\<lambda>j. cbyte name j \<noteq> 0) [0..<n]"
    by (rule takeWhile_cong) (auto simp: c)
  have "j \<le> n" using length_takeWhile_upt [OF j_def [symmetric]] by simp
  then have "map (cbyte (raw_name n name)) [0..<j] = map (cbyte name) [0..<j]"
    by (intro map_cong) (auto intro: c)
  then show ?thesis unfolding pad_name_def e Let_def j_def [symmetric] by simp
qed

lemma find_file_dirty:
  assumes "list_all file_wf (files s)" and "\<not> clean_name name"
  shows "find_file name s = None"
proof -
  have "\<not> (fin_use f \<and> same_name 16 (fname f) name)" if "f \<in> set (files s)" for f
  proof
    assume a: "fin_use f \<and> same_name 16 (fname f) name"
    have f: "length (fname f) = 16" "pad_name 16 (fname f) = fname f"
      using assms(1) that a by (auto simp: list_all_iff file_wf_def)
    then have "fname f = raw_name 16 name" using a by (simp add: same_name_iff raw_name_id)
    with f(2) have "clean_name name" using pad_raw_name [of 16 name] by (simp add: clean_name_def)
    then show False using assms(2) by simp
  qed
  then show ?thesis by (simp add: find_file_def first_slot_None)
qed

section \<open>Properties\<close>

text \<open>
  C30. On a well-formed table and a clean name buffer, \<^verbatim>\<open>ramfs_create\<close> and \<^verbatim>\<open>ramfs_delete\<close> implement a
  map from names to contents with at most 32 entries: creating an existing file changes nothing,
  creating a new one adds it empty unless the table is full, deleting removes exactly that name; both
  keep the table well formed.
\<close>

theorem ramfs_create_delete:
  assumes w: "ramfs_wf s" and c: "clean_name name"
  shows "(case ramfs_create name s of (s', r) \<Rightarrow> ramfs_wf s' \<and>
      (if ramfs_map s (pad_name 16 name) \<noteq> None then s' = s \<and> r = RAMFS_OK
       else if file_count s = 32 then s' = s \<and> r = RAMFS_ERR_FULL
       else r = RAMFS_OK \<and> ramfs_map s' = (ramfs_map s)(pad_name 16 name \<mapsto> [])))
    \<and> (case ramfs_delete name s of (s', r) \<Rightarrow> ramfs_wf s' \<and>
      (if ramfs_map s (pad_name 16 name) = None then s' = s \<and> r = RAMFS_ERR_NOTFOUND
       else r = RAMFS_OK \<and> ramfs_map s' = (ramfs_map s)(pad_name 16 name := None)))"
proof (cases "find_file name s")
  case None
  then have n: "ramfs_map s (pad_name 16 name) = None" using find_file_map(1) [OF w c] by simp
  show ?thesis
  proof (cases "first_slot (\<lambda>f. \<not> fin_use f) (files s)")
    case None
    then show ?thesis
      using \<open>find_file name s = None\<close> n w no_free_slot [OF w] by (simp add: ramfs_create_def ramfs_delete_def)
  next
    case (Some i)
    then have "i < 32" "\<not> fin_use (files s ! i)" using wf_length [OF w] by (simp_all add: first_slot_Some)
    from map_create [OF w this n] show ?thesis
      using \<open>find_file name s = None\<close> Some n w no_free_slot [OF w] by (simp add: ramfs_create_def ramfs_delete_def)
  qed
next
  case (Some i)
  from find_file_map(2) [OF w c Some] map_delete [OF w, of i] Some w show ?thesis
    by (simp add: ramfs_create_def ramfs_delete_def)
qed

text \<open>
  C14. Write then read: writing \<open>len\<close> bytes at an offset inside or at the end of a file stores as many
  of them as fit below 4096, replaces exactly that range and returns their number; reading that range
  back returns the bytes just written and leaves the rest of the caller's buffer alone.
\<close>

theorem ramfs_write_read:
  assumes w: "ramfs_wf s" and c: "clean_name name" and m: "ramfs_map s (pad_name 16 name) = Some c"
    and off: "unat offset \<le> length c" "unat offset < 4096" and len: "unat len \<le> length data"
    and d: "d = take (min (unat len) (4096 - unat offset)) data" "length d \<le> length buf"
    and wr: "ramfs_write name data len offset s = (s', r)"
  shows "r = int (length d) \<and> ramfs_wf s'
    \<and> ramfs_map s' = (ramfs_map s)(pad_name 16 name \<mapsto> take (unat offset) c @ d @ drop (unat offset + length d) c)
    \<and> ramfs_read name buf (of_nat (length d)) offset s' = (d @ drop (length d) buf, int (length d))"
proof -
  let ?k = "min (unat len) (4096 - unat offset)"
  have ld: "?k = length d" using d(1) len by simp
  obtain i s1 where i: "find_file name s = Some i" and W: "ramfs_write name data len offset s = (s1, int ?k)"
      and w1: "ramfs_wf s1" and M: "ramfs_map s1 = (ramfs_map s)(pad_name 16 name \<mapsto>
        take (max (length c) (unat offset + ?k))
          (take (unat offset) (fdata (files s ! i)) @ take ?k data @ drop (unat offset + ?k) (fdata (files s ! i))))"
    using write_spec [OF w c m off(2) len] by blast
  have dd: "take (length d) data = d" using d(1) unfolding ld by (rule sym)
  have "s' = s1" "r = int ?k" using wr W by simp_all
  then have ww: "r = int (length d)" "ramfs_wf s'"
      "ramfs_map s' = (ramfs_map s)(pad_name 16 name \<mapsto> take (max (length c) (unat offset + length d))
          (take (unat offset) (fdata (files s ! i)) @ d @ drop (unat offset + length d) (fdata (files s ! i))))"
    using w1 M unfolding ld dd by simp_all
  have l4: "length d + unat offset \<le> 4096" using off(2) unfolding ld [symmetric] by linarith
  define f where "f = files s ! i"
  have fi: "i < 32" "content f = c" using find_file_map(2) [OF w c i] m by (simp_all add: f_def)
  have l: "length (fdata f) = 4096" "unat (fsize f) \<le> 4096"
    using wf_file [OF w fi(1)] by (simp_all add: f_def file_wf_def word_le_nat_alt)
  have ct: "c = take (unat (fsize f)) (fdata f)" "length c = unat (fsize f)" using fi(2) l by (auto simp: content_def)
  have "take (unat offset) (fdata f) = take (unat offset) c" using ct off(1) by (simp add: min_def)
  moreover have "take (length c - (unat offset + length d)) (drop (unat offset + length d) (fdata f)) = drop (unat offset + length d) c"
    unfolding ct(2) by (subst ct(1)) (simp add: drop_take)
  ultimately have new: "take (max (length c) (unat offset + length d))
          (take (unat offset) (fdata f) @ d @ drop (unat offset + length d) (fdata f))
      = take (unat offset) c @ d @ drop (unat offset + length d) c"
    using off(1) ct(2) l by (simp add: max_def) arith
  let ?c = "take (unat offset) c @ d @ drop (unat offset + length d) c"
  have m': "ramfs_map s' (pad_name 16 name) = Some ?c" using ww(3) new by (simp add: f_def)
  have "unat (of_nat (length d) :: u32) = length d" using l4 by (simp add: unsigned_of_nat take_bit_nat_eq_self)
  moreover have "unat offset + length d < 2 ^ 32" using l4 by simp
  moreover have "take (length d) (drop (unat offset) ?c) = d" using off(1) by simp
  ultimately have "ramfs_read name buf (of_nat (length d)) offset s' = (d @ drop (length d) buf, int (length d))"
    using read_spec [OF ww(2) c m', of offset "of_nat (length d)" buf] d(2) off(1)
    by (cases "d = []") (auto simp: memcpy_eq)
  then show ?thesis using ww new by (simp add: f_def)
qed

text \<open>
  What the 16-byte comparison costs: a name buffer with other bytes behind its terminator is never
  found.  \<^verbatim>\<open>ramfs_create\<close> still reports success and takes a slot each time, but the file it made cannot
  be found under that buffer.
\<close>

theorem ramfs_dirty_name:
  assumes "ramfs_wf s" and "\<not> clean_name name" and "file_count s \<noteq> 32"
    and "ramfs_create name s = (s', r)"
  shows "r = RAMFS_OK \<and> file_count s' = file_count s + 1 \<and> \<not> ramfs_exists name s'
    \<and> snd (ramfs_read name buf len offset s') = RAMFS_ERR_NOTFOUND"
proof -
  obtain i where i: "first_slot (\<lambda>f. \<not> fin_use f) (files s) = Some i"
    using no_free_slot [OF assms(1)] assms(3) by (cases "first_slot (\<lambda>f. \<not> fin_use f) (files s)") auto
  have w: "list_all file_wf (files s)" using assms(1) by (simp add: ramfs_wf_def)
  define f where "f = (files s ! i)\<lparr>fname := pad_name 16 name, fsize := 0, fin_use := True\<rparr>"
  have s': "s' = (set_file s i f)\<lparr>file_count := file_count s + 1\<rparr>" "r = RAMFS_OK"
    using assms(4) i find_file_dirty [OF w assms(2)] by (simp_all add: ramfs_create_def f_def)
  have "i < 32" using i wf_length [OF assms(1)] by (simp add: first_slot_Some)
  then have "file_wf f" using wf_file [OF assms(1)] by (simp add: f_def file_wf_def)
  then have "list_all file_wf (files s')" using w s'(1) by (simp add: list_all_update)
  then have "find_file name s' = None" using assms(2) by (rule find_file_dirty)
  then show ?thesis using s' by (simp add: ramfs_exists_def ramfs_read_def)
qed

lemma read_wraps:
  assumes w: "ramfs_wf s" and c: "clean_name name" and m: "ramfs_map s (pad_name 16 name) = Some c"
    and off: "0 < unat offset" "unat offset < length c"
  shows "ramfs_read name buf (- offset) offset s = (buf, - int (unat offset))"
proof -
  obtain i where i: "find_file name s = Some i" using find_file_map(1) [OF w c] m by force
  have f: "i < 32" "content (files s ! i) = c" using find_file_map(2) [OF w c i] m by simp_all
  have fw: "length (fdata (files s ! i)) = 4096" "unat (fsize (files s ! i)) \<le> 4096"
    using wf_file [OF w f(1)] by (simp_all add: file_wf_def word_le_nat_alt)
  have l: "length c = unat (fsize (files s ! i))" unfolding f(2) [symmetric] content_def using fw by simp
  have lt: "\<not> fsize (files s ! i) \<le> offset" using off l by (simp add: word_le_nat_alt)
  have "int (unat offset) < 4096" using off l fw by linarith
  then have "uint offset < 4096" by simp
  moreover have "0 \<le> uint offset" by simp
  ultimately have "- 2147483648 \<le> - uint offset" "- uint offset < 2147483648"
    by linarith+
  then have "i32 (uint (0 - offset)) = - int (unat offset)"
    unfolding i32_uint_diff by (simp add: i32_id)
  then show ?thesis
    using i lt by (simp add: ramfs_read_def Let_def memcpy_def)
qed

lemma stale_write:
  assumes w: "ramfs_wf s" and c: "clean_name name" and n: "ramfs_map s (pad_name 16 name) = None"
    and i: "first_slot (\<lambda>f. \<not> fin_use f) (files s) = Some i" and off: "unat offset < 4096"
    and cr: "ramfs_create name s = (s1, RAMFS_OK)" and wr: "ramfs_write name [b] 1 offset s1 = (s2, r)"
  shows "ramfs_map s2 (pad_name 16 name) = Some (take (unat offset) (fdata (files s ! i)) @ [b])"
proof -
  have nf: "find_file name s = None" using find_file_map(1) [OF w c] n by simp
  have i32: "i < 32" "\<not> fin_use (files s ! i)" using i wf_length [OF w] by (simp_all add: first_slot_Some)
  have s1: "s1 = (set_file s i ((files s ! i)\<lparr>fname := pad_name 16 name, fsize := 0, fin_use := True\<rparr>))\<lparr>file_count := file_count s + 1\<rparr>"
    using cr nf i by (simp add: ramfs_create_def)
  have m: "ramfs_wf s1" "ramfs_map s1 (pad_name 16 name) = Some []"
    using map_create [OF w i32 n] s1 by simp_all
  have mn: "min (unat (1 :: u32)) (4096 - unat offset) = 1" using off by simp
  obtain j s3 where j: "find_file name s1 = Some j" "ramfs_write name [b] 1 offset s1 = (s3, int 1)"
      "ramfs_map s3 = (ramfs_map s1)(pad_name 16 name \<mapsto> take (max (length ([] :: bytes)) (unat offset + 1))
          (take (unat offset) (fdata (files s1 ! j)) @ take 1 [b] @ drop (unat offset + 1) (fdata (files s1 ! j))))"
    using write_spec [OF m(1) c m(2) off, of 1 "[b]"] unfolding mn by auto
  have u: "fin_use (files s1 ! i)" "fname (files s1 ! i) = pad_name 16 name" "fdata (files s1 ! i) = fdata (files s ! i)"
    using s1 i32 wf_length [OF w] by simp_all
  have "j = i"
    using wf_unique [OF m(1), of j i] find_file_map(2) [OF m(1) c j(1)] i32 u(1,2) by simp
  then have "fdata (files s1 ! j) = fdata (files s ! i)" "length (fdata (files s ! i)) = 4096"
    using u(3) wf_file [OF w i32(1)] by (simp_all add: file_wf_def)
  moreover have "s3 = s2" using j(2) wr by simp
  ultimately show ?thesis using j(3) off by simp
qed

text \<open>
  Two edges of the size arithmetic: a read whose \<^verbatim>\<open>offset + len\<close> wraps to 0 returns minus the
  offset although the file and the offset are valid; and a write beyond the end of a fresh file makes
  the bytes a previous file left in the slot part of the new file.
\<close>

theorem ramfs_edges:
  assumes "ramfs_wf s" and "clean_name name"
  shows "(\<forall>c. ramfs_map s (pad_name 16 name) = Some c \<and> 0 < unat offset \<and> unat offset < length c \<longrightarrow>
        ramfs_read name buf (- offset) offset s = (buf, - int (unat offset)))
    \<and> (\<forall>i s1 s2 r. ramfs_map s (pad_name 16 name) = None \<and> first_slot (\<lambda>f. \<not> fin_use f) (files s) = Some i
        \<and> ramfs_create name s = (s1, RAMFS_OK) \<and> unat offset < 4096
        \<and> ramfs_write name [b] 1 offset s1 = (s2, r) \<longrightarrow>
        ramfs_map s2 (pad_name 16 name) = Some (take (unat offset) (fdata (files s ! i)) @ [b]))"
  using read_wraps [OF assms] stale_write [OF assms] by blast

section \<open>Examples\<close>

definition ramfs_boot :: ramfs where
  "ramfs_boot = fst (ramfs_init ramfs_statics)"

definition ramfs_notes :: ramfs where
  "ramfs_notes = fst (ramfs_create (str ''notes'') ramfs_boot)"

lemma ramfs_boot_wf: "ramfs_wf ramfs_boot" "file_count ramfs_boot = 0" "ramfs_map ramfs_boot n = None"
    "first_slot (\<lambda>f. \<not> fin_use f) (files ramfs_boot) = Some 0" "fdata (files ramfs_boot ! 0) = replicate 4096 0"
proof -
  have b: "ramfs_boot = \<lparr>files = replicate 32 \<lparr>fname = replicate 16 0, fsize = 0, fin_use = False,
      fdata = replicate 4096 0\<rparr>, file_count = 0\<rparr>"
    by (simp add: ramfs_boot_def ramfs_init_def ramfs_statics_def)
  show w: "ramfs_wf ramfs_boot"
    by (simp add: b ramfs_wf_def file_wf_def names_unique_def list_all_iff count_slots_def)
  show "file_count ramfs_boot = 0" by (simp add: b)
  show "first_slot (\<lambda>f. \<not> fin_use f) (files ramfs_boot) = Some 0"
    by (simp add: b first_slot_Some)
  show "fdata (files ramfs_boot ! 0) = replicate 4096 0" by (simp add: b)
  show "ramfs_map ramfs_boot n = None"
    unfolding ramfs_map_None [OF w] by (simp add: b)
qed

lemma notes_clean: "clean_name (str ''notes'')"
  by code_simp

lemma ramfs_notes_facts: "ramfs_create (str ''notes'') ramfs_boot = (ramfs_notes, RAMFS_OK)"
    "ramfs_wf ramfs_notes" "ramfs_map ramfs_notes (pad_name 16 (str ''notes'')) = Some []"
proof -
  obtain s' r where c: "ramfs_create (str ''notes'') ramfs_boot = (s', r)"
    by (cases "ramfs_create (str ''notes'') ramfs_boot")
  then have n: "ramfs_notes = s'" by (simp add: ramfs_notes_def)
  have f: "find_file (str ''notes'') ramfs_boot = None"
    using find_file_map(1) [OF ramfs_boot_wf(1) notes_clean] ramfs_boot_wf(3) by simp
  have r: "r = RAMFS_OK" "s' = (set_file ramfs_boot 0 ((files ramfs_boot ! 0)\<lparr>fname := pad_name 16 (str ''notes''), fsize := 0,
      fin_use := True\<rparr>))\<lparr>file_count := file_count ramfs_boot + 1\<rparr>"
    using c by (simp_all add: ramfs_create_def f ramfs_boot_wf(4))
  have "\<not> fin_use (files ramfs_boot ! 0)" using ramfs_boot_wf(4) by (simp add: first_slot_Some)
  from map_create [OF ramfs_boot_wf(1) _ this ramfs_boot_wf(3), of "str ''notes''", folded r(2)] r(1) c
  show "ramfs_create (str ''notes'') ramfs_boot = (ramfs_notes, RAMFS_OK)" "ramfs_wf ramfs_notes"
    "ramfs_map ramfs_notes (pad_name 16 (str ''notes'')) = Some []" unfolding n by simp_all
qed

theorem ramfs_create_delete_witness:
  "ramfs_wf ramfs_boot \<and> clean_name (str ''notes'')
   \<and> ramfs_map (fst (ramfs_create (str ''notes'') ramfs_boot)) (pad_name 16 (str ''notes'')) = Some []
   \<and> snd (ramfs_delete (str ''notes'') ramfs_boot) = RAMFS_ERR_NOTFOUND"
  using ramfs_create_delete [OF ramfs_boot_wf(1) notes_clean] ramfs_boot_wf notes_clean
  by (simp add: split_beta)

theorem ramfs_write_read_witness:
  "\<exists>s'. ramfs_write (str ''notes'') [1, 2, 3] 3 0 ramfs_notes = (s', 3)
     \<and> ramfs_map s' (pad_name 16 (str ''notes'')) = Some [1, 2, 3]
     \<and> ramfs_read (str ''notes'') [9, 9, 9, 9] 3 0 s' = ([1, 2, 3, 9], 3)"
proof -
  obtain s' r where w: "ramfs_write (str ''notes'') [1, 2, 3] 3 0 ramfs_notes = (s', r)"
    by (cases "ramfs_write (str ''notes'') [1, 2, 3] 3 0 ramfs_notes")
  from ramfs_write_read [OF ramfs_notes_facts(2) notes_clean ramfs_notes_facts(3) _ _ _ refl _ w, of "[9, 9, 9, 9]"] w
  show ?thesis by simp
qed

theorem ramfs_dirty_name_witness:
  "\<not> clean_name [97, 0, 1] \<and> snd (ramfs_create [97, 0, 1] ramfs_boot) = RAMFS_OK
   \<and> \<not> ramfs_exists [97, 0, 1] (fst (ramfs_create [97, 0, 1] ramfs_boot))"
proof -
  obtain s' r where c: "ramfs_create [97, 0, 1] ramfs_boot = (s', r)" by (cases "ramfs_create [97, 0, 1] ramfs_boot")
  have d: "\<not> clean_name [97, 0, 1]" by code_simp
  from ramfs_dirty_name [OF ramfs_boot_wf(1) d _ c] d c ramfs_boot_wf(2) show ?thesis by simp
qed

theorem ramfs_edges_witness:
  "\<exists>s1 s2 r. ramfs_create (str ''notes'') ramfs_boot = (s1, RAMFS_OK)
     \<and> ramfs_write (str ''notes'') [7] 1 2 s1 = (s2, r)
     \<and> ramfs_map s2 (pad_name 16 (str ''notes'')) = Some [0, 0, 7]"
proof -
  obtain s2 r where w: "ramfs_write (str ''notes'') [7] 1 2 ramfs_notes = (s2, r)"
    by (cases "ramfs_write (str ''notes'') [7] 1 2 ramfs_notes")
  have "ramfs_map s2 (pad_name 16 (str ''notes'')) = Some (take (unat (2 :: u32)) (fdata (files ramfs_boot ! 0)) @ [7])"
    using ramfs_edges [OF ramfs_boot_wf(1) notes_clean, of 2 "[]" 7] w ramfs_notes_facts(1) ramfs_boot_wf(3,4) by simp
  moreover have "replicate 2 0 = [0, 0 :: u8]" by (simp add: numeral_2_eq_2)
  then have "take (unat (2 :: u32)) (replicate 4096 0) = [0, 0 :: u8]" by (simp add: take_replicate)
  ultimately have "ramfs_map s2 (pad_name 16 (str ''notes'')) = Some [0, 0, 7]"
    unfolding ramfs_boot_wf(5) by simp
  then show ?thesis using w ramfs_notes_facts(1) by blast
qed

end
