(* ===== verification/Bytes.thy ===== *)
theory Bytes
  imports Prelude
begin

text \<open>
  Byte-level views of memory: integers as little-endian or big-endian byte sequences, and loads and
  stores of byte sequences at an address of a memory.  The on-disk structures, the virtqueues, the
  device tree and the network headers are read and written through these.
\<close>

section \<open>Integers as bytes\<close>

definition le_bytes :: "nat \<Rightarrow> 'a::len word \<Rightarrow> bytes" where
  "le_bytes n w = map (\<lambda>i. ucast (drop_bit (8 * i) w)) [0..<n]"

definition le_word :: "bytes \<Rightarrow> 'a::len word" where
  "le_word bs = foldr (\<lambda>b w. push_bit 8 w OR ucast b) bs 0"

definition be_bytes :: "nat \<Rightarrow> 'a::len word \<Rightarrow> bytes" where
  "be_bytes n w = rev (le_bytes n w)"

definition be_word :: "bytes \<Rightarrow> 'a::len word" where
  "be_word bs = le_word (rev bs)"

lemma length_le_bytes [simp]: "length (le_bytes n w) = n"
  by (simp add: le_bytes_def)

lemma length_be_bytes [simp]: "length (be_bytes n w) = n"
  by (simp add: be_bytes_def)

lemma le_word_Cons: "le_word (b # bs) = push_bit 8 (le_word bs) OR ucast b"
  by (simp add: le_word_def)

lemma bit_le_word:
  "bit (le_word bs :: 'a::len word) i \<longleftrightarrow>
     i < LENGTH('a) \<and> i < 8 * length bs \<and> bit (bs ! (i div 8)) (i mod 8)"
proof (induction bs arbitrary: i)
  case (Cons b bs)
  show ?case
  proof (cases "i < 8")
    case True
    then show ?thesis by (auto simp: le_word_Cons bit_simps)
  next
    case False
    then have "i div 8 = Suc ((i - 8) div 8)" "i mod 8 = (i - 8) mod 8"
      by (simp_all add: le_div_geq le_mod_geq)
    moreover have "\<not> bit b i" using False by (auto dest: bit_imp_le_length)
    ultimately show ?thesis
      using False by (auto simp: le_word_Cons bit_simps Cons.IH)
  qed
qed (simp add: le_word_def)

lemma le_word_le_bytes_take: "le_word (le_bytes n (w :: 'a::len word)) = take_bit (8 * n) w"
proof (rule bit_word_eqI)
  fix i
  assume "i < LENGTH('a)"
  have "8 * (i div 8) + i mod 8 = i" by simp
  moreover have "i div 8 < n" if "i < 8 * n" using that by auto
  ultimately show "bit (le_word (le_bytes n w) :: 'a word) i \<longleftrightarrow> bit (take_bit (8 * n) w) i"
    using \<open>i < LENGTH('a)\<close> by (auto simp: bit_le_word le_bytes_def bit_simps)
qed

lemma le_word_le_bytes: "LENGTH('a) \<le> 8 * n \<Longrightarrow> le_word (le_bytes n (w :: 'a::len word)) = w"
  by (simp add: le_word_le_bytes_take take_bit_word_eq_self)

lemma be_word_be_bytes: "LENGTH('a) \<le> 8 * n \<Longrightarrow> be_word (be_bytes n (w :: 'a::len word)) = w"
  by (simp add: be_word_def be_bytes_def le_word_le_bytes)

lemma le_word_16 [simp]: "le_word (le_bytes 2 w) = (w :: u16)"
  by (rule le_word_le_bytes) simp

lemma le_word_32 [simp]: "le_word (le_bytes 4 w) = (w :: u32)"
  by (rule le_word_le_bytes) simp

lemma le_word_64 [simp]: "le_word (le_bytes 8 w) = (w :: u64)"
  by (rule le_word_le_bytes) simp

lemma be_word_16 [simp]: "be_word (be_bytes 2 w) = (w :: u16)"
  by (rule be_word_be_bytes) simp

lemma be_word_32 [simp]: "be_word (be_bytes 4 w) = (w :: u32)"
  by (rule be_word_be_bytes) simp

lemma le_bytes_le_word:
  assumes "length bs = n" and "8 * n \<le> LENGTH('a)"
  shows "le_bytes n (le_word bs :: 'a::len word) = bs"
proof (rule nth_equalityI)
  fix i
  assume i: "i < length (le_bytes n (le_word bs :: 'a word))"
  show "le_bytes n (le_word bs :: 'a word) ! i = bs ! i"
  proof (rule bit_word_eqI)
    fix j
    assume "j < LENGTH(8)"
    then have j: "j < 8" by simp
    have "8 * i + j < 8 * n" using i j by simp
    moreover have "(8 * i + j) div 8 = i" "(8 * i + j) mod 8 = j" using j by simp_all
    ultimately show "bit (le_bytes n (le_word bs :: 'a word) ! i) j \<longleftrightarrow> bit (bs ! i) j"
      using i j assms by (simp add: le_bytes_def bit_simps bit_le_word)
  qed
qed (simp add: assms)

section \<open>Memory\<close>

type_synonym memory = "u64 \<Rightarrow> u8"

definition peek :: "nat \<Rightarrow> memory \<Rightarrow> u64 \<Rightarrow> bytes" where
  "peek n m a = map (\<lambda>i. m (a + of_nat i)) [0..<n]"

definition poke :: "u64 \<Rightarrow> bytes \<Rightarrow> memory \<Rightarrow> memory" where
  "poke a bs m = (\<lambda>x. if unat (x - a) < length bs then bs ! unat (x - a) else m x)"

text \<open>Two address ranges that do not meet; the ranges may not wrap around.\<close>

definition apart :: "u64 \<Rightarrow> nat \<Rightarrow> u64 \<Rightarrow> nat \<Rightarrow> bool" where
  "apart a n b k \<longleftrightarrow> unat a + n \<le> unat b \<or> unat b + k \<le> unat a"

lemma length_peek [simp]: "length (peek n m a) = n"
  by (simp add: peek_def)

lemma peek_poke_same:
  assumes "length bs < 2 ^ 64" "n = length bs"
  shows "peek n (poke a bs m) a = bs"
  using assms by (auto simp: peek_def poke_def unsigned_of_nat take_bit_nat_eq_self intro!: nth_equalityI)

lemma unat_add_small: "unat a + i < 2 ^ 64 \<Longrightarrow> unat (a + of_nat i :: u64) = unat a + i"
  by (simp add: unat_word_ariths unsigned_of_nat take_bit_nat_eq_self)

lemma unat_and_not_mask:
  fixes x :: u64
  assumes "k < 64"
  shows "unat (x AND NOT (mask k)) = unat x div 2 ^ k * 2 ^ k"
proof -
  have "x AND NOT (mask k) = push_bit k (drop_bit k x)"
    by (rule bit_word_eqI) (auto simp: bit_simps)
  moreover have "unat (push_bit k (drop_bit k x)) = take_bit 64 (unat x div 2 ^ k * 2 ^ k)"
    unfolding unsigned_push_bit_eq unsigned_drop_bit_eq 
    by (simp add: push_bit_eq_mult drop_bit_eq_div take_bit_nat_eq_self unsigned_less [of x, where ?'a = nat, simplified])
  moreover have "unat x div 2 ^ k * 2 ^ k < 2 ^ 64"
    by (rule le_less_trans [OF div_times_less_eq_dividend]) (use unsigned_less [of x, where ?'a = nat] in simp)
  ultimately show ?thesis
    by (simp only: take_bit_nat_eq_self)
qed

lemma unat_diff_ge: "\<not> unat (x - a :: u64) < n" if "unat x < unat a \<or> unat a + n \<le> unat x" "unat a + n \<le> 2 ^ 64"
proof (cases "a \<le> x")
  case True
  then show ?thesis using that by (auto simp: unat_sub word_le_nat_alt)
next
  case False
  then have "unat (x - a) = 2 ^ 64 + unat x - unat a"
    by (simp add: unat_sub_if_size word_size word_le_nat_alt)
  then show ?thesis using that(2) by simp
qed

lemma peek_poke_apart:
  assumes "apart a n b (length bs)" "unat a + n \<le> 2 ^ 64" "unat b + length bs \<le> 2 ^ 64"
  shows "peek n (poke b bs m) a = peek n m a"
proof -
  have "poke b bs m (a + of_nat i) = m (a + of_nat i)" if "i < n" for i
  proof -
    have u: "unat (a + of_nat i :: u64) = unat a + i" using that assms(2) by (intro unat_add_small) simp
    have "\<not> unat (a + of_nat i - b) < length bs"
      using assms that by (intro unat_diff_ge) (auto simp: u apart_def)
    then show ?thesis by (simp add: poke_def)
  qed
  then show ?thesis by (simp add: peek_def)
qed

lemma peek_cong: "(\<And>i. i < n \<Longrightarrow> m (a + of_nat i) = m' (a + of_nat i)) \<Longrightarrow> peek n m a = peek n m' a"
  by (simp add: peek_def)

section \<open>Block devices\<close>

text \<open>
  The three calls a file system makes to a block driver, over the driver state \<open>'s\<close>: read and write get the
  first sector, the address and the contents of the caller's buffer and the number of sectors, and return
  the result code and the contents of the buffer afterwards.
\<close>

record 's blk_ops =
  op_read :: "u32 \<Rightarrow> u64 \<Rightarrow> bytes \<Rightarrow> u32 \<Rightarrow> 's \<Rightarrow> int \<times> bytes \<times> 's"
  op_write :: "u32 \<Rightarrow> u64 \<Rightarrow> bytes \<Rightarrow> u32 \<Rightarrow> 's \<Rightarrow> int \<times> bytes \<times> 's"
  op_capacity :: "'s \<Rightarrow> u64"

definition disk_read :: "(nat \<Rightarrow> u8) \<Rightarrow> nat \<Rightarrow> nat \<Rightarrow> bytes" where
  "disk_read disk sec n = map disk [512 * sec..<512 * sec + n]"

definition disk_write :: "(nat \<Rightarrow> u8) \<Rightarrow> nat \<Rightarrow> bytes \<Rightarrow> nat \<Rightarrow> u8" where
  "disk_write disk sec b = (\<lambda>i. if 512 * sec \<le> i \<and> i < 512 * sec + length b then b ! (i - 512 * sec) else disk i)"

lemma length_disk_read [simp]: "length (disk_read disk sec n) = n"
  by (simp add: disk_read_def)

lemma disk_read_write_same: "n \<le> length b \<Longrightarrow> disk_read (disk_write disk sec b) sec n = take n b"
  by (auto simp: disk_read_def disk_write_def intro!: nth_equalityI)

lemma disk_read_write_other:
  assumes "512 * sec + n \<le> 512 * sec' \<or> 512 * sec' + length b \<le> 512 * sec"
  shows "disk_read (disk_write disk sec' b) sec n = disk_read disk sec n"
  using assms by (auto simp: disk_read_def disk_write_def)

text \<open>A sequence of requests to a driver, and the same sequence on the bytes of a disk.\<close>

datatype blk_call = Blk_read u32 u64 bytes u32 | Blk_write u32 u64 bytes u32

fun blk_run :: "'s blk_ops \<Rightarrow> blk_call list \<Rightarrow> 's \<Rightarrow> (int \<times> bytes) list \<times> 's" where
  "blk_run B [] s = ([], s)"
| "blk_run B (c # cs) s =
     (let (rc, out, s') = (case c of Blk_read lba buf data n \<Rightarrow> op_read B lba buf data n s
                           | Blk_write lba buf data n \<Rightarrow> op_write B lba buf data n s);
          (rs, t) = blk_run B cs s'
      in ((rc, out) # rs, t))"

fun disk_run :: "blk_call list \<Rightarrow> (nat \<Rightarrow> u8) \<Rightarrow> (int \<times> bytes) list \<times> (nat \<Rightarrow> u8)" where
  "disk_run [] d = ([], d)"
| "disk_run (Blk_read lba buf data n # cs) d =
     (let (rs, d') = disk_run cs d in ((0, disk_read d (unat lba) (512 * unat n)) # rs, d'))"
| "disk_run (Blk_write lba buf data n # cs) d =
     (let (rs, d') = disk_run cs (disk_write d (unat lba) data) in ((0, data) # rs, d'))"

fun blk_fits :: "nat \<Rightarrow> blk_call \<Rightarrow> bool" where
  "blk_fits k (Blk_read lba buf data n) \<longleftrightarrow>
     0 < n \<and> unat n \<le> 8 \<and> length data = 512 * unat n \<and> unat lba + unat n \<le> k"
| "blk_fits k (Blk_write lba buf data n) \<longleftrightarrow>
     0 < n \<and> unat n \<le> 8 \<and> length data = 512 * unat n \<and> unat lba + unat n \<le> k"

text \<open>
  What a driver promises while it has requests left.  The bound is part of the contract: a driver may be able
  to carry out only a limited number of requests.
\<close>

locale block_device =
  fixes B :: "'s blk_ops"
    and ok :: "'s \<Rightarrow> bool"
    and left :: "'s \<Rightarrow> nat"
    and disk :: "'s \<Rightarrow> nat \<Rightarrow> u8"
    and secs :: "'s \<Rightarrow> nat"
  assumes read_ok: "ok s \<Longrightarrow> 0 < left s \<Longrightarrow> 0 < n \<Longrightarrow> unat n \<le> 8 \<Longrightarrow> length data = 512 * unat n \<Longrightarrow>
          unat lba + unat n \<le> secs s \<Longrightarrow>
          \<exists>s'. op_read B lba buf data n s = (0, disk_read (disk s) (unat lba) (512 * unat n), s') \<and> ok s'
             \<and> left s' = left s - 1 \<and> disk s' = disk s \<and> secs s' = secs s \<and> op_capacity B s' = op_capacity B s"
    and write_ok: "ok s \<Longrightarrow> 0 < left s \<Longrightarrow> 0 < n \<Longrightarrow> unat n \<le> 8 \<Longrightarrow> length data = 512 * unat n \<Longrightarrow>
          unat lba + unat n \<le> secs s \<Longrightarrow>
          \<exists>s'. op_write B lba buf data n s = (0, data, s') \<and> ok s'
             \<and> left s' = left s - 1 \<and> disk s' = disk_write (disk s) (unat lba) data \<and> secs s' = secs s
             \<and> op_capacity B s' = op_capacity B s"

begin

lemma run_refines_disk:
  "ok s \<Longrightarrow> length cs \<le> left s \<Longrightarrow> list_all (blk_fits (secs s)) cs \<Longrightarrow>
     \<exists>s'. blk_run B cs s = (fst (disk_run cs (disk s)), s') \<and> disk s' = snd (disk_run cs (disk s)) \<and> ok s'
       \<and> left s' = left s - length cs"
proof (induction cs arbitrary: s)
  case (Cons c cs)
  have "0 < left s" using Cons.prems(2) by simp
  show ?case
  proof (cases c)
    case (Blk_read lba buf data n)
    then obtain s1 where s1: "op_read B lba buf data n s = (0, disk_read (disk s) (unat lba) (512 * unat n), s1)"
        "ok s1" "left s1 = left s - 1" "disk s1 = disk s" "secs s1 = secs s"
      using read_ok [OF Cons.prems(1) \<open>0 < left s\<close>, of n data lba buf] Cons.prems(3) by auto
    have "length cs \<le> left s1" "list_all (blk_fits (secs s1)) cs" using s1(3,5) Cons.prems(2,3) by simp_all
    from Cons.IH [OF s1(2) this] s1 Cons.prems(2) Blk_read show ?thesis by (auto simp: Let_def split: prod.split)
  next
    case (Blk_write lba buf data n)
    then obtain s1 where s1: "op_write B lba buf data n s = (0, data, s1)"
        "ok s1" "left s1 = left s - 1" "disk s1 = disk_write (disk s) (unat lba) data" "secs s1 = secs s"
      using write_ok [OF Cons.prems(1) \<open>0 < left s\<close>, of n data lba buf] Cons.prems(3) by auto
    have "length cs \<le> left s1" "list_all (blk_fits (secs s1)) cs" using s1(3,5) Cons.prems(2,3) by simp_all
    from Cons.IH [OF s1(2) this] s1 Cons.prems(2) Blk_write show ?thesis by (auto simp: Let_def split: prod.split)
  qed
qed simp

end

end
