(* ===== verification/Virtio.thy ===== *)
theory Virtio
  imports Bytes Uart Pmm
begin

text \<open>
  The virtio-mmio block driver of \<^verbatim>\<open>src/boot/aarch64/virtio.c\<close>.  The driver state holds the fields of
  \<^verbatim>\<open>vblk_dev_t\<close>, the flag \<^verbatim>\<open>modern\<close>, the memory of the ring pages, the state of the device and the console
  output.  The device itself is not part of the kernel: it is a parameter with three functions, a register
  read, a register write, and what it has done to memory by the time the driver stops polling the used ring.
  Barriers and the delay loops have no effect on this state and are left out.
\<close>

section \<open>The device\<close>

record 'd vdev =
  reg_read :: "'d \<Rightarrow> u64 \<Rightarrow> u32 \<Rightarrow> u32"
  reg_write :: "'d \<Rightarrow> u64 \<Rightarrow> u32 \<Rightarrow> u32 \<Rightarrow> 'd"
  dma :: "'d \<Rightarrow> memory \<Rightarrow> u64 \<Rightarrow> bytes \<Rightarrow> 'd \<times> memory \<times> bytes"

section \<open>Driver state\<close>

record vdesc =
  d_addr :: u64
  d_len :: u32
  d_flags :: u16
  d_next :: u16

definition vdesc_bytes :: "vdesc \<Rightarrow> bytes" where
  "vdesc_bytes d =
     le_bytes 8 (d_addr d) @ le_bytes 4 (d_len d) @ le_bytes 2 (d_flags d) @ le_bytes 2 (d_next d)"

definition vdesc_of :: "bytes \<Rightarrow> vdesc" where
  "vdesc_of b =
     \<lparr>d_addr = le_word (take 8 b), d_len = le_word (take 4 (drop 8 b)),
      d_flags = le_word (take 2 (drop 12 b)), d_next = le_word (take 2 (drop 14 b))\<rparr>"

definition req_hdr_bytes :: "u32 \<Rightarrow> u32 \<Rightarrow> u64 \<Rightarrow> bytes" where
  "req_hdr_bytes ty ioprio sector = le_bytes 4 ty @ le_bytes 4 ioprio @ le_bytes 8 sector"

record 'd virtio =
  vb_base :: u64
  vb_qnum :: u32
  vb_desc :: u64
  vb_avail :: u64
  vb_used :: u64
  vb_hdr :: u64
  vb_st :: u64
  vb_ready :: bool
  vb_capacity :: u64
  vb_next_desc :: u16
  vb_next_slot :: u16
  vb_pub_idx :: u16
  vb_modern :: bool
  vb_mem :: memory
  vb_dev :: 'd
  vb_con :: bytes

definition rd32 :: "'d vdev \<Rightarrow> u64 \<Rightarrow> u32 \<Rightarrow> 'd virtio \<Rightarrow> u32" where
  "rd32 V base off s = reg_read V (vb_dev s) base off"

definition wr32 :: "'d vdev \<Rightarrow> u64 \<Rightarrow> u32 \<Rightarrow> u32 \<Rightarrow> 'd virtio \<Rightarrow> 'd virtio" where
  "wr32 V base off v s = s\<lparr>vb_dev := reg_write V (vb_dev s) base off v\<rparr>"

definition vb_say :: "bytes \<Rightarrow> 'd virtio \<Rightarrow> 'd virtio" where
  "vb_say b s = s\<lparr>vb_con := vb_con s @ b\<rparr>"

definition store :: "u64 \<Rightarrow> bytes \<Rightarrow> 'd virtio \<Rightarrow> 'd virtio" where
  "store a b s = s\<lparr>vb_mem := poke a b (vb_mem s)\<rparr>"

definition vblk_capacity :: "'d virtio \<Rightarrow> u64" where
  "vblk_capacity s = (if vb_ready s then vb_capacity s else 0)"

section \<open>Probing and bring-up\<close>



definition vblk_features :: "'d vdev \<Rightarrow> u64 \<Rightarrow> 'd virtio \<Rightarrow> 'd virtio" where
  "vblk_features V base s =
     (let s1 = wr32 V base 0x070 3 (wr32 V base 0x070 1 (wr32 V base 0x070 0 s));
          s2 = (if vb_modern s
                then wr32 V base 0x020 1 (wr32 V base 0x024 1 (wr32 V base 0x020 0 (wr32 V base 0x024 0 s1)))
                else wr32 V base 0x02C 4096 (wr32 V base 0x028 4096 s1))
      in wr32 V base 0x070 11 s2)"

definition vblk_queue :: "'d vdev \<Rightarrow> u64 \<Rightarrow> u64 \<Rightarrow> 'd virtio \<Rightarrow> 'd virtio" where
  "vblk_queue V base qpages s0 =
     (let s = store qpages (replicate 8192 0) s0;
          qn = ucast (vb_qnum s) :: u64;
          avail = qpages + 16 * qn;
          s1 = s\<lparr>vb_base := base, vb_desc := qpages, vb_avail := avail\<rparr>;
          s2 = (if vb_modern s
                then
                  (let avail_pa = (avail + 1) AND NOT 1;
                       used_pa = (avail_pa + 6 + 2 * qn + 3) AND NOT 3
                   in wr32 V base 0x044 1 (wr32 V base 0x0A4 0 (wr32 V base 0x0A0 (ucast used_pa)
                        (wr32 V base 0x094 0 (wr32 V base 0x090 (ucast avail_pa)
                          (wr32 V base 0x084 0 (wr32 V base 0x080 (ucast qpages) (s1\<lparr>vb_used := used_pa\<rparr>))))))))
                else wr32 V base 0x040 (ucast (drop_bit 12 qpages))
                       (s1\<lparr>vb_used := avail + ((6 + 2 * qn + 0xFFF) AND NOT 0xFFF)\<rparr>));
          s3 = s2\<lparr>vb_hdr := qpages + 4096, vb_st := qpages + 4096 + 16\<rparr>
      in store (vb_used s3 + 2) (le_bytes 2 (0 :: u16))
           (store (vb_avail s3 + 2) (le_bytes 2 (0 :: u16)) (store (vb_avail s3) (le_bytes 2 (0 :: u16)) s3)))"



section \<open>Requests\<close>

definition rd_desc :: "memory \<Rightarrow> u64 \<Rightarrow> u32 \<Rightarrow> vdesc" where
  "rd_desc m desc i = vdesc_of (peek 16 m (desc + 16 * ucast i))"

primrec wr_desc_loop :: "nat \<Rightarrow> u32 \<Rightarrow> vdesc \<Rightarrow> 'd virtio \<Rightarrow> 'd virtio" where
  "wr_desc_loop 0 i d s = vb_say (uart_puts (str ''[blk][dbg] desc write did not stick!'')) s"
| "wr_desc_loop (Suc tries) i d s =
     (let s' = store (vb_desc s + 16 * ucast i) (vdesc_bytes d) s
      in if rd_desc (vb_mem s') (vb_desc s') i = d then s' else wr_desc_loop tries i d s')"

definition wr_desc :: "u32 \<Rightarrow> u64 \<Rightarrow> u32 \<Rightarrow> u16 \<Rightarrow> u16 \<Rightarrow> 'd virtio \<Rightarrow> 'd virtio" where
  "wr_desc i addr len flags nxt s =
     wr_desc_loop 4 i \<lparr>d_addr = addr, d_len = len, d_flags = flags, d_next = nxt\<rparr> s"

definition submit_chain :: "u32 \<Rightarrow> u32 \<Rightarrow> u64 \<Rightarrow> u32 \<Rightarrow> 'd virtio \<Rightarrow> 'd virtio" where
  "submit_chain ty lba buf n s =
     (let mask = ucast (vb_qnum s - 1) :: u16;
          head = vb_next_desc s;
          s1 = store (vb_hdr s) (req_hdr_bytes ty 0 (ucast lba)) (s\<lparr>vb_next_desc := head + 3\<rparr>);
          s2 = wr_desc (ucast head) (vb_hdr s1) 16 1 ((head + 1) AND mask) s1;
          s3 = wr_desc (ucast ((head + 1) AND mask)) buf n ((if ty = 0 then 2 else 0) OR 1)
                 ((head + 2) AND mask) s2;
          s4 = wr_desc (ucast ((head + 2) AND mask)) (vb_st s3) 1 2 0 s3
      in store (vb_st s4) [0xEE] s4)"

definition used_idx :: "'d virtio \<Rightarrow> u16" where
  "used_idx s = le_word (peek 2 (vb_mem s) (vb_used s + 2))"

definition submit_audit :: "u16 \<Rightarrow> u64 \<Rightarrow> 'd virtio \<Rightarrow> 'd virtio" where
  "submit_audit head buf s =
     (let mask = ucast (vb_qnum s - 1) :: u16;
          a = rd_desc (vb_mem s) (vb_desc s) (ucast head);
          b = rd_desc (vb_mem s) (vb_desc s) (ucast ((head + 1) AND mask));
          c = rd_desc (vb_mem s) (vb_desc s) (ucast ((head + 2) AND mask))
      in if d_addr a \<noteq> vb_hdr s \<or> d_addr b \<noteq> buf \<or> d_addr c \<noteq> vb_st s \<or> d_len c \<noteq> 1
         then vb_say (uart_puts (str ''[blk] WARNING: descriptor chain unstable'')) s else s)"

definition submit_publish :: "'d vdev \<Rightarrow> u16 \<Rightarrow> u64 \<Rightarrow> 'd virtio \<Rightarrow> 'd virtio" where
  "submit_publish V head buf s =
     (let slot = vb_next_slot s;
          s1 = s\<lparr>vb_next_slot := ucast ((ucast slot + 1) mod vb_qnum s)\<rparr>;
          s2 = submit_audit head buf (store (vb_avail s1 + 4 + 2 * ucast slot) (le_bytes 2 head) s1);
          s3 = s2\<lparr>vb_pub_idx := vb_pub_idx s2 + 1\<rparr>
      in wr32 V (vb_base s3) 0x050 0 (store (vb_avail s3 + 2) (le_bytes 2 (vb_pub_idx s3)) s3))"

definition submit_timeout :: "'d vdev \<Rightarrow> 'd virtio \<Rightarrow> 'd virtio" where
  "submit_timeout V s =
     vb_say (uart_puts (str ''[blk] TIMEOUT waiting for device'') @ uart_puts_nolf (str ''  status=0x'')
       @ uart_hex (ucast (rd32 V (vb_base s) 0x070 s)) @ uart_puts_nolf (str '' avail_idx='')
       @ uart_dec (ucast (le_word (peek 2 (vb_mem s) (vb_avail s + 2)) :: u16))
       @ uart_puts_nolf (str '' used_idx='') @ uart_dec (ucast (used_idx s)) @ uart_puts []) s"

text \<open>
  \<open>submit\<close> takes the contents \<open>data\<close> of the caller's buffer at \<open>buf\<close> and returns what they are
  afterwards.
\<close>

definition submit :: "'d vdev \<Rightarrow> u32 \<Rightarrow> u32 \<Rightarrow> u64 \<Rightarrow> bytes \<Rightarrow> u32 \<Rightarrow> 'd virtio \<Rightarrow> int \<times> bytes \<times> 'd virtio" where
  "submit V ty lba buf data n s =
     (if \<not> vb_ready s \<or> n = 0 then (-1, data, s)
      else
        (let s1 = submit_chain ty lba buf n s;
             last_used = used_idx s1;
             s2 = submit_publish V (vb_next_desc s) buf s1;
             (d', m', data') = dma V (vb_dev s2) (vb_mem s2) buf data;
             s3 = s2\<lparr>vb_dev := d', vb_mem := m'\<rparr>
         in if used_idx s3 = last_used then (-1, data', submit_timeout V s3)
            else (if vb_mem s3 (vb_st s3) = 0 then 0 else -1, data', s3)))"

definition vblk_read :: "'d vdev \<Rightarrow> u32 \<Rightarrow> u64 \<Rightarrow> bytes \<Rightarrow> u32 \<Rightarrow> 'd virtio \<Rightarrow> int \<times> bytes \<times> 'd virtio" where
  "vblk_read V lba buf data count s =
     (if count = 0 then (0, data, s) else submit V 0 lba buf data (count * 512) s)"

definition vblk_write :: "'d vdev \<Rightarrow> u32 \<Rightarrow> u64 \<Rightarrow> bytes \<Rightarrow> u32 \<Rightarrow> 'd virtio \<Rightarrow> int \<times> bytes \<times> 'd virtio" where
  "vblk_write V lba buf data count s =
     (if count = 0 then (0, data, s) else submit V 1 lba buf data (count * 512) s)"

section \<open>Descriptors round trip\<close>

lemma length_vdesc_bytes [simp]: "length (vdesc_bytes d) = 16"
  by (simp add: vdesc_bytes_def)

lemma length_req_hdr_bytes [simp]: "length (req_hdr_bytes ty io sec) = 16"
  by (simp add: req_hdr_bytes_def)

lemma vdesc_of_bytes [simp]: "vdesc_of (vdesc_bytes d) = d"
  by (simp add: vdesc_of_def vdesc_bytes_def)

lemma store_sel [simp]:
  "vb_base (store a b s) = vb_base s" "vb_qnum (store a b s) = vb_qnum s" "vb_desc (store a b s) = vb_desc s"
  "vb_avail (store a b s) = vb_avail s" "vb_used (store a b s) = vb_used s" "vb_hdr (store a b s) = vb_hdr s"
  "vb_st (store a b s) = vb_st s" "vb_ready (store a b s) = vb_ready s"
  "vb_capacity (store a b s) = vb_capacity s" "vb_next_desc (store a b s) = vb_next_desc s"
  "vb_next_slot (store a b s) = vb_next_slot s" "vb_pub_idx (store a b s) = vb_pub_idx s"
  "vb_mem (store a b s) = poke a b (vb_mem s)" "vb_dev (store a b s) = vb_dev s"
  "vb_modern (store a b s) = vb_modern s"
  by (simp_all add: store_def)

lemma wr_desc_store:
  "wr_desc i addr len flags nxt s =
     store (vb_desc s + 16 * ucast i)
       (vdesc_bytes \<lparr>d_addr = addr, d_len = len, d_flags = flags, d_next = nxt\<rparr>) s"
proof -
  have "wr_desc_loop (Suc n) i d s = store (vb_desc s + 16 * ucast i) (vdesc_bytes d) s" for n d
    by (simp add: rd_desc_def peek_poke_same)
  from this [of 3] show ?thesis by (simp add: wr_desc_def eval_nat_numeral del: wr_desc_loop.simps)
qed

section \<open>What the device sees\<close>

record vq =
  q_num :: u32
  q_desc :: u64
  q_avail :: u64
  q_used :: u64

record blk_req =
  rq_type :: u32
  rq_sector :: u64
  rq_buf :: u64
  rq_len :: u32
  rq_writable :: bool
  rq_status :: u64

text \<open>
  The request that a descriptor chain of a split virtqueue stands for: header, data, status, each descriptor
  inside the table.
\<close>

definition req_of :: "memory \<Rightarrow> vq \<Rightarrow> u16 \<Rightarrow> blk_req option" where
  "req_of m q head =
     (let d0 = rd_desc m (q_desc q) (ucast head);
          d1 = rd_desc m (q_desc q) (ucast (d_next d0));
          d2 = rd_desc m (q_desc q) (ucast (d_next d1));
          h = peek 16 m (d_addr d0)
      in if ucast head < q_num q \<and> bit (d_flags d0) 0 \<and> d_len d0 = 16
            \<and> ucast (d_next d0) < q_num q \<and> bit (d_flags d1) 0
            \<and> ucast (d_next d1) < q_num q \<and> \<not> bit (d_flags d2) 0 \<and> bit (d_flags d2) 1 \<and> d_len d2 = 1
         then Some \<lparr>rq_type = le_word (take 4 h), rq_sector = le_word (drop 8 h), rq_buf = d_addr d1,
                    rq_len = d_len d1, rq_writable = bit (d_flags d1) 1, rq_status = d_addr d2\<rparr>
         else None)"

text \<open>The address \<open>k\<close> bytes into the ring pages.\<close>

definition at :: "u64 \<Rightarrow> nat \<Rightarrow> u64" where
  "at base k = base + of_nat k"

text \<open>
  The layout that a modern transport gets from \<open>vblk_init\<close> for a queue size that is a multiple of four:
  the descriptor table, the available ring and the used ring follow one another in the first page, the
  request header and the status byte are in the second.
\<close>

definition vq_layout :: "'d virtio \<Rightarrow> bool" where
  "vq_layout s \<longleftrightarrow>
     0 < unat (vb_qnum s) \<and> unat (vb_qnum s) \<le> 120 \<and> 4 dvd unat (vb_qnum s)
     \<and> unat (vb_desc s) + 8192 \<le> 2 ^ 64
     \<and> vb_avail s = at (vb_desc s) (16 * unat (vb_qnum s))
     \<and> vb_used s = at (vb_desc s) (18 * unat (vb_qnum s) + 8)
     \<and> vb_hdr s = at (vb_desc s) 4096 \<and> vb_st s = at (vb_desc s) 4112"

lemma at_plus: "at b k + 2 = at b (k + 2)" "at b k + 4 + 2 * ucast (w :: u16) = at b (k + 4 + 2 * unat w)"
  by (simp_all add: at_def)

lemma ucast_desc_off: "16 * (ucast (i :: u32) :: u64) = of_nat (16 * unat i)"
  by (simp only: of_nat_mult of_nat_unat of_nat_numeral)

lemma ring_peek_other:
  fixes base :: u64
  assumes "unat base + 8192 \<le> 2 ^ 64" "j + n \<le> 8192" "k + length bs \<le> 8192" "j < 8192" "k < 8192"
    and "j + n \<le> k \<or> k + length bs \<le> j"
  shows "peek n (poke (base + of_nat k) bs m) (base + of_nat j) = peek n m (base + of_nat j)"
proof (rule peek_poke_apart)
  have u: "unat (base + of_nat j :: u64) = unat base + j" "unat (base + of_nat k :: u64) = unat base + k"
    using assms(1,4,5) by (intro unat_add_small; linarith)+
  show "apart (base + of_nat j) n (base + of_nat k) (length bs)"
    using assms(6) by (auto simp: apart_def u)
  show "unat (base + of_nat j) + n \<le> 2 ^ 64" "unat (base + of_nat k) + length bs \<le> 2 ^ 64"
    unfolding u using assms(1-3) by linarith+
qed

lemma take_bit_2_nat: "unat (take_bit 2 (w :: u16)) = unat w mod 4"
  by (simp add: unsigned_take_bit_eq) (simp add: take_bit_eq_mod)

lemma chain_indices:
  fixes q :: u32 and head :: u16
  assumes "4 dvd unat q" "0 < unat q" "unat q \<le> 120" "unat head < unat q"
  defines "msk \<equiv> ucast (q - 1) :: u16"
  shows "unat ((head + 1) AND msk) < unat q" "unat ((head + 2) AND msk) < unat q"
    and "(head + 1) AND msk \<noteq> head" "(head + 2) AND msk \<noteq> head" "(head + 1) AND msk \<noteq> (head + 2) AND msk"
proof -
  have "unat (q - 1) = unat q - 1" using assms(2) by (intro unat_minus_one) auto
  then have m: "unat msk = unat q - 1"
    using assms(3) by (simp add: msk_def unsigned_ucast_eq take_bit_nat_eq_self)
  have le: "unat (x AND msk) < unat q" for x
  proof -
    have "unat (x AND msk) \<le> unat msk" using word_and_le1 [of x msk] by (simp only: word_le_nat_alt)
    then show ?thesis using assms(2) m by linarith
  qed
  then show "unat ((head + 1) AND msk) < unat q" "unat ((head + 2) AND msk) < unat q" by simp_all
  obtain k where "unat q = 4 * k" using assms(1) by blast
  then have "unat msk = 3 + 4 * (k - 1)" using assms(2) m by (cases k) simp_all
  then have "unat (take_bit 2 msk) = 3" unfolding take_bit_2_nat by simp
  then have "take_bit 2 msk = 3" by (simp only: word_unat_eq_iff) simp
  moreover have "(3 :: u16) = mask 2" by (simp add: mask_eq_exp_minus_1)
  ultimately have t: "take_bit 2 (x AND msk) = take_bit 2 x" for x
    by (simp add: take_bit_and) (simp add: take_bit_eq_mask and.assoc)
  have u: "unat (head + 1) = unat head + 1" "unat (head + 2) = unat head + 2"
    using assms(3,4) by (simp_all add: unat_word_ariths)
  have n1: "unat ((head + 1) AND msk) mod 4 = (unat head + 1) mod 4"
    using arg_cong [OF t, of unat "head + 1"] unfolding take_bit_2_nat u .
  have n2: "unat ((head + 2) AND msk) mod 4 = (unat head + 2) mod 4"
    using arg_cong [OF t, of unat "head + 2"] unfolding take_bit_2_nat u .
  have "(unat head + 1) mod 4 \<noteq> unat head mod 4" "(unat head + 2) mod 4 \<noteq> unat head mod 4"
      "(unat head + 1) mod 4 \<noteq> (unat head + 2) mod 4" by presburger+
  then show "(head + 1) AND msk \<noteq> head" "(head + 2) AND msk \<noteq> head" "(head + 1) AND msk \<noteq> (head + 2) AND msk"
    using n1 n2 by metis+
qed

lemma submit_chain_mem:
  fixes s :: "'d virtio"
  defines "msk \<equiv> ucast (vb_qnum s - 1) :: u16"
  shows "vb_mem (submit_chain ty lba buf n s) =
    poke (vb_st s) [0xEE]
     (poke (vb_desc s + of_nat (16 * unat ((vb_next_desc s + 2) AND msk)))
        (vdesc_bytes \<lparr>d_addr = vb_st s, d_len = 1, d_flags = 2, d_next = 0\<rparr>)
      (poke (vb_desc s + of_nat (16 * unat ((vb_next_desc s + 1) AND msk)))
        (vdesc_bytes \<lparr>d_addr = buf, d_len = n, d_flags = (if ty = 0 then 2 else 0) OR 1,
                      d_next = (vb_next_desc s + 2) AND msk\<rparr>)
       (poke (vb_desc s + of_nat (16 * unat (vb_next_desc s)))
         (vdesc_bytes \<lparr>d_addr = vb_hdr s, d_len = 16, d_flags = 1, d_next = (vb_next_desc s + 1) AND msk\<rparr>)
         (poke (vb_hdr s) (req_hdr_bytes ty 0 (ucast lba)) (vb_mem s)))))"
proof -
  have u: "unat (ucast (h :: u16) :: u32) = unat h" for h
    by (simp add: unsigned_ucast_eq take_bit_nat_eq_self unsigned_less [of h, where ?'a = nat, THEN less_le_trans])
  show ?thesis
    by (simp add: submit_chain_def wr_desc_store Let_def ucast_desc_off u msk_def del: of_nat_mult of_nat_unat)
qed

lemma submit_chain_sel [simp]:
  "vb_base (submit_chain ty lba buf n s) = vb_base s" "vb_qnum (submit_chain ty lba buf n s) = vb_qnum s"
  "vb_desc (submit_chain ty lba buf n s) = vb_desc s" "vb_avail (submit_chain ty lba buf n s) = vb_avail s"
  "vb_used (submit_chain ty lba buf n s) = vb_used s" "vb_hdr (submit_chain ty lba buf n s) = vb_hdr s"
  "vb_st (submit_chain ty lba buf n s) = vb_st s" "vb_ready (submit_chain ty lba buf n s) = vb_ready s"
  "vb_capacity (submit_chain ty lba buf n s) = vb_capacity s"
  "vb_next_desc (submit_chain ty lba buf n s) = vb_next_desc s + 3"
  "vb_next_slot (submit_chain ty lba buf n s) = vb_next_slot s"
  "vb_pub_idx (submit_chain ty lba buf n s) = vb_pub_idx s" "vb_dev (submit_chain ty lba buf n s) = vb_dev s"
  by (simp_all add: submit_chain_def wr_desc_store Let_def)

lemma submit_audit_sel [simp]:
  "vb_base (submit_audit h buf s) = vb_base s" "vb_qnum (submit_audit h buf s) = vb_qnum s"
  "vb_desc (submit_audit h buf s) = vb_desc s" "vb_avail (submit_audit h buf s) = vb_avail s"
  "vb_used (submit_audit h buf s) = vb_used s" "vb_hdr (submit_audit h buf s) = vb_hdr s"
  "vb_st (submit_audit h buf s) = vb_st s" "vb_ready (submit_audit h buf s) = vb_ready s"
  "vb_capacity (submit_audit h buf s) = vb_capacity s" "vb_next_desc (submit_audit h buf s) = vb_next_desc s"
  "vb_next_slot (submit_audit h buf s) = vb_next_slot s" "vb_pub_idx (submit_audit h buf s) = vb_pub_idx s"
  "vb_dev (submit_audit h buf s) = vb_dev s" "vb_mem (submit_audit h buf s) = vb_mem s"
  by (simp_all add: submit_audit_def vb_say_def Let_def)

lemma submit_publish_sel [simp]:
  "vb_base (submit_publish V h buf s) = vb_base s" "vb_qnum (submit_publish V h buf s) = vb_qnum s"
  "vb_desc (submit_publish V h buf s) = vb_desc s" "vb_avail (submit_publish V h buf s) = vb_avail s"
  "vb_used (submit_publish V h buf s) = vb_used s" "vb_hdr (submit_publish V h buf s) = vb_hdr s"
  "vb_st (submit_publish V h buf s) = vb_st s" "vb_ready (submit_publish V h buf s) = vb_ready s"
  "vb_capacity (submit_publish V h buf s) = vb_capacity s"
  "vb_next_desc (submit_publish V h buf s) = vb_next_desc s"
  "vb_next_slot (submit_publish V h buf s) = ucast ((ucast (vb_next_slot s) + 1) mod vb_qnum s)"
  "vb_pub_idx (submit_publish V h buf s) = vb_pub_idx s + 1"
  "vb_dev (submit_publish V h buf s) = reg_write V (vb_dev s) (vb_base s) 0x050 0"
  "vb_mem (submit_publish V h buf s) =
     poke (vb_avail s + 2) (le_bytes 2 (vb_pub_idx s + 1))
       (poke (vb_avail s + 4 + 2 * ucast (vb_next_slot s)) (le_bytes 2 h) (vb_mem s))"
  by (simp_all add: submit_publish_def wr32_def Let_def)

text \<open>The memory after a request has been written and published, by offsets into the ring pages.\<close>

definition clear :: "nat \<Rightarrow> nat \<Rightarrow> nat \<Rightarrow> nat \<Rightarrow> bool" where
  "clear j n k l \<longleftrightarrow> j + n \<le> k \<or> k + l \<le> j"

lemma clear_sym: "clear j n k l \<Longrightarrow> clear k l j n"
  by (auto simp: clear_def)

lemma peek_clear:
  fixes base :: u64
  assumes "unat base + 8192 \<le> 2 ^ 64" "clear j n k (length bs)" "j + n \<le> 8191" "k + length bs \<le> 8191"
  shows "peek n (poke (at base k) bs m) (at base j) = peek n m (at base j)"
  unfolding at_def using assms by (intro ring_peek_other) (auto simp: clear_def)

definition regions_ok :: "nat \<Rightarrow> nat \<Rightarrow> nat \<Rightarrow> nat \<Rightarrow> nat \<Rightarrow> nat \<Rightarrow> nat \<Rightarrow> nat \<Rightarrow> bool" where
  "regions_ok I R S E0 E1 E2 H U \<longleftrightarrow>
     (\<forall>k\<in>{I, R, U}. k + 2 \<le> 8191) \<and> S + 1 \<le> 8191 \<and> (\<forall>k\<in>{E0, E1, E2, H}. k + 16 \<le> 8191)
     \<and> clear R 2 I 2 \<and> (\<forall>k\<in>{E0, E1, E2, H}. clear k 16 I 2 \<and> clear k 16 R 2 \<and> clear k 16 S 1)
     \<and> (\<forall>k\<in>{E0, E1, H}. clear k 16 E2 16) \<and> clear E0 16 E1 16 \<and> clear H 16 E1 16 \<and> clear H 16 E0 16
     \<and> clear U 2 I 2 \<and> clear U 2 R 2 \<and> clear U 2 S 1 \<and> (\<forall>k\<in>{E0, E1, E2, H}. clear U 2 k 16)"

lemma regions_okI:
  assumes "q \<le> 120" "sl < q" "i0 < q" "i1 < q" "i2 < q" "i1 \<noteq> i0" "i2 \<noteq> i0" "i1 \<noteq> i2"
  shows "regions_ok (16 * q + 2) (16 * q + 4 + 2 * sl) 4112 (16 * i0) (16 * i1) (16 * i2) 4096 (18 * q + 8 + 2)"
  using assms unfolding regions_ok_def clear_def by auto

lemma published_mem:
  fixes base :: u64 and m :: memory
  assumes b: "unat base + 8192 \<le> 2 ^ 64" and r: "regions_ok I R S E0 E1 E2 H U"
    and lens: "length hb = 16" "length rb = 2" "length ib = 2" "length sb = 1"
      "length b0 = 16" "length b1 = 16" "length b2 = 16"
    and M: "M = poke (at base I) ib (poke (at base R) rb (poke (at base S) sb (poke (at base E2) b2
       (poke (at base E1) b1 (poke (at base E0) b0 (poke (at base H) hb m))))))"
  shows "peek 2 M (at base I) = ib" "peek 2 M (at base R) = rb" "peek 16 M (at base E0) = b0"
    "peek 16 M (at base E1) = b1" "peek 16 M (at base E2) = b2" "peek 16 M (at base H) = hb"
    "peek 2 M (at base U) = peek 2 m (at base U)"
  using r lens by (simp_all add: M regions_ok_def peek_clear [OF b] peek_poke_same)

definition vq_of :: "'d virtio \<Rightarrow> vq" where
  "vq_of s = \<lparr>q_num = vb_qnum s, q_desc = vb_desc s, q_avail = vb_avail s, q_used = vb_used s\<rparr>"

lemma published_request:
  fixes s :: "'d virtio"
  assumes lay: "vq_layout s" and hd: "unat (vb_next_desc s) < unat (vb_qnum s)"
    and sl: "unat (vb_next_slot s) < unat (vb_qnum s)"
    and M_def: "M = vb_mem (submit_publish V (vb_next_desc s) buf (submit_chain ty lba buf n s))"
  shows "le_word (peek 2 M (vb_avail s + 2)) = vb_pub_idx s + 1"
    and "le_word (peek 2 M (vb_avail s + 4 + 2 * ucast (vb_next_slot s))) = vb_next_desc s"
    and "req_of M (vq_of s) (vb_next_desc s) =
      Some \<lparr>rq_type = ty, rq_sector = ucast lba, rq_buf = buf, rq_len = n, rq_writable = (ty = 0), rq_status = vb_st s\<rparr>"
    and "peek 2 M (vb_used s + 2) = peek 2 (vb_mem s) (vb_used s + 2)"
proof -
  define q where "q = unat (vb_qnum s)"
  define msk where "msk = (ucast (vb_qnum s - 1) :: u16)"
  define i1 where "i1 = (vb_next_desc s + 1) AND msk"
  define i2 where "i2 = (vb_next_desc s + 2) AND msk"
  have q: "0 < q" "q \<le> 120" and b: "unat (vb_desc s) + 8192 \<le> 2 ^ 64" and d4: "4 dvd q"
    using lay by (simp_all add: vq_layout_def q_def)
  have i: "unat (vb_next_desc s) < q" "unat i1 < q" "unat i2 < q" "unat i1 \<noteq> unat (vb_next_desc s)"
      "unat i2 \<noteq> unat (vb_next_desc s)" "unat i1 \<noteq> unat i2"
    using chain_indices [of "vb_qnum s" "vb_next_desc s"] q d4 hd
    by (simp_all add: q_def i1_def i2_def msk_def word_unat_eq_iff)
  let ?d0 = "\<lparr>d_addr = vb_hdr s, d_len = 16, d_flags = 1, d_next = i1\<rparr>"
  let ?d1 = "\<lparr>d_addr = buf, d_len = n, d_flags = (if ty = 0 then 2 else 0) OR 1, d_next = i2\<rparr>"
  let ?d2 = "\<lparr>d_addr = vb_st s, d_len = 1, d_flags = 2, d_next = 0\<rparr>"
  let ?at = "at (vb_desc s)"
  have M: "M = poke (?at (16 * q + 2)) (le_bytes 2 (vb_pub_idx s + 1))
     (poke (?at (16 * q + 4 + 2 * unat (vb_next_slot s))) (le_bytes 2 (vb_next_desc s))
     (poke (?at 4112) [0xEE] (poke (?at (16 * unat i2)) (vdesc_bytes ?d2)
       (poke (?at (16 * unat i1)) (vdesc_bytes ?d1) (poke (?at (16 * unat (vb_next_desc s))) (vdesc_bytes ?d0)
         (poke (?at 4096) (req_hdr_bytes ty 0 (ucast lba)) (vb_mem s)))))))"
    using lay unfolding M_def vq_layout_def submit_publish_sel submit_chain_sel submit_chain_mem q_def
      i1_def i2_def msk_def
    by (simp only: at_plus at_def [symmetric])
  have "unat (vb_next_slot s) < q" using sl by (simp add: q_def)
  note R = regions_okI [OF q(2) this i]
  note pm = published_mem [OF b R length_req_hdr_bytes length_le_bytes length_le_bytes _ length_vdesc_bytes
      length_vdesc_bytes length_vdesc_bytes M]
  have lay': "vb_avail s = ?at (16 * q)" "vb_used s = ?at (18 * q + 8)" "vb_hdr s = ?at 4096"
    using lay by (simp_all add: vq_layout_def q_def)
  show "le_word (peek 2 M (vb_avail s + 2)) = vb_pub_idx s + 1"
    unfolding lay' at_plus by (subst pm(1)) simp_all
  show "le_word (peek 2 M (vb_avail s + 4 + 2 * ucast (vb_next_slot s))) = vb_next_desc s"
    unfolding lay' at_plus by (subst pm(2)) simp_all
  show "peek 2 M (vb_used s + 2) = peek 2 (vb_mem s) (vb_used s + 2)"
    unfolding lay' at_plus by (subst pm(7)) simp_all
  have u: "unat (ucast (h :: u16) :: u32) = unat h" for h
    by (simp add: unsigned_ucast_eq take_bit_nat_eq_self unsigned_less [of h, where ?'a = nat, THEN less_le_trans])
  have rd: "rd_desc M (vb_desc s) (ucast h) = vdesc_of (peek 16 M (?at (16 * unat h)))" for h :: u16
    unfolding rd_desc_def ucast_desc_off u at_def ..
  have "rd_desc M (vb_desc s) (ucast (vb_next_desc s)) = ?d0" "rd_desc M (vb_desc s) (ucast i1) = ?d1"
      "rd_desc M (vb_desc s) (ucast i2) = ?d2"
    unfolding rd using pm(3-5) by (simp_all only: vdesc_of_bytes list.size One_nat_def)
  moreover have "peek 16 M (vb_hdr s) = req_hdr_bytes ty 0 (ucast lba)"
    unfolding lay' by (subst pm(6)) simp_all
  moreover have "ucast h < vb_qnum s \<longleftrightarrow> unat h < q" for h :: u16
    by (simp add: word_less_nat_alt u q_def)
  moreover have "bit ((if ty = 0 then 2 else 0) OR 1 :: u16) 1 \<longleftrightarrow> ty = 0" "bit ((if ty = 0 then 2 else 0) OR 1 :: u16) 0"
    by (simp_all add: bit_simps)
  moreover have "bit (2 :: u16) 1" "\<not> bit (2 :: u16) 0" "bit (1 :: u16) 0" by simp_all
  ultimately show "req_of M (vq_of s) (vb_next_desc s) =
      Some \<lparr>rq_type = ty, rq_sector = ucast lba, rq_buf = buf, rq_len = n, rq_writable = (ty = 0), rq_status = vb_st s\<rparr>"
    using i(1-3) by (simp add: req_of_def vq_of_def Let_def req_hdr_bytes_def)
qed

section \<open>A device that follows the virtio specification\<close>

text \<open>
  What the driver relies on: when the available index is one ahead of what the device has seen and the newest
  ring entry leads to a well-formed read or write of whole sectors inside the medium, the device carries it
  out, sets the status byte to 0 and advances the used index.  \<open>queue\<close>, \<open>seen\<close>, \<open>medium\<close> and \<open>sectors\<close>
  read the state of the device: the queue it was given, the number of requests it took, the bytes of the
  disk and its number of sectors.  A write to the notify register changes none of these.
\<close>

definition same_medium :: "('d \<Rightarrow> vq) \<Rightarrow> ('d \<Rightarrow> u16) \<Rightarrow> ('d \<Rightarrow> nat \<Rightarrow> u8) \<Rightarrow> ('d \<Rightarrow> nat) \<Rightarrow> 'd \<Rightarrow> 'd \<Rightarrow> bool" where
  "same_medium queue seen medium sectors d d' \<longleftrightarrow>
     queue d' = queue d \<and> seen d' = seen d \<and> medium d' = medium d \<and> sectors d' = sectors d"

definition pending :: "('d \<Rightarrow> vq) \<Rightarrow> ('d \<Rightarrow> u16) \<Rightarrow> ('d \<Rightarrow> nat) \<Rightarrow> 'd \<Rightarrow> memory \<Rightarrow> u64 \<Rightarrow> bytes \<Rightarrow> blk_req \<Rightarrow> bool" where
  "pending queue seen sectors d m buf data rq \<longleftrightarrow>
     le_word (peek 2 m (q_avail (queue d) + 2)) = seen d + 1
     \<and> req_of m (queue d)
         (le_word (peek 2 m (q_avail (queue d) + 4 + 2 * of_nat (unat (seen d) mod unat (q_num (queue d)))))) = Some rq
     \<and> rq_buf rq = buf \<and> unat (rq_len rq) = length data \<and> 512 dvd length data
     \<and> unat (rq_sector rq) + length data div 512 \<le> sectors d
     \<and> (rq_type rq = 0 \<and> rq_writable rq \<or> rq_type rq = 1 \<and> \<not> rq_writable rq)
     \<and> unat (rq_status rq - (q_used (queue d) + 2)) \<ge> 2"

definition completed :: "('d \<Rightarrow> vq) \<Rightarrow> ('d \<Rightarrow> u16) \<Rightarrow> ('d \<Rightarrow> nat \<Rightarrow> u8) \<Rightarrow> ('d \<Rightarrow> nat) \<Rightarrow> 'd \<Rightarrow> memory \<Rightarrow> bytes \<Rightarrow> blk_req
    \<Rightarrow> 'd \<times> memory \<times> bytes \<Rightarrow> bool" where
  "completed queue seen medium sectors d m data rq = (\<lambda>(d', m', data').
     queue d' = queue d \<and> seen d' = seen d + 1 \<and> sectors d' = sectors d \<and> m' (rq_status rq) = 0
     \<and> (le_word (peek 2 m' (q_used (queue d) + 2)) :: u16) = le_word (peek 2 m (q_used (queue d) + 2)) + 1
     \<and> (if rq_type rq = 0
        then medium d' = medium d \<and> data' = disk_read (medium d) (unat (rq_sector rq)) (length data)
        else medium d' = disk_write (medium d) (unat (rq_sector rq)) data \<and> data' = data))"

locale virtio_device =
  fixes V :: "'d vdev"
    and queue :: "'d \<Rightarrow> vq"
    and seen :: "'d \<Rightarrow> u16"
    and medium :: "'d \<Rightarrow> nat \<Rightarrow> u8"
    and sectors :: "'d \<Rightarrow> nat"
  assumes notify_keeps: "same_medium queue seen medium sectors d (reg_write V d b 0x050 0)"
    and device_completes: "pending queue seen sectors d m buf data rq \<Longrightarrow>
          completed queue seen medium sectors d m data rq (dma V d m buf data)"

text \<open>The driver is in step with the device, and its next chain still starts inside the descriptor table.\<close>

definition vb_inv :: "('d \<Rightarrow> vq) \<Rightarrow> ('d \<Rightarrow> u16) \<Rightarrow> 'd virtio \<Rightarrow> bool" where
  "vb_inv queue seen s \<longleftrightarrow>
     vb_ready s \<and> vq_layout s \<and> queue (vb_dev s) = vq_of s \<and> seen (vb_dev s) = vb_pub_idx s
     \<and> unat (vb_next_slot s) = unat (vb_pub_idx s) mod unat (vb_qnum s)
     \<and> unat (vb_next_desc s) = 3 * unat (vb_pub_idx s) \<and> unat (vb_next_desc s) \<le> unat (vb_qnum s) + 2"

definition requests_left :: "'d virtio \<Rightarrow> nat" where
  "requests_left s = (unat (vb_qnum s) + 2 - unat (vb_next_desc s)) div 3"

lemma next_slot_step:
  assumes "vq_layout s" "unat (vb_next_slot s) = unat (vb_pub_idx s) mod unat (vb_qnum s)" "unat (vb_pub_idx s) < 65535"
  shows "unat (ucast ((ucast (vb_next_slot s) + 1) mod vb_qnum s) :: u16) = unat (vb_pub_idx s + 1) mod unat (vb_qnum s)"
proof -
  let ?q = "unat (vb_qnum s)"
  have q: "0 < ?q" "?q \<le> 120" using assms(1) by (simp_all add: vq_layout_def)
  then have "unat (vb_next_slot s) < 120"
    unfolding assms(2) using mod_less_divisor [of ?q "unat (vb_pub_idx s)"] by linarith
  then have "unat (ucast (vb_next_slot s) + 1 :: u32) = unat (vb_next_slot s) + 1"
    by (simp add: unat_word_ariths unsigned_ucast_eq take_bit_nat_eq_self)
  then have "unat ((ucast (vb_next_slot s) + 1) mod vb_qnum s) = (unat (vb_next_slot s) + 1) mod ?q"
    by (simp add: unat_mod)
  moreover have "(unat (vb_next_slot s) + 1) mod ?q < 65536" using q mod_less_divisor [of ?q "unat (vb_next_slot s) + 1"] by linarith
  moreover have "unat (vb_pub_idx s + 1) = unat (vb_pub_idx s) + 1" using assms(3) by (simp add: unat_word_ariths)
  ultimately show ?thesis
    using assms(2) by (simp add: unsigned_ucast_eq take_bit_nat_eq_self mod_Suc_eq)
qed

lemma publish_used:
  assumes "vq_layout s" "unat (vb_next_slot s) < unat (vb_qnum s)"
  shows "peek 2 (vb_mem (submit_publish V h buf s)) (vb_used s + 2) = peek 2 (vb_mem s) (vb_used s + 2)"
proof -
  define q where "q = unat (vb_qnum s)"
  have q: "q \<le> 120" "unat (vb_next_slot s) < q" and b: "unat (vb_desc s) + 8192 \<le> 2 ^ 64"
    and lay: "vb_avail s = at (vb_desc s) (16 * q)" "vb_used s = at (vb_desc s) (18 * q + 8)"
    using assms by (simp_all add: vq_layout_def q_def)
  show ?thesis
    unfolding submit_publish_sel lay at_plus
    using q by (subst peek_clear [OF b], simp_all add: clear_def)+
qed

lemma submit_inv_step:
  assumes inv: "vb_inv queue seen s" and left: "0 < requests_left s"
    and s2: "s2 = submit_publish V (vb_next_desc s) buf (submit_chain ty lba buf n s)"
    and d': "queue d' = queue (vb_dev s)" "seen d' = seen (vb_dev s) + 1"
  shows "vb_inv queue seen (s2\<lparr>vb_dev := d', vb_mem := m'\<rparr>)
    \<and> requests_left (s2\<lparr>vb_dev := d', vb_mem := m'\<rparr>) = requests_left s - 1"
proof -
  have i: "vb_ready s" "vq_layout s" "queue (vb_dev s) = vq_of s" "seen (vb_dev s) = vb_pub_idx s"
      "unat (vb_next_slot s) = unat (vb_pub_idx s) mod unat (vb_qnum s)"
      "unat (vb_next_desc s) = 3 * unat (vb_pub_idx s)" "unat (vb_qnum s) \<le> 120"
    using inv by (simp_all add: vb_inv_def vq_layout_def)
  have hd: "unat (vb_next_desc s) < unat (vb_qnum s)" using left by (simp add: requests_left_def)
  have "unat (vb_next_desc s + 3) = unat (vb_next_desc s) + 3" "unat (vb_pub_idx s + 1) = unat (vb_pub_idx s) + 1"
    using hd i(6,7) by (simp_all add: unat_word_ariths)
  moreover have "unat (vb_pub_idx s) < 65535" using hd i(6,7) by linarith
  ultimately show ?thesis
    using i hd next_slot_step [OF i(2,5)] d'
    by (simp add: s2 vb_inv_def requests_left_def vq_of_def vq_layout_def)
qed

context virtio_device
begin

lemma submit_ok:
  assumes inv: "vb_inv queue seen s" and left: "0 < requests_left s"
    and n: "0 < n" "unat n = length data" "512 dvd length data"
    and room: "unat lba + length data div 512 \<le> sectors (vb_dev s)"
    and ty: "ty = 0 \<or> ty = 1"
  obtains data' s' where "submit V ty lba buf data n s = (0, data', s')" "vb_inv queue seen s'"
    "requests_left s' = requests_left s - 1" "vblk_capacity s' = vblk_capacity s"
    "sectors (vb_dev s') = sectors (vb_dev s)"
    "if ty = 0 then medium (vb_dev s') = medium (vb_dev s) \<and> data' = disk_read (medium (vb_dev s)) (unat lba) (length data)
     else medium (vb_dev s') = disk_write (medium (vb_dev s)) (unat lba) data \<and> data' = data"
proof -
  define s1 where "s1 = submit_chain ty lba buf n s"
  define s2 where "s2 = submit_publish V (vb_next_desc s) buf s1"
  define rq where "rq = \<lparr>rq_type = ty, rq_sector = ucast lba, rq_buf = buf, rq_len = n, rq_writable = (ty = 0), rq_status = vb_st s\<rparr>"
  have i: "vb_ready s" "vq_layout s" "queue (vb_dev s) = vq_of s" "seen (vb_dev s) = vb_pub_idx s"
      "unat (vb_next_slot s) = unat (vb_pub_idx s) mod unat (vb_qnum s)" "0 < unat (vb_qnum s)" "unat (vb_qnum s) \<le> 120"
    using inv by (simp_all add: vb_inv_def vq_layout_def)
  have hd: "unat (vb_next_desc s) < unat (vb_qnum s)" using left by (simp add: requests_left_def)
  have sl: "unat (vb_next_slot s) < unat (vb_qnum s)" using i(5,6) by simp
  have "vb_dev s2 = reg_write V (vb_dev s) (vb_base s) 0x050 0" by (simp add: s2_def s1_def)
  then have dev: "queue (vb_dev s2) = vq_of s" "seen (vb_dev s2) = vb_pub_idx s" "medium (vb_dev s2) = medium (vb_dev s)"
      "sectors (vb_dev s2) = sectors (vb_dev s)"
    using notify_keeps [of "vb_dev s" "vb_base s"] i(3,4) by (simp_all add: same_medium_def)
  note pub = published_request [OF i(2) hd sl, of "vb_mem s2" V buf ty lba n, folded s1_def, folded s2_def, OF refl]
  have slot: "of_nat (unat (vb_pub_idx s) mod unat (vb_qnum s)) = (ucast (vb_next_slot s) :: u64)"
    unfolding i(5) [symmetric] by simp
  have "vb_st s - (vb_used s + 2) = of_nat (4112 - (18 * unat (vb_qnum s) + 10))"
    using i(2,7) by (simp add: vq_layout_def at_def of_nat_diff algebra_simps)
  then have st: "2 \<le> unat (vb_st s - (vb_used s + 2))"
    using i(7) by (simp add: unsigned_of_nat take_bit_nat_eq_self del: of_nat_diff)
  have sec: "unat (ucast lba :: u64) = unat lba"
    by (simp add: unsigned_ucast_eq take_bit_nat_eq_self unsigned_less [of lba, where ?'a = nat, THEN less_le_trans])
  have "pending queue seen sectors (vb_dev s2) (vb_mem s2) buf data rq"
    unfolding pending_def dev using pub slot st n ty room by (auto simp: rq_def vq_of_def sec)
  from device_completes [OF this] obtain d' m' data' where
    c: "dma V (vb_dev s2) (vb_mem s2) buf data = (d', m', data')"
      "completed queue seen medium sectors (vb_dev s2) (vb_mem s2) data rq (d', m', data')"
    by (metis prod_cases3)
  let ?s3 = "s2\<lparr>vb_dev := d', vb_mem := m'\<rparr>"
  have q: "queue d' = queue (vb_dev s)" "seen d' = seen (vb_dev s) + 1"
    using c(2) dev i(3,4) by (simp_all add: completed_def)
  note fin = submit_inv_step [OF inv left s2_def [unfolded s1_def] q]
  have "vb_used s2 = vb_used s" "vb_used s1 = vb_used s" "vb_st s2 = vb_st s"
    by (simp_all add: s2_def s1_def)
  moreover have "peek 2 (vb_mem s2) (vb_used s + 2) = peek 2 (vb_mem s1) (vb_used s + 2)"
    using publish_used [of s1 V "vb_next_desc s" buf] i(2) sl by (simp add: s2_def s1_def vq_layout_def)
  ultimately have "used_idx ?s3 \<noteq> used_idx s1" "vb_mem ?s3 (vb_st ?s3) = 0"
    using c(2) dev by (simp_all add: used_idx_def completed_def vq_of_def rq_def)
  then have "submit V ty lba buf data n s = (0, data', ?s3)"
    using c(1) i(1) n(1) unfolding submit_def Let_def s1_def [symmetric] s2_def [symmetric] by simp
  then show thesis
    using fin c(2) dev ty by (intro that [of data' ?s3]) (auto simp: completed_def rq_def sec vblk_capacity_def s2_def s1_def)
qed

end

definition virtio_ops :: "'d vdev \<Rightarrow> 'd virtio blk_ops" where
  "virtio_ops V = \<lparr>op_read = vblk_read V, op_write = vblk_write V, op_capacity = vblk_capacity\<rparr>"

lemma sector_bytes: "unat (n :: u32) \<le> 8 \<Longrightarrow> unat (n * 512) = 512 * unat n"
  by (simp add: unat_word_ariths)

context virtio_device
begin

lemma transfer_ok:
  assumes "vb_inv queue seen s" "0 < requests_left s" "0 < n" "unat n \<le> 8" "length data = 512 * unat n"
    and "unat lba + unat n \<le> sectors (vb_dev s)"
  shows "\<exists>s'. vblk_read V lba buf data n s = (0, disk_read (medium (vb_dev s)) (unat lba) (512 * unat n), s')
       \<and> vb_inv queue seen s' \<and> requests_left s' = requests_left s - 1 \<and> medium (vb_dev s') = medium (vb_dev s)
       \<and> sectors (vb_dev s') = sectors (vb_dev s) \<and> vblk_capacity s' = vblk_capacity s"
    and "\<exists>s'. vblk_write V lba buf data n s = (0, data, s')
       \<and> vb_inv queue seen s' \<and> requests_left s' = requests_left s - 1
       \<and> medium (vb_dev s') = disk_write (medium (vb_dev s)) (unat lba) data
       \<and> sectors (vb_dev s') = sectors (vb_dev s) \<and> vblk_capacity s' = vblk_capacity s"
proof -
  have u: "unat (n * 512) = length data" "512 dvd length data" "length data div 512 = unat n"
    using assms(4,5) by (simp_all add: sector_bytes)
  have "0 < unat (n * 512)" using assms(3) by (simp add: sector_bytes [OF assms(4)] unat_gt_0)
  then have "0 < n * 512" by (simp only: word_less_nat_alt unat_0)
  note so = submit_ok [OF assms(1,2) this u(1,2), unfolded u(3), OF assms(6)]
  have n: "n \<noteq> 0" using assms(3) by (simp add: word_neq_0_conv)
  show "\<exists>s'. vblk_read V lba buf data n s = (0, disk_read (medium (vb_dev s)) (unat lba) (512 * unat n), s')
       \<and> vb_inv queue seen s' \<and> requests_left s' = requests_left s - 1 \<and> medium (vb_dev s') = medium (vb_dev s)
       \<and> sectors (vb_dev s') = sectors (vb_dev s) \<and> vblk_capacity s' = vblk_capacity s"
    by (rule so [of 0 buf]) (use n assms(5) in \<open>auto simp: vblk_read_def\<close>)
  show "\<exists>s'. vblk_write V lba buf data n s = (0, data, s')
       \<and> vb_inv queue seen s' \<and> requests_left s' = requests_left s - 1
       \<and> medium (vb_dev s') = disk_write (medium (vb_dev s)) (unat lba) data
       \<and> sectors (vb_dev s') = sectors (vb_dev s) \<and> vblk_capacity s' = vblk_capacity s"
    by (rule so [of 1 buf]) (use n assms(5) in \<open>auto simp: vblk_write_def\<close>)
qed

end

sublocale virtio_device \<subseteq> blk: block_device "virtio_ops V" "vb_inv queue seen" requests_left
    "\<lambda>s. medium (vb_dev s)" "\<lambda>s. sectors (vb_dev s)"
  by unfold_locales (use transfer_ok in \<open>simp_all add: virtio_ops_def\<close>)

context virtio_device
begin

lemmas driver_refines_disk = blk.run_refines_disk

end

section \<open>A disk in memory\<close>

text \<open>
  A concrete device that satisfies the contract: it answers the registers that \<open>vblk_init\<close> reads, keeps the
  queue it is given and serves requests from a byte array.
\<close>

record ram_disk =
  rk_queue :: vq
  rk_seen :: u16
  rk_status :: u32
  rk_medium :: "nat \<Rightarrow> u8"
  rk_sectors :: nat

definition ram_disk_read :: "ram_disk \<Rightarrow> u64 \<Rightarrow> u32 \<Rightarrow> u32" where
  "ram_disk_read d base off =
     (if base \<noteq> 0x0A000000 then 0
      else if off = 0x000 then 0x74726976 else if off = 0x004 then 2 else if off = 0x008 then 2
      else if off = 0x034 then 1024 else if off = 0x070 then rk_status d
      else if off = 0x100 then of_nat (rk_sectors d) else 0)"

definition ram_disk_write :: "ram_disk \<Rightarrow> u64 \<Rightarrow> u32 \<Rightarrow> u32 \<Rightarrow> ram_disk" where
  "ram_disk_write d base off v =
     (if off = 0x070 then d\<lparr>rk_status := v, rk_seen := (if v = 0 then 0 else rk_seen d)\<rparr>
      else if off = 0x038 then d\<lparr>rk_queue := (rk_queue d)\<lparr>q_num := v\<rparr>\<rparr>
      else if off = 0x080 then d\<lparr>rk_queue := (rk_queue d)\<lparr>q_desc := ucast v\<rparr>\<rparr>
      else if off = 0x090 then d\<lparr>rk_queue := (rk_queue d)\<lparr>q_avail := ucast v\<rparr>\<rparr>
      else if off = 0x0A0 then d\<lparr>rk_queue := (rk_queue d)\<lparr>q_used := ucast v\<rparr>\<rparr>
      else d)"

definition ram_disk_dma :: "ram_disk \<Rightarrow> memory \<Rightarrow> u64 \<Rightarrow> bytes \<Rightarrow> ram_disk \<times> memory \<times> bytes" where
  "ram_disk_dma d m buf data =
     (let q = rk_queue d;
          head = le_word (peek 2 m (q_avail q + 4 + 2 * of_nat (unat (rk_seen d) mod unat (q_num q))))
      in case req_of m q head of
           None \<Rightarrow> (d, m, data)
         | Some rq \<Rightarrow>
             if \<not> pending rk_queue rk_seen rk_sectors d m buf data rq then (d, m, data)
             else
               (let idx = le_word (peek 2 m (q_used q + 2)) + 1 :: u16;
                    m' = poke (rq_status rq) [0] (poke (q_used q + 2) (le_bytes 2 idx) m);
                    d' = d\<lparr>rk_seen := rk_seen d + 1\<rparr>
                in if rq_type rq = 0
                   then (d', m', disk_read (rk_medium d) (unat (rq_sector rq)) (length data))
                   else (d'\<lparr>rk_medium := disk_write (rk_medium d) (unat (rq_sector rq)) data\<rparr>, m', data)))"

definition ram_disk_dev :: "ram_disk vdev" where
  "ram_disk_dev = \<lparr>reg_read = ram_disk_read, reg_write = ram_disk_write, dma = ram_disk_dma\<rparr>"

lemma ram_disk_used:
  assumes "2 \<le> unat (st - (u :: u64))"
  shows "peek 2 (poke st [x] (poke u b m)) u = peek 2 (poke u b m) u"
proof -
  have ne: "unat (u + of_nat i - st) \<noteq> 0" if "i < 2" for i
  proof
    assume "unat (u + of_nat i - st) = 0"
    then have "u + of_nat i - st = 0" by (simp only: unat_eq_0)
    then have "st - u = of_nat i" by (metis add_diff_cancel_left' eq_iff_diff_eq_0)
    then show False using assms that by (auto simp: less_2_cases_iff)
  qed
  show ?thesis by (intro peek_cong) (simp add: poke_def [of st] ne)
qed

interpretation ram_disk: virtio_device ram_disk_dev rk_queue rk_seen rk_medium rk_sectors
proof
  fix d :: ram_disk and b
  show "same_medium rk_queue rk_seen rk_medium rk_sectors d (reg_write ram_disk_dev d b 0x050 0)"
    by (simp add: ram_disk_dev_def ram_disk_write_def same_medium_def)
next
  fix d :: ram_disk and m buf data rq
  assume p: "pending rk_queue rk_seen rk_sectors d m buf data rq"
  then have r: "req_of m (rk_queue d) (le_word (peek 2 m (q_avail (rk_queue d) + 4
      + 2 * of_nat (unat (rk_seen d) mod unat (q_num (rk_queue d)))))) = Some rq"
    and st: "2 \<le> unat (rq_status rq - (q_used (rk_queue d) + 2))"
    by (simp_all add: pending_def)
  have "le_word (peek 2 (poke (rq_status rq) [0] (poke (q_used (rk_queue d) + 2) (le_bytes 2 idx) m))
      (q_used (rk_queue d) + 2)) = (idx :: u16)" for idx
    by (subst ram_disk_used [OF st]) (simp add: peek_poke_same)
  then show "completed rk_queue rk_seen rk_medium rk_sectors d m data rq (dma ram_disk_dev d m buf data)"
    using p r by (simp add: ram_disk_dev_def ram_disk_dma_def completed_def Let_def) (simp add: poke_def)
qed

section \<open>Bring-up\<close>

lemma wr32_sel [simp]:
  "vb_base (wr32 V b f v s) = vb_base s" "vb_qnum (wr32 V b f v s) = vb_qnum s" "vb_desc (wr32 V b f v s) = vb_desc s"
  "vb_avail (wr32 V b f v s) = vb_avail s" "vb_used (wr32 V b f v s) = vb_used s" "vb_hdr (wr32 V b f v s) = vb_hdr s"
  "vb_st (wr32 V b f v s) = vb_st s" "vb_ready (wr32 V b f v s) = vb_ready s"
  "vb_capacity (wr32 V b f v s) = vb_capacity s" "vb_next_desc (wr32 V b f v s) = vb_next_desc s"
  "vb_next_slot (wr32 V b f v s) = vb_next_slot s" "vb_pub_idx (wr32 V b f v s) = vb_pub_idx s"
  "vb_modern (wr32 V b f v s) = vb_modern s" "vb_mem (wr32 V b f v s) = vb_mem s"
  "vb_dev (wr32 V b f v s) = reg_write V (vb_dev s) b f v"
  by (simp_all add: wr32_def)

lemma vb_say_sel [simp]:
  "vb_base (vb_say t s) = vb_base s" "vb_qnum (vb_say t s) = vb_qnum s" "vb_desc (vb_say t s) = vb_desc s"
  "vb_avail (vb_say t s) = vb_avail s" "vb_used (vb_say t s) = vb_used s" "vb_hdr (vb_say t s) = vb_hdr s"
  "vb_st (vb_say t s) = vb_st s" "vb_ready (vb_say t s) = vb_ready s" "vb_capacity (vb_say t s) = vb_capacity s"
  "vb_next_desc (vb_say t s) = vb_next_desc s" "vb_next_slot (vb_say t s) = vb_next_slot s"
  "vb_pub_idx (vb_say t s) = vb_pub_idx s" "vb_modern (vb_say t s) = vb_modern s" "vb_mem (vb_say t s) = vb_mem s"
  by (simp_all add: vb_say_def)

lemma vblk_queue_sel [simp]:
  "vb_qnum (vblk_queue V b qp s) = vb_qnum s" "vb_desc (vblk_queue V b qp s) = qp"
  "vb_avail (vblk_queue V b qp s) = qp + 16 * ucast (vb_qnum s)"
  "vb_hdr (vblk_queue V b qp s) = qp + 4096" "vb_st (vblk_queue V b qp s) = qp + 4096 + 16"
  "vb_next_desc (vblk_queue V b qp s) = vb_next_desc s" "vb_next_slot (vblk_queue V b qp s) = vb_next_slot s"
  "vb_pub_idx (vblk_queue V b qp s) = vb_pub_idx s" "vb_modern (vblk_queue V b qp s) = vb_modern s"
  by (simp_all add: vblk_queue_def Let_def store_def wr32_def)


lemma vblk_features_sel [simp]:
  "vb_next_desc (vblk_features V b s) = vb_next_desc s" "vb_next_slot (vblk_features V b s) = vb_next_slot s"
  "vb_pub_idx (vblk_features V b s) = vb_pub_idx s" "vb_modern (vblk_features V b s) = vb_modern s"
  by (simp_all add: vblk_features_def Let_def)




section \<open>Running out of descriptors\<close>

fun submit_all :: "'d vdev \<Rightarrow> (u32 \<times> u32 \<times> u64 \<times> bytes \<times> u32) list \<Rightarrow> 'd virtio \<Rightarrow> 'd virtio" where
  "submit_all V [] s = s"
| "submit_all V ((ty, lba, buf, data, n) # rs) s = submit_all V rs (snd (snd (submit V ty lba buf data n s)))"

lemma submit_counts:
  assumes "vb_ready s" "n \<noteq> 0"
  shows "vb_next_desc (snd (snd (submit V ty lba buf data n s))) = vb_next_desc s + 3
    \<and> vb_ready (snd (snd (submit V ty lba buf data n s))) \<and> vb_qnum (snd (snd (submit V ty lba buf data n s))) = vb_qnum s
    \<and> vb_desc (snd (snd (submit V ty lba buf data n s))) = vb_desc s
    \<and> vb_avail (snd (snd (submit V ty lba buf data n s))) = vb_avail s"
  using assms by (simp add: submit_def Let_def submit_timeout_def split: prod.split)

lemma submit_all_counts:
  "vb_ready s \<Longrightarrow> \<forall>(ty, lba, buf, data, n)\<in>set rs. n \<noteq> 0 \<Longrightarrow>
     vb_next_desc (submit_all V rs s) = vb_next_desc s + 3 * of_nat (length rs)
     \<and> vb_ready (submit_all V rs s) \<and> vb_qnum (submit_all V rs s) = vb_qnum s
     \<and> vb_desc (submit_all V rs s) = vb_desc s \<and> vb_avail (submit_all V rs s) = vb_avail s"
proof (induction V rs s rule: submit_all.induct)
  case (2 V ty lba buf data n rs s)
  then show ?case using submit_counts [of s n V ty lba buf data] by (simp add: algebra_simps)
qed simp


section \<open>Properties\<close>


definition ram_disk_driver :: "ram_disk virtio" where
  "ram_disk_driver =
     \<lparr>vb_base = 0x0A000000, vb_qnum = 120, vb_desc = 0x43000000, vb_avail = at 0x43000000 1920,
      vb_used = at 0x43000000 2168, vb_hdr = at 0x43000000 4096, vb_st = at 0x43000000 4112, vb_ready = True,
      vb_capacity = 8192, vb_next_desc = 0, vb_next_slot = 0, vb_pub_idx = 0, vb_modern = True, vb_mem = (\<lambda>_. 0),
      vb_dev = \<lparr>rk_queue = \<lparr>q_num = 120, q_desc = 0x43000000, q_avail = at 0x43000000 1920, q_used = at 0x43000000 2168\<rparr>,
                rk_seen = 0, rk_status = 15, rk_medium = (\<lambda>_. 0), rk_sectors = 16\<rparr>,
      vb_con = []\<rparr>"

lemma ram_disk_driver_inv: "vb_inv rk_queue rk_seen ram_disk_driver" "requests_left ram_disk_driver = 40"
  by (simp_all add: vb_inv_def vq_layout_def vq_of_def ram_disk_driver_def requests_left_def)







text \<open>
  Chains are never given back: \<open>next_desc\<close> grows by three with every request and is not wrapped.  With the
  queue of 120 entries the forty-first request after bring-up, whatever the device answers, starts its chain
  at descriptor 120, which is outside the table and occupies the memory of the available ring, so that the entry
  it publishes is no request.
\<close>

theorem vblk_ring_exhausted:
  assumes "vb_ready s" "vb_next_desc s = 0" "vq_layout s" "vb_qnum s = 120"
    and "length rs = 40" and "\<forall>(ty, lba, buf, data, n)\<in>set rs. n \<noteq> 0"
  shows "vb_next_desc (submit_all V rs s) = 120
    \<and> vb_desc (submit_all V rs s) + 16 * ucast (vb_next_desc (submit_all V rs s)) = vb_avail (submit_all V rs s)
    \<and> req_of m (vq_of (submit_all V rs s)) (vb_next_desc (submit_all V rs s)) = None"
proof -
  have c: "vb_next_desc (submit_all V rs s) = 120" "vb_qnum (submit_all V rs s) = 120"
      "vb_desc (submit_all V rs s) = vb_desc s" "vb_avail (submit_all V rs s) = vb_avail s"
    using submit_all_counts [OF assms(1,6), of V] assms(2,4,5) by simp_all
  moreover have "vb_avail s = vb_desc s + 16 * 120"
    using assms(3,4) by (simp add: vq_layout_def at_def)
  ultimately show ?thesis by (simp add: req_of_def vq_of_def Let_def)
qed

theorem vblk_ring_exhausted_witness:
  "vb_next_desc (submit_all ram_disk_dev (replicate 40 (0, 1, 0x44000000, replicate 512 0, 512)) ram_disk_driver) = 120"
  using vblk_ring_exhausted [of ram_disk_driver "replicate 40 (0, 1, 0x44000000, replicate 512 0, 512)" ram_disk_dev]
    ram_disk_driver_inv(1)
  by (simp add: vb_inv_def) (simp add: ram_disk_driver_def)

end
