(* ===== verification/Afs.thy ===== *)
theory Afs
  imports Bytes Uart
begin

text \<open>
  AEOS-FS, the on-disk file system of \<^verbatim>\<open>src/kernel/afs.c\<close>.  The state holds the fields of \<^verbatim>\<open>afs_state_t\<close>, the
  base sector, the valid part of the free extent array, the staging buffers \<^verbatim>\<open>iobuf\<close> and \<^verbatim>\<open>diobuf\<close> with their
  addresses, the state of the block driver and the console output.  The driver's three calls are the argument
  \<open>B\<close>; \<^verbatim>\<open>diobuf\<close> is seen as the array of directory entries that the code casts it to.
\<close>

section \<open>On-disk structures\<close>

record afs_dirent =
  de_name :: bytes
  de_start :: u32
  de_size :: u32

record afs_superblock =
  sb_magic :: u32
  sb_version :: u32
  sb_total :: u32
  sb_data :: u32

record afs_extent =
  fe_start :: u32
  fe_count :: u32

definition dirent_bytes :: "afs_dirent \<Rightarrow> bytes" where
  "dirent_bytes e = de_name e @ le_bytes 4 (de_start e) @ le_bytes 4 (de_size e)"

definition dirent_of :: "bytes \<Rightarrow> afs_dirent" where
  "dirent_of b = \<lparr>de_name = take 24 b, de_start = le_word (take 4 (drop 24 b)), de_size = le_word (take 4 (drop 28 b))\<rparr>"

definition dir_bytes :: "afs_dirent list \<Rightarrow> bytes" where
  "dir_bytes d = concat (map dirent_bytes d)"

definition dir_of :: "bytes \<Rightarrow> afs_dirent list" where
  "dir_of b = map (\<lambda>i. dirent_of (take 32 (drop (32 * i) b))) [0..<16]"

definition sb_bytes :: "afs_superblock \<Rightarrow> bytes" where
  "sb_bytes sb = le_bytes 4 (sb_magic sb) @ le_bytes 4 (sb_version sb) @ le_bytes 4 (sb_total sb) @ le_bytes 4 (sb_data sb)"

definition sb_of :: "bytes \<Rightarrow> afs_superblock" where
  "sb_of b = \<lparr>sb_magic = le_word (take 4 b), sb_version = le_word (take 4 (drop 4 b)),
     sb_total = le_word (take 4 (drop 8 b)), sb_data = le_word (take 4 (drop 12 b))\<rparr>"

record 's afs =
  mounted :: bool
  total_sectors :: u32
  data_lba :: u32
  next_free_lba :: u32
  afs_base :: u32
  free_extents :: "afs_extent list"
  iobuf :: "bytes list"
  diobuf :: "afs_dirent list"
  iobuf_at :: u64
  diobuf_at :: u64
  blk :: 's
  afs_con :: bytes

definition afs_set_base :: "u32 \<Rightarrow> 's afs \<Rightarrow> 's afs" where
  "afs_set_base lba s = s\<lparr>afs_base := lba\<rparr>"

definition afs_get_base :: "'s afs \<Rightarrow> u32" where
  "afs_get_base s = afs_base s"

definition afs_say :: "bytes \<Rightarrow> 's afs \<Rightarrow> 's afs" where
  "afs_say b s = s\<lparr>afs_con := afs_con s @ b\<rparr>"

fun fname_eq :: "bytes \<Rightarrow> bytes \<Rightarrow> bool" where
  "fname_eq [] b = (0 = cbyte b 0)"
| "fname_eq (x # a) b =
     (if x \<noteq> 0 \<and> cbyte b 0 \<noteq> 0 \<and> x = cbyte b 0 then fname_eq a (tl b) else x = cbyte b 0)"

section \<open>Sectors, extents, directory\<close>

text \<open>A transfer of \<open>n\<close> sectors uses the first \<open>512 * n\<close> bytes of the buffer.\<close>

definition rd_sectors :: "'s blk_ops \<Rightarrow> u32 \<Rightarrow> u64 \<Rightarrow> bytes \<Rightarrow> u32 \<Rightarrow> 's afs \<Rightarrow> int \<times> bytes \<times> 's afs" where
  "rd_sectors B lba at buf n s =
     (let (rc, data, b) = op_read B (afs_base s + lba) at (take (512 * unat n) buf) n (blk s)
      in (rc, data @ drop (512 * unat n) buf, s\<lparr>blk := b\<rparr>))"

definition wr_sectors :: "'s blk_ops \<Rightarrow> u32 \<Rightarrow> u64 \<Rightarrow> bytes \<Rightarrow> u32 \<Rightarrow> 's afs \<Rightarrow> int \<times> 's afs" where
  "wr_sectors B lba at buf n s =
     (let (rc, _, b) = op_write B (afs_base s + lba) at (take (512 * unat n) buf) n (blk s)
      in (rc, s\<lparr>blk := b\<rparr>))"

definition alloc_from_free_list :: "u32 \<Rightarrow> 's afs \<Rightarrow> u32 \<times> 's afs" where
  "alloc_from_free_list nlbas s =
     (case first_slot (\<lambda>e. fe_count e \<ge> nlbas) (free_extents s) of
        None \<Rightarrow> (0, s)
      | Some i \<Rightarrow>
          (let e = free_extents s ! i;
               e' = \<lparr>fe_start = fe_start e + nlbas, fe_count = fe_count e - nlbas\<rparr>;
               xs = (free_extents s)[i := e']
           in (fe_start e,
               s\<lparr>free_extents := (if fe_count e' = 0 then butlast (xs[i := last xs]) else xs)\<rparr>)))"

definition add_to_free_list :: "u32 \<Rightarrow> u32 \<Rightarrow> 's afs \<Rightarrow> int \<times> 's afs" where
  "add_to_free_list start cnt s =
     (if 32 \<le> length (free_extents s) then (-1, s)
      else (0, s\<lparr>free_extents := free_extents s @ [\<lparr>fe_start = start, fe_count = cnt\<rparr>]\<rparr>))"

definition dir_load :: "'s blk_ops \<Rightarrow> 's afs \<Rightarrow> bool \<times> 's afs" where
  "dir_load B s =
     (let (rc, b, s') = rd_sectors B 1 (diobuf_at s) (dir_bytes (diobuf s)) 1 s
      in (rc = 0, s'\<lparr>diobuf := dir_of b\<rparr>))"

definition dir_flush :: "'s blk_ops \<Rightarrow> 's afs \<Rightarrow> int \<times> 's afs" where
  "dir_flush B s = wr_sectors B 1 (diobuf_at s) (dir_bytes (diobuf s)) 1 s"

definition nsect :: "u32 \<Rightarrow> u32" where
  "nsect sz = (sz + 512 - 1) div 512"

definition resume_step :: "u32 \<Rightarrow> afs_dirent \<Rightarrow> u32" where
  "resume_step nf e =
     (if de_start e = 0 then nf
      else (let end_lba = de_start e + nsect (de_size e) in if end_lba > nf then end_lba else nf))"

definition afs_mount :: "'s blk_ops \<Rightarrow> 's afs \<Rightarrow> int \<times> 's afs" where
  "afs_mount B s =
     (if op_capacity B (blk s) = 0 then (0, s)
      else
        (let (rc, b, s1) = rd_sectors B 0 (iobuf_at s) (iobuf s ! 0) 1 s;
             s2 = s1\<lparr>iobuf := (iobuf s1)[0 := b]\<rparr>
         in if rc \<noteq> 0 then (0, s2)
            else
              (let sb = sb_of (iobuf s2 ! 0) in
               if sb_magic sb \<noteq> 0x31534645 \<or> sb_version sb \<noteq> 1 then (0, s2)
               else
                 (let s3 = s2\<lparr>total_sectors := sb_total sb, data_lba := sb_data sb, next_free_lba := sb_data sb,
                              mounted := True\<rparr>;
                      (ok, s4) = dir_load B s3;
                      s5 = (if ok then s4\<lparr>next_free_lba := foldl resume_step (next_free_lba s4) (diobuf s4)\<rparr> else s4)
                  in (1, afs_say (uart_puts_nolf (str ''[fs] AEOS-FS mounted: '') @ uart_dec (ucast (total_sectors s5))
                           @ uart_puts (str '' sectors'')) s5)))))"

definition afs_format :: "'s blk_ops \<Rightarrow> 's afs \<Rightarrow> int \<times> 's afs" where
  "afs_format B s =
     (if op_capacity B (blk s) = 0 then (-1, s)
      else
        (let sb = \<lparr>sb_magic = 0x31534645, sb_version = 1, sb_total = ucast (op_capacity B (blk s) div 512), sb_data = 2\<rparr>;
             b0 = memcpy (replicate 4096 0) 0 (sb_bytes sb) 0 16;
             (rc, s1) = wr_sectors B 0 (iobuf_at s) b0 1
                          (s\<lparr>iobuf := b0 # replicate 3 (replicate 4096 0)\<rparr>)
         in if rc \<noteq> 0 then (-1, s1)
            else
              (let zero = \<lparr>de_name = replicate 24 0, de_start = 0, de_size = 0\<rparr>;
                   (rc2, s2) = dir_flush B (s1\<lparr>diobuf := replicate 16 zero\<rparr>)
               in if rc2 \<noteq> 0 then (-1, s2)
                  else (0, afs_say (uart_puts (str ''[fs] AEOS-FS formatted''))
                             (s2\<lparr>total_sectors := sb_total sb, data_lba := sb_data sb, next_free_lba := sb_data sb,
                                 mounted := True\<rparr>)))))"

definition afs_file_count :: "'s blk_ops \<Rightarrow> 's afs \<Rightarrow> int \<times> 's afs" where
  "afs_file_count B s =
     (if \<not> mounted s then (0, s)
      else (let (ok, s') = dir_load B s in
            (if ok then int (length (filter (\<lambda>e. de_start e \<noteq> 0) (diobuf s'))) else 0, s')))"

definition ls_line :: "afs_dirent \<Rightarrow> bytes" where
  "ls_line e =
     (if de_start e = 0 then []
      else uart_puts_nolf (str ''  '') @ uart_puts_nolf (dirent_bytes e) @ uart_puts_nolf (str ''  '')
           @ uart_dec (ucast (de_size e)) @ uart_puts (str '' bytes''))"

definition afs_ls :: "'s blk_ops \<Rightarrow> 's afs \<Rightarrow> 's afs" where
  "afs_ls B s =
     (if \<not> mounted s then afs_say (uart_puts (str ''  no filesystem mounted'')) s
      else (let (ok, s') = dir_load B s in
            if ok then afs_say (concat (map ls_line (diobuf s'))) s' else s'))"

section \<open>Files\<close>

definition new_dirent :: "bytes \<Rightarrow> afs_dirent" where
  "new_dirent name = \<lparr>de_name = pad_name 23 name @ [0], de_start = 0, de_size = 0\<rparr>"

definition dir_find :: "bytes \<Rightarrow> afs_dirent list \<Rightarrow> nat option" where
  "dir_find name d =
     find (\<lambda>i. de_start (d ! i) \<noteq> 0 \<and> fname_eq (drop (32 * i) (dir_bytes d)) name) [0..<length d]"

definition find_slot :: "bytes \<Rightarrow> bool \<Rightarrow> 's afs \<Rightarrow> nat option \<times> 's afs" where
  "find_slot name create s =
     (case dir_find name (diobuf s) of
        Some i \<Rightarrow> (Some i, s)
      | None \<Rightarrow>
          (case first_slot (\<lambda>e. de_start e = 0) (diobuf s) of
             None \<Rightarrow> (None, s)
           | Some j \<Rightarrow> if \<not> create then (None, s) else (Some j, s\<lparr>diobuf := (diobuf s)[j := new_dirent name]\<rparr>)))"

text \<open>The extent of a file that needs a new one: from the free list, otherwise from the end of the used area.\<close>

definition afs_alloc :: "u32 \<Rightarrow> 's afs \<Rightarrow> u32 option \<times> 's afs" where
  "afs_alloc nlbas s =
     (let (lba, s1) = alloc_from_free_list nlbas s in
      if lba \<noteq> 0 then (Some lba, s1)
      else (let lba = next_free_lba s1 in
            if lba + nlbas > total_sectors s1 then (None, s1)
            else (Some lba, s1\<lparr>next_free_lba := lba + nlbas\<rparr>)))"

function write_chunks :: "'s blk_ops \<Rightarrow> u32 \<Rightarrow> bytes \<Rightarrow> nat \<Rightarrow> nat \<Rightarrow> 's afs \<Rightarrow> bool \<times> 's afs" where
  "write_chunks B lba src len off s =
     (if off < len
      then
        (let chunk = (if len - off > 4096 then 4096 else len - off);
             k = (off div 4096) mod 4;
             buf = memcpy (iobuf s ! k) 0 src off chunk;
             (rc, s1) = wr_sectors B (lba + of_nat (off div 512)) (iobuf_at s + of_nat (4096 * k)) buf
                          (of_nat ((chunk + 511) div 512)) (s\<lparr>iobuf := (iobuf s)[k := buf]\<rparr>)
         in if rc \<noteq> 0 then (False, s1) else write_chunks B lba src len (off + 4096) s1)
      else (True, s))"
  by pat_completeness auto
termination
  by (relation "measure (\<lambda>(B, lba, src, len, off, s). len - off)") auto

declare write_chunks.simps [simp del]

definition afs_write_place :: "bytes \<Rightarrow> nat \<Rightarrow> 's afs \<Rightarrow> u32 option \<times> 's afs" where
  "afs_write_place name len s =
     (let nlbas = of_nat ((len + 511) div 512);
          (existing, s1) = find_slot name False s
      in case existing of
           Some i \<Rightarrow>
             if nlbas \<le> nsect (de_size (diobuf s1 ! i)) then (Some (de_start (diobuf s1 ! i)), s1)
             else (let (lba, s2) = afs_alloc nlbas s1 in
                   case lba of None \<Rightarrow> (None, s2)
                   | Some l \<Rightarrow> (Some l, s2\<lparr>diobuf := (diobuf s2)[i := (diobuf s2 ! i)\<lparr>de_start := l\<rparr>]\<rparr>))
         | None \<Rightarrow>
             (let (slot, s2) = find_slot name True s1 in
              case slot of None \<Rightarrow> (None, s2)
              | Some i \<Rightarrow>
                  (let (lba, s3) = afs_alloc nlbas s2 in
                   case lba of None \<Rightarrow> (None, s3)
                   | Some l \<Rightarrow> (Some l, s3\<lparr>diobuf := (diobuf s3)[i := (diobuf s3 ! i)\<lparr>de_start := l\<rparr>]\<rparr>))))"

definition afs_write :: "'s blk_ops \<Rightarrow> bytes option \<Rightarrow> bytes option \<Rightarrow> nat \<Rightarrow> 's afs \<Rightarrow> int \<times> 's afs" where
  "afs_write B name data len s =
     (case (name, data) of
        (Some nm, Some src) \<Rightarrow>
          if \<not> mounted s \<or> len = 0 \<or> len > 1024 * 1024 then (-1, s)
          else
            (let (ok, s1) = dir_load B s in
             if \<not> ok then (-1, s1)
             else
               (let (lba, s2) = afs_write_place nm len s1 in
                case lba of
                  None \<Rightarrow> (-1, s2)
                | Some l \<Rightarrow>
                    (let (done, s3) = write_chunks B l src len 0 s2 in
                     if \<not> done then (-1, s3)
                     else
                       (case find_slot nm False s3 of
                          (None, s4) \<Rightarrow> (-1, s4)
                        | (Some i, s4) \<Rightarrow>
                            (let (rc, s5) = dir_flush B
                                   (s4\<lparr>diobuf := (diobuf s4)[i := (diobuf s4 ! i)\<lparr>de_size := of_nat len\<rparr>]\<rparr>)
                             in (if rc = 0 then int len else -1, s5))))))
      | _ \<Rightarrow> (-1, s))"

text \<open>
  The bytes copied to the caller's buffer, and \<open>False\<close> when a transfer failed.  The length of a chunk does not
  depend on the room that is left in the caller's buffer.
\<close>

function read_chunks :: "'s blk_ops \<Rightarrow> u32 \<Rightarrow> nat \<Rightarrow> nat \<Rightarrow> bytes \<Rightarrow> 's afs \<Rightarrow> bool \<times> bytes \<times> 's afs" where
  "read_chunks B lba sz lim dst s =
     (let done = length dst in
      if done < lim \<and> done < sz
      then
        (let chunk = (if sz - done > 4096 then 4096 else sz - done);
             k = (done div 4096 + 1) mod 4;
             (rc, buf, s1) = rd_sectors B (lba + of_nat (done div 512)) (iobuf_at s + of_nat (4096 * k)) (iobuf s ! k)
                               (of_nat ((chunk + 511) div 512)) s;
             s2 = s1\<lparr>iobuf := (iobuf s1)[k := buf]\<rparr>
         in if rc \<noteq> 0 then (False, dst, s2)
            else read_chunks B lba sz lim (dst @ map (cbyte buf) [0..<chunk]) s2)
      else (True, dst, s))"
  by pat_completeness auto
termination
  by (relation "measure (\<lambda>(B, lba, sz, lim, dst, s). sz - length dst)") auto

declare read_chunks.simps [simp del]

definition afs_read :: "'s blk_ops \<Rightarrow> bytes option \<Rightarrow> bool \<Rightarrow> nat \<Rightarrow> 's afs \<Rightarrow> int \<times> bytes \<times> 's afs" where
  "afs_read B name buf lim s =
     (case name of
        None \<Rightarrow> (-1, [], s)
      | Some nm \<Rightarrow>
          if \<not> mounted s \<or> \<not> buf \<or> lim = 0 then (-1, [], s)
          else
            (let (ok, s1) = dir_load B s in
             if \<not> ok then (-1, [], s1)
             else
               (case find_slot nm False s1 of
                  (None, s2) \<Rightarrow> (-1, [], s2)
                | (Some i, s2) \<Rightarrow>
                    (let e = diobuf s2 ! i;
                         (ok2, out, s3) = read_chunks B (de_start e) (unat (de_size e)) lim [] s2
                     in (if ok2 then i32 (int (length out)) else -1, out, s3)))))"

definition afs_delete :: "'s blk_ops \<Rightarrow> bytes \<Rightarrow> 's afs \<Rightarrow> int \<times> 's afs" where
  "afs_delete B name s =
     (if \<not> mounted s then (-1, s)
      else
        (let (ok, s1) = dir_load B s in
         if \<not> ok then (-1, s1)
         else
           (case find_slot name False s1 of
              (None, s2) \<Rightarrow> (-1, s2)
            | (Some i, s2) \<Rightarrow>
                (let e = diobuf s2 ! i;
                     n = nsect (de_size e);
                     s3 = (if de_start e \<noteq> 0 \<and> 0 < n then snd (add_to_free_list (de_start e) n s2) else s2);
                     zero = \<lparr>de_name = replicate 24 0, de_start = 0, de_size = 0\<rparr>
                 in dir_flush B (s3\<lparr>diobuf := (diobuf s3)[i := zero]\<rparr>)))))"

section \<open>The directory as bytes\<close>

lemma length_dirent_bytes: "length (de_name e) = 24 \<Longrightarrow> length (dirent_bytes e) = 32"
  by (simp add: dirent_bytes_def)

lemma dirent_of_bytes: "length (de_name e) = 24 \<Longrightarrow> dirent_of (dirent_bytes e) = e"
  by (simp add: dirent_of_def dirent_bytes_def)

definition names24 :: "afs_dirent list \<Rightarrow> bool" where
  "names24 d \<longleftrightarrow> (\<forall>e\<in>set d. length (de_name e) = 24)"

lemma length_dir_bytes: "names24 d \<Longrightarrow> length (dir_bytes d) = 32 * length d"
  by (induction d) (simp_all add: dir_bytes_def names24_def length_dirent_bytes)

lemma drop_dir_bytes: "names24 d \<Longrightarrow> drop (32 * i) (dir_bytes d) = dir_bytes (drop i d)"
proof (induction d arbitrary: i)
  case (Cons e d)
  then have l: "length (dirent_bytes e) = 32" by (simp add: names24_def length_dirent_bytes)
  show ?case
  proof (cases i)
    case (Suc j)
    have "names24 d" using Cons.prems by (simp add: names24_def)
    with Cons.IH [of j] l Suc show ?thesis by (simp add: dir_bytes_def)
  qed simp
qed (simp add: dir_bytes_def)

lemma dir_bytes_at:
  "names24 d \<Longrightarrow> i < length d \<Longrightarrow> drop (32 * i) (dir_bytes d) = dirent_bytes (d ! i) @ dir_bytes (drop (Suc i) d)"
  by (simp add: drop_dir_bytes) (simp add: Cons_nth_drop_Suc [symmetric] dir_bytes_def)

lemma dir_of_bytes: "names24 d \<Longrightarrow> length d = 16 \<Longrightarrow> dir_of (dir_bytes d) = d"
  unfolding dir_of_def
proof (rule nth_equalityI)
  fix i
  assume a: "names24 d" "length d = 16" and "i < length (map (\<lambda>i. dirent_of (take 32 (drop (32 * i) (dir_bytes d)))) [0..<16])"
  then have i: "i < length d" by simp
  then have "length (de_name (d ! i)) = 24" using a by (simp add: names24_def)
  then show "map (\<lambda>i. dirent_of (take 32 (drop (32 * i) (dir_bytes d)))) [0..<16] ! i = d ! i"
    using a i by (simp add: dir_bytes_at length_dirent_bytes dirent_of_bytes)
qed simp

lemma names24_dir_of: "length b = 512 \<Longrightarrow> names24 (dir_of b)"
  by (auto simp: names24_def dir_of_def dirent_of_def)

lemma length_dir_of [simp]: "length (dir_of b) = 16"
  by (simp add: dir_of_def)

lemma fname_eq_iff: "fname_eq a b \<longleftrightarrow> cstr a = cstr b"
proof (induction a b rule: fname_eq.induct)
  case (1 b)
  then show ?case by (cases b) (auto simp: cstr_def)
next
  case (2 x a b)
  then show ?case by (cases b) (auto simp: cstr_def)
qed

lemma cstr_append: "0 \<in> set a \<Longrightarrow> cstr (a @ b) = cstr a"
  unfolding cstr_def by (rule takeWhile_append1) auto

section \<open>Finding files\<close>

definition live :: "afs_dirent \<Rightarrow> bool" where
  "live e \<longleftrightarrow> de_start e \<noteq> 0"

definition terminated :: "afs_dirent list \<Rightarrow> bool" where
  "terminated d \<longleftrightarrow> (\<forall>e\<in>set d. live e \<longrightarrow> 0 \<in> set (de_name e))"

lemma dir_find_eq:
  assumes "names24 d" "terminated d"
  shows "dir_find name d = first_slot (\<lambda>e. live e \<and> cstr (de_name e) = cstr name) d"
  unfolding dir_find_def first_slot_def
proof (rule find_cong [OF refl])
  fix i
  assume "i \<in> set [0..<length d]"
  then have i: "i < length d" by simp
  have "cstr (drop (32 * i) (dir_bytes d)) = cstr (de_name (d ! i))" if "live (d ! i)"
    using that assms i by (simp add: dir_bytes_at dirent_bytes_def terminated_def cstr_append)
  then show "(de_start (d ! i) \<noteq> 0 \<and> fname_eq (drop (32 * i) (dir_bytes d)) name)
      = (live (d ! i) \<and> cstr (de_name (d ! i)) = cstr name)"
    by (auto simp: live_def fname_eq_iff)
qed

text \<open>The files of a disk: the name and the content of every live entry.\<close>

definition afs_files :: "(nat \<Rightarrow> u8) \<Rightarrow> nat \<Rightarrow> bytes \<Rightarrow> bytes option" where
  "afs_files disk base nm =
     (let d = dir_of (disk_read disk (base + 1) 512) in
      case first_slot (\<lambda>e. live e \<and> cstr (de_name e) = nm) d of
        None \<Rightarrow> None
      | Some i \<Rightarrow> Some (disk_read disk (base + unat (de_start (d ! i))) (unat (de_size (d ! i)))))"

lemma pad_name_cstr: "pad_name n name = take n (cstr name) @ replicate (n - length (cstr name)) 0"
proof -
  define j where "j = length (takeWhile (\<lambda>j. cbyte name j \<noteq> 0) [0..<n])"
  have j: "j \<le> n" "\<forall>i<j. cbyte name i \<noteq> 0" "j < n \<longrightarrow> cbyte name j = 0"
    using length_takeWhile_upt [OF j_def [symmetric]] by auto
  have "j \<le> length (cstr name)" using j(2) cbyte_cstr_end [of name] by (meson not_le)
  moreover have "\<not> (j < length (cstr name) \<and> j < n)"
    using j(3) cbyte_cstr [of j name] cstr_no_NUL [of "cstr name ! j" name] by auto
  ultimately have e: "j = min n (length (cstr name))" using j(1) by auto
  have "map (cbyte name) [0..<j] = take n (cstr name)"
    by (rule nth_equalityI) (auto simp: e cbyte_cstr)
  then show ?thesis unfolding pad_name_def j_def [symmetric] Let_def by (auto simp: e)
qed

lemma cstr_new_dirent:
  assumes "length (cstr name) \<le> 23"
  shows "cstr (de_name (new_dirent name)) = cstr name" "length (de_name (new_dirent name)) = 24"
    "0 \<in> set (de_name (new_dirent name))"
proof -
  have "de_name (new_dirent name) = cstr name @ replicate (24 - length (cstr name)) 0"
    using assms by (simp add: new_dirent_def pad_name_cstr replicate_append_same Suc_diff_le flip: replicate_Suc)
  moreover have "cstr (cstr name @ replicate k 0) = cstr name" for k
    unfolding cstr_def [of "_ @ _"] by (subst takeWhile_append2) (auto dest: cstr_no_NUL)
  ultimately show "cstr (de_name (new_dirent name)) = cstr name" by simp
qed (simp_all add: new_dirent_def)

section \<open>Extents\<close>

definition disjoint_list :: "'a set list \<Rightarrow> bool" where
  "disjoint_list xs \<longleftrightarrow> (\<forall>i j. i < length xs \<and> j < length xs \<and> i \<noteq> j \<longrightarrow> xs ! i \<inter> xs ! j = {})"

lemma disjoint_listD: "disjoint_list xs \<Longrightarrow> i < length xs \<Longrightarrow> j < length xs \<Longrightarrow> i \<noteq> j \<Longrightarrow> xs ! i \<inter> xs ! j = {}"
  by (simp add: disjoint_list_def)

lemma disjoint_list_sorted: "disjoint_list xs \<longleftrightarrow> sorted_wrt (\<lambda>A B. A \<inter> B = {}) xs"
  unfolding disjoint_list_def sorted_wrt_iff_nth_less
  by (metis Int_commute less_trans nat_neq_iff)

lemma disjoint_list_append:
  "disjoint_list (xs @ ys) \<longleftrightarrow> disjoint_list xs \<and> disjoint_list ys \<and> (\<forall>A\<in>set xs. \<forall>B\<in>set ys. A \<inter> B = {})"
  by (simp add: disjoint_list_sorted sorted_wrt_append)

lemma disjoint_list_update:
  assumes "disjoint_list xs" "\<And>j. j < length xs \<Longrightarrow> j \<noteq> i \<Longrightarrow> xs ! j \<inter> A = {}"
  shows "disjoint_list (xs[i := A])"
  unfolding disjoint_list_def
proof (intro allI impI)
  fix j k
  assume "j < length (xs[i := A]) \<and> k < length (xs[i := A]) \<and> j \<noteq> k"
  then show "xs[i := A] ! j \<inter> xs[i := A] ! k = {}"
    using disjoint_listD [OF assms(1), of j k] assms(2) [of j] assms(2) [of k]
    by (cases "i < length xs"; cases "j = i"; cases "k = i") (simp_all add: Int_commute)
qed

text \<open>Taking entry \<open>i\<close> out of an array by moving the last entry into its place.\<close>

definition swap_remove :: "nat \<Rightarrow> 'a list \<Rightarrow> 'a list" where
  "swap_remove i xs = butlast (xs[i := last xs])"

lemma swap_remove_nth:
  assumes "i < length xs" "j < length xs - 1"
  shows "swap_remove i xs ! j = (if j = i then xs ! (length xs - 1) else xs ! j)"
proof -
  have "xs \<noteq> []" using assms(1) by auto
  then show ?thesis using assms by (auto simp: swap_remove_def nth_butlast last_conv_nth)
qed

lemma length_swap_remove [simp]: "length (swap_remove i xs) = length xs - 1"
  by (simp add: swap_remove_def)

definition swap_source :: "nat \<Rightarrow> 'a list \<Rightarrow> nat \<Rightarrow> nat" where
  "swap_source i xs j = (if j = i then length xs - 1 else j)"

lemma swap_source:
  assumes "i < length xs" "j < length xs - 1"
  shows "swap_source i xs j < length xs" "swap_source i xs j \<noteq> i" "swap_remove i xs ! j = xs ! swap_source i xs j"
    and "k < length xs - 1 \<Longrightarrow> j \<noteq> k \<Longrightarrow> swap_source i xs j \<noteq> swap_source i xs k"
  using assms by (auto simp: swap_source_def swap_remove_nth)

lemma disjoint_swap_remove:
  assumes d: "disjoint_list (map f xs)" and i: "i < length xs"
  shows "disjoint_list (map f (swap_remove i xs))"
  unfolding disjoint_list_def
proof (intro allI impI)
  fix j k
  assume jk: "j < length (map f (swap_remove i xs)) \<and> k < length (map f (swap_remove i xs)) \<and> j \<noteq> k"
  then have l: "j < length xs - 1" "k < length xs - 1" by simp_all
  then have "f (xs ! swap_source i xs j) \<inter> f (xs ! swap_source i xs k) = {}"
    using disjoint_listD [OF d, of "swap_source i xs j" "swap_source i xs k"] swap_source [OF i l(1)] swap_source [OF i l(2)] jk
    by simp
  then show "map f (swap_remove i xs) ! j \<inter> map f (swap_remove i xs) ! k = {}"
    using swap_source(3) [OF i l(1)] swap_source(3) [OF i l(2)] l by simp
qed

lemma set_swap_remove:
  assumes "i < length xs" "x \<in> set (swap_remove i xs)"
  shows "\<exists>k<length xs. k \<noteq> i \<and> x = xs ! k"
proof -
  obtain j where j: "j < length (swap_remove i xs)" "x = swap_remove i xs ! j"
    using assms(2) by (metis in_set_conv_nth)
  then have "j < length xs - 1" by simp
  from swap_source [OF assms(1) this] j(2) show ?thesis by metis
qed

definition ext :: "afs_dirent \<Rightarrow> nat set" where
  "ext e = (if live e then {unat (de_start e)..<unat (de_start e) + unat (nsect (de_size e))} else {})"

definition fext :: "afs_extent \<Rightarrow> nat set" where
  "fext e = {unat (fe_start e)..<unat (fe_start e) + unat (fe_count e)}"

definition extents_ok :: "nat \<Rightarrow> nat set list \<Rightarrow> afs_extent list \<Rightarrow> bool" where
  "extents_ok nf E fl \<longleftrightarrow>
     disjoint_list (E @ map fext fl) \<and> (\<forall>A\<in>set E. A \<subseteq> {2..<nf})
     \<and> (\<forall>f\<in>set fl. 2 \<le> unat (fe_start f) \<and> 0 < fe_count f \<and> unat (fe_start f) + unat (fe_count f) \<le> nf)"

lemma fext_split:
  assumes "n \<le> fe_count e" "unat (fe_start e) + unat (fe_count e) < 2 ^ 32"
  defines "e' \<equiv> \<lparr>fe_start = fe_start e + n, fe_count = fe_count e - n\<rparr>"
  shows "fext e' \<subseteq> fext e" "{unat (fe_start e)..<unat (fe_start e) + unat n} \<inter> fext e' = {}"
    "unat (fe_start e') = unat (fe_start e) + unat n" "unat (fe_count e') = unat (fe_count e) - unat n"
proof -
  have n: "unat n \<le> unat (fe_count e)" using assms(1) by (simp add: word_le_nat_alt)
  show a: "unat (fe_start e') = unat (fe_start e) + unat n" "unat (fe_count e') = unat (fe_count e) - unat n"
    using assms(1,2) n by (simp_all add: e'_def unat_word_ariths unat_sub)
  show "fext e' \<subseteq> fext e" "{unat (fe_start e)..<unat (fe_start e) + unat n} \<inter> fext e' = {}"
    unfolding fext_def a using n by auto
qed

lemma free_list_take:
  assumes ok: "extents_ok nf E fl" and nf: "nf < 2 ^ 32" and n: "0 < unat n"
    and i: "i < length fl" "n \<le> fe_count (fl ! i)"
  defines "e \<equiv> fl ! i"
  defines "e' \<equiv> \<lparr>fe_start = fe_start e + n, fe_count = fe_count e - n\<rparr>"
  defines "fl' \<equiv> (if fe_count e' = 0 then swap_remove i (fl[i := e']) else fl[i := e'])"
  shows "extents_ok nf ({unat (fe_start e)..<unat (fe_start e) + unat n} # E) fl'"
    and "2 \<le> unat (fe_start e)" and "unat (fe_start e) + unat n \<le> nf"
proof -
  let ?A = "{unat (fe_start e)..<unat (fe_start e) + unat n}"
  have e: "e \<in> set fl" using i(1) by (simp add: e_def)
  have b: "2 \<le> unat (fe_start e)" "unat (fe_start e) + unat (fe_count e) \<le> nf"
    using ok e by (auto simp: extents_ok_def)
  then have sp: "fext e' \<subseteq> fext e" "?A \<inter> fext e' = {}" "unat (fe_start e') = unat (fe_start e) + unat n"
      "unat (fe_count e') = unat (fe_count e) - unat n"
    using fext_split [of n e] i(2) nf unfolding e'_def e_def by auto
  have nle: "unat n \<le> unat (fe_count e)" using i(2) by (simp add: word_le_nat_alt e_def)
  show "2 \<le> unat (fe_start e)" "unat (fe_start e) + unat n \<le> nf" using b nle by simp_all
  have A: "?A \<subseteq> fext e" using nle by (auto simp: fext_def)
  have dj: "disjoint_list E" "disjoint_list (map fext fl)" "\<forall>B\<in>set E. \<forall>f\<in>set fl. B \<inter> fext f = {}"
    using ok by (auto simp: extents_ok_def disjoint_list_append)
  have other: "fext (fl ! k) \<inter> fext e = {}" if "k < length fl" "k \<noteq> i" for k
    using disjoint_listD [OF dj(2), of k i] that i(1) by (simp add: e_def)
  have upd: "disjoint_list (map fext (fl[i := e']))"
    unfolding map_update using dj(2) other sp(1) by (intro disjoint_list_update) auto
  have fl': "f \<in> set fl' \<Longrightarrow> f = e' \<and> fe_count e' \<noteq> 0 \<or> (\<exists>k<length fl. k \<noteq> i \<and> f = fl ! k)" for f
    using set_swap_remove [of i "fl[i := e']" f] i(1)
    by (auto simp: fl'_def in_set_conv_nth nth_list_update split: if_splits)
  have "disjoint_list (map fext fl')"
    using upd disjoint_swap_remove [OF upd] i(1) by (simp add: fl'_def)
  moreover have "?A \<inter> fext f = {} \<and> (\<forall>B\<in>set E. B \<inter> fext f = {}) \<and> 2 \<le> unat (fe_start f) \<and> 0 < fe_count f
      \<and> unat (fe_start f) + unat (fe_count f) \<le> nf" if "f \<in> set fl'" for f
  proof (rule disjE [OF fl' [OF that]])
    assume f: "f = e' \<and> fe_count e' \<noteq> 0"
    moreover have "\<forall>B\<in>set E. B \<inter> fext e' = {}" using sp(1) e dj(3) by blast
    ultimately show ?thesis using sp(2-4) b nle by (simp add: word_neq_0_conv)
  next
    assume "\<exists>k<length fl. k \<noteq> i \<and> f = fl ! k"
    then obtain k where k: "k < length fl" "k \<noteq> i" "f = fl ! k" by blast
    then have "f \<in> set fl" by simp
    then show ?thesis using A other [OF k(1,2)] k(3) dj(3) ok by (auto simp: extents_ok_def)
  qed
  moreover have "\<forall>B\<in>set E. ?A \<inter> B = {}" using dj(3) e A by blast
  moreover have "\<forall>B\<in>set E. B \<subseteq> {2..<nf}" using ok by (simp add: extents_ok_def)
  moreover have "?A \<subseteq> {2..<nf}" using b nle by auto
  ultimately show "extents_ok nf (?A # E) fl'"
    using dj(1) unfolding extents_ok_def disjoint_list_sorted by (auto simp: sorted_wrt_append)
qed

lemma alloc_ok:
  assumes ok: "extents_ok (unat (next_free_lba s)) E (free_extents s)" and n: "0 < unat n"
    and b: "unat (next_free_lba s) + unat n < 2 ^ 32" "2 \<le> unat (next_free_lba s)"
    and a: "afs_alloc n s = (Some l, s')"
  shows "extents_ok (unat (next_free_lba s')) ({unat l..<unat l + unat n} # E) (free_extents s')"
    and "2 \<le> unat l" "unat l + unat n \<le> unat (next_free_lba s')"
    and "unat (next_free_lba s) \<le> unat (next_free_lba s')" "unat (next_free_lba s') \<le> unat (next_free_lba s) + unat n"
    and "next_free_lba s \<le> total_sectors s \<Longrightarrow> next_free_lba s' \<le> total_sectors s"
    and "s' = s\<lparr>free_extents := free_extents s', next_free_lba := next_free_lba s'\<rparr>"
proof -
  let ?fl = "free_extents s"
  let ?R = "extents_ok (unat (next_free_lba s')) ({unat l..<unat l + unat n} # E) (free_extents s') \<and> 2 \<le> unat l
    \<and> unat l + unat n \<le> unat (next_free_lba s') \<and> unat (next_free_lba s) \<le> unat (next_free_lba s')
    \<and> unat (next_free_lba s') \<le> unat (next_free_lba s) + unat n
    \<and> (next_free_lba s \<le> total_sectors s \<longrightarrow> next_free_lba s' \<le> total_sectors s)
    \<and> s' = s\<lparr>free_extents := free_extents s', next_free_lba := next_free_lba s'\<rparr>"
  have ?R
  proof (cases "first_slot (\<lambda>e. fe_count e \<ge> n) ?fl")
    case None
    then have s': "l = next_free_lba s" "s' = s\<lparr>next_free_lba := next_free_lba s + n\<rparr>" "next_free_lba s + n \<le> total_sectors s"
      using a by (auto simp: afs_alloc_def alloc_from_free_list_def Let_def split: if_splits)
    have u: "unat (next_free_lba s + n) = unat (next_free_lba s) + unat n" using b(1) by (simp add: unat_word_ariths)
    have "{unat (next_free_lba s)..<unat (next_free_lba s) + unat n} \<inter> A = {}"
      if "A \<in> set (E @ map fext ?fl)" for A
      using that ok by (fastforce simp: extents_ok_def fext_def)
    then have "disjoint_list ({unat l..<unat l + unat n} # E @ map fext ?fl)"
      using ok by (simp add: s' extents_ok_def disjoint_list_sorted)
    moreover have "\<forall>A\<in>set E. A \<subseteq> {2..<unat (next_free_lba s) + unat n}"
      using ok by (fastforce simp: extents_ok_def)
    ultimately show ?thesis
      using ok b(2) s'(3) unfolding s'(1,2) extents_ok_def by (auto simp: u)
  next
    case (Some i)
    then have i: "i < length ?fl" "n \<le> fe_count (?fl ! i)" by (simp_all add: first_slot_Some)
    note t = free_list_take [OF ok _ n i]
    have nf: "unat (next_free_lba s) < 2 ^ 32" using b(1) by linarith
    have "fe_start (?fl ! i) \<noteq> 0" using t(2) [OF nf] by auto
    then have "l = fe_start (?fl ! i)" "next_free_lba s' = next_free_lba s"
      "s' = s\<lparr>free_extents := free_extents s', next_free_lba := next_free_lba s'\<rparr>"
      "free_extents s' = (let e = ?fl ! i; e' = \<lparr>fe_start = fe_start e + n, fe_count = fe_count e - n\<rparr>
         in if fe_count e' = 0 then swap_remove i (?fl[i := e']) else ?fl[i := e'])"
      using a Some by (auto simp: afs_alloc_def alloc_from_free_list_def Let_def swap_remove_def)
    then show ?thesis using t [OF nf] by (simp add: Let_def)
  qed
  then show "extents_ok (unat (next_free_lba s')) ({unat l..<unat l + unat n} # E) (free_extents s')"
    "2 \<le> unat l" "unat l + unat n \<le> unat (next_free_lba s')"
    "unat (next_free_lba s) \<le> unat (next_free_lba s')" "unat (next_free_lba s') \<le> unat (next_free_lba s) + unat n"
    "next_free_lba s \<le> total_sectors s \<Longrightarrow> next_free_lba s' \<le> total_sectors s"
    "s' = s\<lparr>free_extents := free_extents s', next_free_lba := next_free_lba s'\<rparr>"
    by blast+
qed

lemma afs_alloc_none:
  assumes "\<forall>f\<in>set (free_extents s). 0 < unat (fe_start f)" and "afs_alloc n s = (None, s')"
  shows "s' = s"
proof (cases "first_slot (\<lambda>e. fe_count e \<ge> n) (free_extents s)")
  case None
  then show ?thesis using assms(2) by (auto simp: afs_alloc_def alloc_from_free_list_def Let_def split: if_splits)
next
  case (Some i)
  then have "i < length (free_extents s)" by (simp add: first_slot_Some)
  then have "0 < unat (fe_start (free_extents s ! i))" using assms(1) nth_mem by blast
  then have "fe_start (free_extents s ! i) \<noteq> 0" by auto
  then show ?thesis using assms(2) Some by (auto simp: afs_alloc_def alloc_from_free_list_def Let_def)
qed

section \<open>Transfers\<close>

lemma disk_write_same: "512 * sec \<le> i \<Longrightarrow> i < 512 * sec + length b \<Longrightarrow> disk_write d sec b i = b ! (i - 512 * sec)"
  by (simp add: disk_write_def)

lemma disk_write_other: "i < 512 * sec \<or> 512 * sec + length b \<le> i \<Longrightarrow> disk_write d sec b i = d i"
  by (auto simp: disk_write_def)

text \<open>The state of a driver after \<open>k\<close> more requests.\<close>

definition after :: "('s \<Rightarrow> bool) \<Rightarrow> ('s \<Rightarrow> nat) \<Rightarrow> ('s \<Rightarrow> nat) \<Rightarrow> ('s \<Rightarrow> u64) \<Rightarrow> 's \<Rightarrow> nat \<Rightarrow> 's \<Rightarrow> bool" where
  "after ok left secs cap b k b' \<longleftrightarrow> ok b' \<and> left b' = left b - k \<and> secs b' = secs b \<and> cap b' = cap b"

lemma after_trans: "after ok left secs cap a i b \<Longrightarrow> after ok left secs cap b j c \<Longrightarrow> after ok left secs cap a (i + j) c"
  by (simp add: after_def)

context block_device
begin

lemma rd_sectors_ok:
  assumes "ok (blk s)" "0 < left (blk s)" "0 < unat n" "unat n \<le> 8" "512 * unat n \<le> length buf"
    and "unat (afs_base s) + unat lba + unat n \<le> secs (blk s)" "unat (afs_base s) + unat lba < 2 ^ 32"
  obtains b where "rd_sectors B lba at buf n s =
      (0, disk_read (disk (blk s)) (unat (afs_base s) + unat lba) (512 * unat n) @ drop (512 * unat n) buf, s\<lparr>blk := b\<rparr>)"
    "after ok left secs (op_capacity B) (blk s) 1 b" "disk b = disk (blk s)"
proof -
  have u: "unat (afs_base s + lba) = unat (afs_base s) + unat lba" using assms(7) by (simp add: unat_word_ariths)
  have "0 < n" using assms(3) by (simp add: word_less_nat_alt)
  from read_ok [OF assms(1,2) this assms(4), of "take (512 * unat n) buf" "afs_base s + lba" at] assms(5,6)
  show thesis by (auto simp: u rd_sectors_def after_def intro: that)
qed

lemma wr_sectors_ok:
  assumes "ok (blk s)" "0 < left (blk s)" "0 < unat n" "unat n \<le> 8" "512 * unat n \<le> length buf"
    and "unat (afs_base s) + unat lba + unat n \<le> secs (blk s)" "unat (afs_base s) + unat lba < 2 ^ 32"
  obtains b where "wr_sectors B lba at buf n s = (0, s\<lparr>blk := b\<rparr>)"
    "after ok left secs (op_capacity B) (blk s) 1 b"
    "disk b = disk_write (disk (blk s)) (unat (afs_base s) + unat lba) (take (512 * unat n) buf)"
proof -
  have u: "unat (afs_base s + lba) = unat (afs_base s) + unat lba" using assms(7) by (simp add: unat_word_ariths)
  have "0 < n" using assms(3) by (simp add: word_less_nat_alt)
  from write_ok [OF assms(1,2) this assms(4), of "take (512 * unat n) buf" "afs_base s + lba" at] assms(5,6)
  show thesis by (auto simp: u wr_sectors_def after_def intro: that)
qed

lemma dir_load_ok:
  assumes "ok (blk s)" "0 < left (blk s)" "names24 (diobuf s)" "length (diobuf s) = 16"
    and "unat (afs_base s) + 2 \<le> secs (blk s)" "unat (afs_base s) + 1 < 2 ^ 32"
  obtains b where
    "dir_load B s = (True, s\<lparr>blk := b, diobuf := dir_of (disk_read (disk (blk s)) (unat (afs_base s) + 1) 512)\<rparr>)"
    "after ok left secs (op_capacity B) (blk s) 1 b" "disk b = disk (blk s)"
proof (rule rd_sectors_ok [of s 1 "dir_bytes (diobuf s)" 1 "diobuf_at s"])
  fix b
  assume "rd_sectors B 1 (diobuf_at s) (dir_bytes (diobuf s)) 1 s =
      (0, disk_read (disk (blk s)) (unat (afs_base s) + unat 1) (512 * unat 1) @ drop (512 * unat 1) (dir_bytes (diobuf s)),
       s\<lparr>blk := b\<rparr>)"
    and "after ok left secs (op_capacity B) (blk s) 1 b" "disk b = disk (blk s)"
  then show thesis using assms(3,4) by (intro that [of b]) (simp_all add: dir_load_def length_dir_bytes)
qed (use assms in \<open>simp_all add: length_dir_bytes\<close>)

lemma dir_flush_ok:
  assumes "ok (blk s)" "0 < left (blk s)" "names24 (diobuf s)" "length (diobuf s) = 16"
    and "unat (afs_base s) + 2 \<le> secs (blk s)" "unat (afs_base s) + 1 < 2 ^ 32"
  obtains b where "dir_flush B s = (0, s\<lparr>blk := b\<rparr>)" "after ok left secs (op_capacity B) (blk s) 1 b"
    "disk b = disk_write (disk (blk s)) (unat (afs_base s) + 1) (dir_bytes (diobuf s))"
proof (rule wr_sectors_ok [of s 1 "dir_bytes (diobuf s)" 1 "diobuf_at s"])
  fix b
  assume "wr_sectors B 1 (diobuf_at s) (dir_bytes (diobuf s)) 1 s = (0, s\<lparr>blk := b\<rparr>)"
    and "after ok left secs (op_capacity B) (blk s) 1 b"
    and "disk b = disk_write (disk (blk s)) (unat (afs_base s) + unat 1) (take (512 * unat 1) (dir_bytes (diobuf s)))"
  then show thesis using assms(3,4) by (intro that [of b]) (simp_all add: dir_flush_def length_dir_bytes)
qed (use assms in \<open>simp_all add: length_dir_bytes\<close>)

end

definition bufs_ok :: "'s afs \<Rightarrow> bool" where
  "bufs_ok s \<longleftrightarrow> length (iobuf s) = 4 \<and> (\<forall>b\<in>set (iobuf s). length b = 4096)"

lemma bufs_ok_update: "bufs_ok s \<Longrightarrow> length b = 4096 \<Longrightarrow> bufs_ok (s\<lparr>iobuf := (iobuf s)[k := b]\<rparr>)"
  using set_update_subset_insert [of "iobuf s" k b] by (auto simp: bufs_ok_def)

text \<open>What a partly written file looks like on the disk: bytes from \<open>off\<close> to \<open>len\<close> written, the rest as before.\<close>

definition written :: "nat \<Rightarrow> bytes \<Rightarrow> nat \<Rightarrow> nat \<Rightarrow> (nat \<Rightarrow> u8) \<Rightarrow> (nat \<Rightarrow> u8) \<Rightarrow> bool" where
  "written sec src off len d d' \<longleftrightarrow>
     (\<forall>i. 512 * sec + off \<le> i \<and> i < 512 * sec + len \<longrightarrow> d' i = src ! (i - 512 * sec))
     \<and> (\<forall>i. i < 512 * sec + off \<or> 512 * (sec + (len + 511) div 512) \<le> i \<longrightarrow> d' i = d i)"

lemma sector_room:
  fixes off :: nat
  assumes "4096 dvd off" "off < len" "c \<le> len - off"
  shows "off div 512 + (c + 511) div 512 \<le> (len + 511) div 512"
proof -
  obtain q where q: "off = 4096 * q" using assms(1) by blast
  have "len + 511 = (len - off + 511) + (8 * q) * 512" using assms(2) q by simp
  then have "(len + 511) div 512 = 8 * q + (len - off + 511) div 512"
    by (metis add.commute div_mult_self3 zero_neq_numeral)
  moreover have "(c + 511) div 512 \<le> (len - off + 511) div 512" using assms(3) by (intro div_le_mono) simp
  ultimately show ?thesis using q by simp
qed

lemma written_step:
  assumes w: "written sec src (off + 4096) len (disk_write d (sec + off div 512) (take (512 * n) buf)) d'"
    and off: "4096 dvd off" "off < len" and len: "len \<le> length src" and buf: "length buf = 4096"
    and c: "c = (if len - off > 4096 then 4096 else len - off)" and n: "n = (c + 511) div 512"
    and data: "take c buf = take c (drop off src)"
  shows "written sec src off len d d'"
proof -
  obtain q where q: "off = 4096 * q" using off(1) by blast
  have o: "512 * (sec + off div 512) = 512 * sec + off" using q by simp
  have c': "c \<le> 4096" "0 < c" "off + c \<le> len" "c \<le> 512 * n" "512 * n \<le> 4096"
    using off(2) unfolding c n by auto
  have lb: "length (take (512 * n) buf) = 512 * n" using c'(5) buf by simp
  have last: "c = 4096 \<or> off + c = len" using off(2) unfolding c by auto
  have "off div 512 + n \<le> (len + 511) div 512" unfolding n using c'(3) off by (intro sector_room) simp_all
  then have room: "off + 512 * n \<le> 512 * ((len + 511) div 512)" using q by simp
  have in_chunk: "disk_write d (sec + off div 512) (take (512 * n) buf) i = src ! (i - 512 * sec)"
    if "512 * sec + off \<le> i" "i < 512 * sec + off + c" for i
  proof -
    let ?j = "i - (512 * sec + off)"
    have "?j < c" using that by simp
    moreover have "disk_write d (sec + off div 512) (take (512 * n) buf) i = buf ! ?j"
      using that c'(4) by (subst disk_write_same) (simp_all only: o lb, auto)
    moreover have "buf ! ?j = take c buf ! ?j" using \<open>?j < c\<close> by simp
    moreover have "take c (drop off src) ! ?j = src ! (off + ?j)" using \<open>?j < c\<close> c'(3) len by simp
    ultimately show ?thesis using data that by simp
  qed
  have outside: "disk_write d (sec + off div 512) (take (512 * n) buf) i = d i"
    if "i < 512 * sec + off \<or> 512 * sec + off + 512 * n \<le> i" for i
    using that by (intro disk_write_other) (simp only: o lb)
  show ?thesis unfolding written_def
  proof (intro conjI allI impI)
    fix i
    assume i: "512 * sec + off \<le> i \<and> i < 512 * sec + len"
    show "d' i = src ! (i - 512 * sec)"
    proof (cases "i < 512 * sec + off + 4096")
      case True
      then have "d' i = disk_write d (sec + off div 512) (take (512 * n) buf) i"
        using w unfolding written_def by simp
      moreover have "i < 512 * sec + off + c" using True i last by auto
      ultimately show ?thesis using in_chunk i by simp
    next
      case False
      then show ?thesis using w i unfolding written_def by (simp add: add.assoc)
    qed
  next
    fix i
    assume i: "i < 512 * sec + off \<or> 512 * (sec + (len + 511) div 512) \<le> i"
    then have "d' i = disk_write d (sec + off div 512) (take (512 * n) buf) i"
      using w unfolding written_def by fastforce
    moreover have "i < 512 * sec + off \<or> 512 * sec + off + 512 * n \<le> i" using i room by auto
    ultimately show "d' i = d i" using outside by simp
  qed
qed

definition chunks :: "nat \<Rightarrow> nat" where
  "chunks n = (n + 4095) div 4096"

lemma chunks_step:
  assumes "off < len"
  shows "chunks (len - off) = Suc (chunks (len - (off + 4096)))"
proof (cases "len - off \<le> 4096")
  case True
  define k where "k = len - off - 1"
  have "len - off + 4095 = k + 4096" "k < 4096" "len - (off + 4096) = 0" using assms True by (simp_all add: k_def)
  then show ?thesis by (simp add: chunks_def)
next
  case False
  define k where "k = len - (off + 4096) + 4095"
  have "len - off + 4095 = k + 4096" using False by (simp add: k_def)
  then show ?thesis unfolding chunks_def k_def [symmetric] by simp
qed

lemma written_refl: "len \<le> off \<Longrightarrow> written sec src off len d d"
  by (auto simp: written_def)

lemma ceil_512:
  fixes x :: nat
  shows "x \<le> 512 * ((x + 511) div 512)" "0 < x \<Longrightarrow> 0 < (x + 511) div 512"
  "x \<le> 4096 \<Longrightarrow> (x + 511) div 512 \<le> 8" "x \<le> 2 ^ 20 \<Longrightarrow> (x + 511) div 512 \<le> 2048"
proof -
  have "x + 511 = 512 * ((x + 511) div 512) + (x + 511) mod 512" "(x + 511) mod 512 < 512"
    "(2 :: nat) ^ 20 = 1048576" by simp_all
  then show "x \<le> 512 * ((x + 511) div 512)" "0 < x \<Longrightarrow> 0 < (x + 511) div 512"
    "x \<le> 4096 \<Longrightarrow> (x + 511) div 512 \<le> 8" "x \<le> 2 ^ 20 \<Longrightarrow> (x + 511) div 512 \<le> 2048" by linarith+
qed

lemma sector_count:
  assumes "off < len" "len \<le> 2 ^ 20"
  defines "c \<equiv> if len - off > 4096 then 4096 else len - off"
  shows "unat (of_nat ((c + 511) div 512) :: u32) = (c + 511) div 512" "0 < (c + 511) div 512" "(c + 511) div 512 \<le> 8"
    "unat (of_nat (off div 512) :: u32) = off div 512" "0 < c" "c \<le> 4096" "off + c \<le> len"
proof -
  show c: "0 < c" "c \<le> 4096" "off + c \<le> len" using assms(1) by (auto simp: c_def)
  show n: "0 < (c + 511) div 512" "(c + 511) div 512 \<le> 8" using c ceil_512 [of c] by blast+
  then show "unat (of_nat ((c + 511) div 512) :: u32) = (c + 511) div 512"
    by (simp only: unsigned_of_nat) (simp add: take_bit_nat_eq_self)
  have "off div 512 < 2 ^ 32" using assms(1,2) div_le_dividend [of off 512] by simp
  then show "unat (of_nat (off div 512) :: u32) = off div 512"
    by (simp only: unsigned_of_nat) (simp add: take_bit_nat_eq_self)
qed

context block_device
begin

lemma write_chunks_ok:
  assumes "ok (blk s)" "chunks (len - off) \<le> left (blk s)" "len \<le> length src" "len \<le> 2 ^ 20" "bufs_ok s" "4096 dvd off"
    and "unat (afs_base s) + unat lba + (len + 511) div 512 \<le> secs (blk s)"
    and "unat (afs_base s) + unat lba + (len + 511) div 512 < 2 ^ 32"
  shows "\<exists>b io. write_chunks B lba src len off s = (True, s\<lparr>blk := b, iobuf := io\<rparr>)
    \<and> after ok left secs (op_capacity B) (blk s) (chunks (len - off)) b \<and> bufs_ok (s\<lparr>iobuf := io\<rparr>)
    \<and> written (unat (afs_base s) + unat lba) src off len (disk (blk s)) (disk b)"
  using assms
proof (induction "len - off" arbitrary: off s rule: less_induct)
  case less
  show ?case
  proof (cases "off < len")
    case False
    then show ?thesis
      using less.prems by (intro exI [of _ "blk s"] exI [of _ "iobuf s"], subst write_chunks.simps)
        (simp add: after_def chunks_def written_refl bufs_ok_def)
  next
    case True
    define c where "c = (if len - off > 4096 then 4096 else len - off)"
    define n where "n = (c + 511) div 512"
    define k where "k = off div 4096 mod 4"
    define buf where "buf = memcpy (iobuf s ! k) 0 src off c"
    define s1 where "s1 = s\<lparr>iobuf := (iobuf s)[k := buf]\<rparr>"
    have cnt: "unat (of_nat n :: u32) = n" "0 < n" "n \<le> 8" "unat (of_nat (off div 512) :: u32) = off div 512"
        "0 < c" "c \<le> 4096" "off + c \<le> len"
      using sector_count [OF True less.prems(4), folded c_def, folded n_def] .
    have k: "length (iobuf s ! k) = 4096" using less.prems(5) by (simp add: bufs_ok_def k_def)
    then have buf: "length buf = 4096" "take c buf = take c (drop off src)"
      using cnt(6,7) less.prems(3) by (simp_all add: buf_def memcpy_eq)
    have n512: "off div 512 + n \<le> (len + 511) div 512"
      unfolding n_def using cnt(7) less.prems(6) True by (intro sector_room) simp_all
    have lba: "unat (lba + of_nat (off div 512)) = unat lba + off div 512"
      using less.prems(8) n512 cnt(4) by (simp add: unat_word_ariths)
    have "0 < left (blk s)" using less.prems(2) chunks_step [OF True] by simp
    then obtain b1 where w: "wr_sectors B (lba + of_nat (off div 512)) (iobuf_at s + of_nat (4096 * k)) buf (of_nat n) s1
          = (0, s1\<lparr>blk := b1\<rparr>)" "after ok left secs (op_capacity B) (blk s) 1 b1"
        "disk b1 = disk_write (disk (blk s)) (unat (afs_base s) + unat lba + off div 512) (take (512 * n) buf)"
      using wr_sectors_ok [of s1 "of_nat n" buf "lba + of_nat (off div 512)" "iobuf_at s + of_nat (4096 * k)"]
        less.prems(1,7,8) n512 cnt(1-3) buf(1)
      by (auto simp: s1_def lba add.assoc)
    let ?s2 = "s1\<lparr>blk := b1\<rparr>"
    have "\<exists>b io. write_chunks B lba src len (off + 4096) ?s2 = (True, ?s2\<lparr>blk := b, iobuf := io\<rparr>)
      \<and> after ok left secs (op_capacity B) (blk ?s2) (chunks (len - (off + 4096))) b \<and> bufs_ok (?s2\<lparr>iobuf := io\<rparr>)
      \<and> written (unat (afs_base ?s2) + unat lba) src (off + 4096) len (disk (blk ?s2)) (disk b)"
    proof (rule less.hyps)
      show "bufs_ok ?s2" using bufs_ok_update [OF less.prems(5) buf(1)] by (simp add: bufs_ok_def s1_def)
    qed (use less.prems True w(2) chunks_step [OF True] in \<open>simp_all add: s1_def after_def\<close>)
    then obtain b io where r: "write_chunks B lba src len (off + 4096) ?s2 = (True, ?s2\<lparr>blk := b, iobuf := io\<rparr>)"
      "after ok left secs (op_capacity B) b1 (chunks (len - (off + 4096))) b" "bufs_ok (s\<lparr>iobuf := io\<rparr>)"
      "written (unat (afs_base s) + unat lba) src (off + 4096) len (disk b1) (disk b)"
      by (auto simp: s1_def bufs_ok_def)
    have "write_chunks B lba src len off s = (True, s\<lparr>blk := b, iobuf := io\<rparr>)"
      using w(1) r(1) True unfolding s1_def buf_def k_def n_def c_def
      by (subst write_chunks.simps) (simp add: Let_def)
    moreover have "after ok left secs (op_capacity B) (blk s) (chunks (len - off)) b"
      using after_trans [OF w(2) r(2)] chunks_step [OF True] by simp
    moreover have "written (unat (afs_base s) + unat lba) src off len (disk (blk s)) (disk b)"
      using written_step [OF r(4) [unfolded w(3)] less.prems(6) True less.prems(3) buf(1) c_def n_def buf(2)] .
    ultimately show ?thesis using r(3) by blast
  qed
qed

end

definition read_len :: "nat \<Rightarrow> nat \<Rightarrow> nat" where
  "read_len lim sz = min sz (4096 * chunks lim)"

lemma chunks_bounds: "n \<le> 4096 * chunks n" "4096 * chunks n < n + 4096" "chunks 0 = 0"
proof -
  have "n + 4095 = 4096 * chunks n + (n + 4095) mod 4096" "(n + 4095) mod 4096 < 4096" by (simp_all add: chunks_def)
  then show "n \<le> 4096 * chunks n" "4096 * chunks n < n + 4096" by linarith+
qed (simp add: chunks_def)

lemma read_len_done:
  assumes "lim \<le> done \<or> sz \<le> done" "4096 dvd done \<or> done = sz" "done \<le> sz"
  shows "max done (read_len lim sz) = done"
proof (cases "done = sz")
  case False
  then obtain q where q: "done = 4096 * q" "lim \<le> done" using assms by auto
  then have "4096 * chunks lim < 4096 * q + 4096" using chunks_bounds(2) [of lim] by linarith
  then have "chunks lim \<le> q" by linarith
  then show ?thesis using q by (simp add: read_len_def max_def)
qed (simp add: read_len_def max_def)

lemma read_len_step:
  assumes "4096 dvd done" "done < lim" "done < sz" and c: "c = (if sz - done > 4096 then 4096 else sz - done)"
  shows "max (done + c) (read_len lim sz) = max done (read_len lim sz)"
    and "chunks (min lim sz - done) = Suc (chunks (min lim sz - (done + c)))"
    and "4096 dvd done + c \<or> done + c = sz" "done + c \<le> sz"
proof -
  obtain q where q: "done = 4096 * q" using assms(1) by blast
  have c': "c \<le> 4096" "done + c \<le> sz" "c = 4096 \<or> done + c = sz" using assms(3) by (auto simp: c)
  have "4096 * q < 4096 * chunks lim" using chunks_bounds(1) [of lim] assms(2) q by linarith
  then have "done + 4096 \<le> 4096 * chunks lim" using q by simp
  then have "done + c \<le> read_len lim sz" using c' by (simp add: read_len_def)
  then show "max (done + c) (read_len lim sz) = max done (read_len lim sz)" by simp
  show "chunks (min lim sz - done) = Suc (chunks (min lim sz - (done + c)))"
    using c' assms(2,3) chunks_step [of "done" "min lim sz"] by auto
  show "4096 dvd done + c \<or> done + c = sz" "done + c \<le> sz" using c' assms(1) by auto
qed

lemma disk_read_append:
  assumes "512 dvd n"
  shows "disk_read d sec n @ disk_read d (sec + n div 512) k = disk_read d sec (n + k)"
proof -
  have "512 * (sec + n div 512) = 512 * sec + n" using assms by auto
  moreover have "[512 * sec..<512 * sec + (n + k)] = [512 * sec..<512 * sec + n] @ [512 * sec + n..<512 * sec + n + k]"
    using upt_add_eq_append [of "512 * sec" "512 * sec + n" k] by (simp add: add.assoc)
  ultimately show ?thesis by (simp add: disk_read_def)
qed

lemma disk_read_prefix: "c \<le> k \<Longrightarrow> map (cbyte (disk_read d sec k @ r)) [0..<c] = disk_read d sec c"
  by (rule nth_equalityI) (auto simp: cbyte_def nth_append disk_read_def)

context block_device
begin

lemma read_chunks_ok:
  assumes "ok (blk s)" "chunks (min lim sz - length dst) \<le> left (blk s)" "sz \<le> 2 ^ 20" "bufs_ok s"
    and "4096 dvd length dst \<or> length dst = sz" "length dst \<le> sz"
    and "unat (afs_base s) + unat lba + (sz + 511) div 512 \<le> secs (blk s)"
    and "unat (afs_base s) + unat lba + (sz + 511) div 512 < 2 ^ 32"
    and "dst = disk_read (disk (blk s)) (unat (afs_base s) + unat lba) (length dst)"
  shows "\<exists>b io. read_chunks B lba sz lim dst s =
      (True, disk_read (disk (blk s)) (unat (afs_base s) + unat lba) (max (length dst) (read_len lim sz)),
       s\<lparr>blk := b, iobuf := io\<rparr>)
    \<and> after ok left secs (op_capacity B) (blk s) (chunks (min lim sz - length dst)) b \<and> bufs_ok (s\<lparr>iobuf := io\<rparr>)
    \<and> disk b = disk (blk s)"
  using assms
proof (induction "sz - length dst" arbitrary: dst s rule: less_induct)
  case less
  define D where "D = disk (blk s)"
  define sec where "sec = unat (afs_base s) + unat lba"
  show ?case
  proof (cases "length dst < lim \<and> length dst < sz")
    case False
    then have m: "max (length dst) (read_len lim sz) = length dst" using less.prems(5,6) by (intro read_len_done) auto
    have "chunks (min lim sz - length dst) = 0" using False chunks_bounds(3) by auto
    then show ?thesis
      using less.prems(1,4,9) False unfolding m by (intro exI [of _ "blk s"] exI [of _ "iobuf s"], subst read_chunks.simps)
        (auto simp: after_def bufs_ok_def)
  next
    case True
    define c where "c = (if sz - length dst > 4096 then 4096 else sz - length dst)"
    define n where "n = (c + 511) div 512"
    define k where "k = Suc (length dst div 4096) mod 4"
    have dv: "4096 dvd length dst" "512 dvd length dst" using True less.prems(5) dvd_trans [of 512 4096 "length dst"] by auto
    note st = read_len_step [OF dv(1) _ _ c_def, of lim]
    have cnt: "unat (of_nat n :: u32) = n" "0 < n" "n \<le> 8" "unat (of_nat (length dst div 512) :: u32) = length dst div 512"
        "0 < c" "c \<le> 4096" "length dst + c \<le> sz"
      using sector_count [OF _ less.prems(3), of "length dst", folded c_def, folded n_def] True by blast+
    have n512: "length dst div 512 + n \<le> (sz + 511) div 512"
      unfolding n_def using cnt(7) dv True by (intro sector_room) simp_all
    have lba: "unat (lba + of_nat (length dst div 512)) = unat lba + length dst div 512"
      using less.prems(8) n512 cnt(4) by (simp add: unat_word_ariths)
    have bk: "length (iobuf s ! k) = 4096" using less.prems(4) by (simp add: bufs_ok_def k_def)
    have "0 < left (blk s)" using less.prems(2) st(2) True by simp
    then obtain b1 where w: "rd_sectors B (lba + of_nat (length dst div 512)) (iobuf_at s + of_nat (4096 * k)) (iobuf s ! k) (of_nat n) s
          = (0, disk_read D (sec + length dst div 512) (512 * n) @ drop (512 * n) (iobuf s ! k), s\<lparr>blk := b1\<rparr>)"
        "after ok left secs (op_capacity B) (blk s) 1 b1" "disk b1 = D"
      using rd_sectors_ok [of s "of_nat n" "iobuf s ! k" "lba + of_nat (length dst div 512)" "iobuf_at s + of_nat (4096 * k)"]
        less.prems(1,7,8) n512 cnt(1-3) bk
      by (auto simp: lba add.assoc D_def sec_def)
    define buf where "buf = disk_read D (sec + length dst div 512) (512 * n) @ drop (512 * n) (iobuf s ! k)"
    define s2 where "s2 = s\<lparr>blk := b1, iobuf := (iobuf s)[k := buf]\<rparr>"
    define dst2 where "dst2 = dst @ map (cbyte buf) [0..<c]"
    have "c \<le> 512 * n" using ceil_512(1) [of c] by (simp add: n_def)
    then have d2: "dst2 = disk_read D sec (length dst + c)" "length dst2 = length dst + c"
      using less.prems(9) disk_read_append [OF dv(2), of D sec c]
      by (simp_all add: dst2_def buf_def disk_read_prefix D_def sec_def)
    have "length buf = 4096" using bk cnt(3) by (simp add: buf_def)
    then have io: "bufs_ok s2" using bufs_ok_update [OF less.prems(4)] by (simp add: bufs_ok_def s2_def)
    have "\<exists>b io. read_chunks B lba sz lim dst2 s2 =
        (True, disk_read (disk (blk s2)) (unat (afs_base s2) + unat lba) (max (length dst2) (read_len lim sz)),
         s2\<lparr>blk := b, iobuf := io\<rparr>)
      \<and> after ok left secs (op_capacity B) (blk s2) (chunks (min lim sz - length dst2)) b \<and> bufs_ok (s2\<lparr>iobuf := io\<rparr>)
      \<and> disk b = disk (blk s2)"
    proof (rule less.hyps)
      show "sz - length dst2 < sz - length dst" using True d2(2) cnt(5) by linarith
      have "left (blk s2) = left (blk s) - 1" using w(2) by (simp add: s2_def after_def)
      then show "chunks (min lim sz - length dst2) \<le> left (blk s2)" 
        using less.prems(2) st(2) True unfolding d2(2) by linarith
    qed (use less.prems(3,7,8) True w(2,3) st(3,4) io d2 in \<open>simp_all add: s2_def after_def sec_def\<close>)
    then obtain b io where r: "read_chunks B lba sz lim dst2 s2 =
        (True, disk_read D sec (max (length dst) (read_len lim sz)), s\<lparr>blk := b, iobuf := io\<rparr>)"
      "after ok left secs (op_capacity B) b1 (chunks (min lim sz - length dst2)) b" "bufs_ok (s\<lparr>iobuf := io\<rparr>)" "disk b = D"
      using st(1) True d2(2) w(3) by (auto simp: s2_def bufs_ok_def sec_def)
    have "read_chunks B lba sz lim dst s = read_chunks B lba sz lim dst2 s2"
      using w(1) True by (subst read_chunks.simps)
        (simp add: Let_def c_def [symmetric] n_def [symmetric] k_def [symmetric] buf_def [symmetric] s2_def dst2_def)
    then show ?thesis
      using r after_trans [OF w(2) r(2)] st(2) True d2(2) by (auto simp: D_def sec_def)
  qed
qed

end

section \<open>The invariant\<close>

definition dir_ok :: "afs_dirent list \<Rightarrow> bool" where
  "dir_ok d \<longleftrightarrow> length d = 16 \<and> names24 d
     \<and> (\<forall>e\<in>set d. live e \<longrightarrow> 0 \<in> set (de_name e) \<and> 0 < unat (de_size e) \<and> unat (de_size e) \<le> 2 ^ 20)
     \<and> (\<forall>i j. i < 16 \<and> j < 16 \<and> live (d ! i) \<and> live (d ! j) \<and> cstr (de_name (d ! i)) = cstr (de_name (d ! j)) \<longrightarrow> i = j)"

definition disk_dir :: "(nat \<Rightarrow> u8) \<Rightarrow> nat \<Rightarrow> afs_dirent list" where
  "disk_dir disk base = dir_of (disk_read disk (base + 1) 512)"

definition disk_sb :: "(nat \<Rightarrow> u8) \<Rightarrow> nat \<Rightarrow> afs_superblock" where
  "disk_sb disk base = sb_of (disk_read disk base 512)"

definition afs_inv :: "(nat \<Rightarrow> u8) \<Rightarrow> nat \<Rightarrow> 's afs \<Rightarrow> bool" where
  "afs_inv disk secs s \<longleftrightarrow>
     mounted s \<and> bufs_ok s \<and> length (diobuf s) = 16 \<and> names24 (diobuf s)
     \<and> dir_ok (disk_dir disk (unat (afs_base s)))
     \<and> extents_ok (unat (next_free_lba s)) (map ext (disk_dir disk (unat (afs_base s)))) (free_extents s)
     \<and> data_lba s = 2 \<and> 2 \<le> unat (next_free_lba s) \<and> next_free_lba s \<le> total_sectors s
     \<and> unat (afs_base s) + unat (next_free_lba s) \<le> secs
     \<and> unat (afs_base s) + unat (total_sectors s) + 2048 < 2 ^ 32
     \<and> disk_sb disk (unat (afs_base s)) = \<lparr>sb_magic = 0x31534645, sb_version = 1, sb_total = total_sectors s, sb_data = 2\<rparr>"

lemma afs_files_dir:
  "afs_files disk base nm =
     (case first_slot (\<lambda>e. live e \<and> cstr (de_name e) = nm) (disk_dir disk base) of
        None \<Rightarrow> None
      | Some i \<Rightarrow> Some (disk_read disk (base + unat (de_start (disk_dir disk base ! i))) (unat (de_size (disk_dir disk base ! i)))))"
  unfolding afs_files_def disk_dir_def Let_def ..

lemma nsect_unat: "unat sz \<le> 2 ^ 20 \<Longrightarrow> unat (nsect sz) = (unat sz + 511) div 512"
proof -
  assume sz: "unat sz \<le> 2 ^ 20"
  have e: "sz + 512 - 1 = sz + 511" by simp
  have u: "unat (sz + 511) = unat sz + 511" using sz by (simp add: unat_word_ariths)
  show ?thesis unfolding nsect_def e unat_div u by simp
qed

lemma first_slot_neutral:
  assumes "\<not> P (xs ! i)" "\<not> P y"
  shows "first_slot P (xs[i := y]) = first_slot P xs"
  unfolding first_slot_def
proof (rule find_cong)
  fix j
  assume "j \<in> set [0..<length xs]"
  then show "P (xs[i := y] ! j) = P (xs ! j)" using assms by (cases "j = i") simp_all
qed simp

lemma dir_slot:
  assumes "dir_ok d" "i < 16" "live (d ! i)" "cstr (de_name (d ! i)) = nm"
  shows "first_slot (\<lambda>e. live e \<and> cstr (de_name e) = nm) d = Some i"
proof -
  have "\<not> (live (d ! j) \<and> cstr (de_name (d ! j)) = nm)" if "j < i" for j
    using assms that unfolding dir_ok_def by (metis less_irrefl less_trans)
  then show ?thesis using assms by (auto simp: first_slot_Some dir_ok_def)
qed

lemma dir_ok_unique:
  "dir_ok d \<Longrightarrow> i < 16 \<Longrightarrow> j < 16 \<Longrightarrow> live (d ! i) \<Longrightarrow> live (d ! j) \<Longrightarrow>
     cstr (de_name (d ! i)) = cstr (de_name (d ! j)) \<Longrightarrow> i = j"
  by (simp add: dir_ok_def)

lemma dir_ok_others:
  assumes "dir_ok d" "i < 16" "live (d ! i)" "cstr (de_name (d ! i)) = nm"
  shows "\<forall>j<16. j \<noteq> i \<and> live (d ! j) \<longrightarrow> cstr (de_name (d ! j)) \<noteq> nm"
proof (intro allI impI notI)
  fix j
  assume "j < 16" "j \<noteq> i \<and> live (d ! j)" "cstr (de_name (d ! j)) = nm"
  then show False using dir_ok_unique [OF assms(1), of j i] assms(2-4) by simp
qed

lemma dir_okD:
  assumes "dir_ok d"
  shows "length d = 16" "names24 d" "terminated d"
  using assms by (auto simp: dir_ok_def terminated_def)

lemma dir_ok_update:
  assumes d: "dir_ok d" and i: "i < 16"
    and e: "length (de_name e) = 24" "live e \<Longrightarrow> 0 \<in> set (de_name e) \<and> 0 < unat (de_size e) \<and> unat (de_size e) \<le> 2 ^ 20"
    and u: "\<And>j. live e \<Longrightarrow> j < 16 \<Longrightarrow> j \<noteq> i \<Longrightarrow> live (d ! j) \<Longrightarrow> cstr (de_name (d ! j)) \<noteq> cstr (de_name e)"
  shows "dir_ok (d[i := e])"
  unfolding dir_ok_def
proof (intro conjI ballI allI impI)
  show "length (d[i := e]) = 16" "names24 (d[i := e])"
    using d e(1) set_update_subset_insert [of d i e] by (auto simp: dir_ok_def names24_def)
next
  fix x
  assume x: "x \<in> set (d[i := e])" and l: "live x"
  then have "x = e \<or> x \<in> set d" using set_update_subset_insert [of d i e] by auto
  then have "0 \<in> set (de_name x) \<and> 0 < unat (de_size x) \<and> unat (de_size x) \<le> 2 ^ 20"
    using d e(2) l unfolding dir_ok_def by blast
  then show "0 \<in> set (de_name x)" "0 < unat (de_size x)" "unat (de_size x) \<le> 2 ^ 20" by blast+
next
  fix j k
  assume a: "j < 16 \<and> k < 16 \<and> live (d[i := e] ! j) \<and> live (d[i := e] ! k)
    \<and> cstr (de_name (d[i := e] ! j)) = cstr (de_name (d[i := e] ! k))"
  have l: "length d = 16" using d by (simp add: dir_ok_def)
  show "j = k"
  proof (cases "j = i \<or> k = i")
    case True
    then show ?thesis using a u [of j] u [of k] i l by (cases "j = i"; cases "k = i") simp_all
  next
    case False
    then have "j < 16 \<and> k < 16 \<and> live (d ! j) \<and> live (d ! k) \<and> cstr (de_name (d ! j)) = cstr (de_name (d ! k))"
      using a by simp
    then show ?thesis using d unfolding dir_ok_def by blast
  qed
qed

lemma extents_okD:
  assumes "extents_ok nf E fl"
  shows "disjoint_list E" "disjoint_list (map fext fl)" "X \<in> set E \<Longrightarrow> f \<in> set fl \<Longrightarrow> X \<inter> fext f = {}"
    "X \<in> set E \<Longrightarrow> X \<subseteq> {2..<nf}"
    "f \<in> set fl \<Longrightarrow> 2 \<le> unat (fe_start f) \<and> 0 < fe_count f \<and> unat (fe_start f) + unat (fe_count f) \<le> nf"
  using assms unfolding extents_ok_def disjoint_list_append by simp_all

lemma extents_okI:
  assumes "disjoint_list E" "disjoint_list (map fext fl)" "\<And>X f. X \<in> set E \<Longrightarrow> f \<in> set fl \<Longrightarrow> X \<inter> fext f = {}"
    "\<And>X. X \<in> set E \<Longrightarrow> X \<subseteq> {2..<nf}"
    "\<And>f. f \<in> set fl \<Longrightarrow> 2 \<le> unat (fe_start f) \<and> 0 < fe_count f \<and> unat (fe_start f) + unat (fe_count f) \<le> nf"
  shows "extents_ok nf E fl"
  using assms unfolding extents_ok_def disjoint_list_append by simp

lemma extents_replace:
  assumes ok: "extents_ok nf E fl" and A: "\<And>f. f \<in> set fl \<Longrightarrow> A \<inter> fext f = {}" "A \<subseteq> {2..<nf}"
    and other: "\<And>j. j < length E \<Longrightarrow> j \<noteq> i \<Longrightarrow> E ! j \<inter> A = {}"
  shows "extents_ok nf (E[i := A]) fl"
proof (rule extents_okI)
  show "disjoint_list (E[i := A])" using extents_okD(1) [OF ok] other by (rule disjoint_list_update)
  show "X \<inter> fext f = {}" if "X \<in> set (E[i := A])" "f \<in> set fl" for X f
    using that set_update_subset_insert [of E i A] A(1) extents_okD(3) [OF ok, of X f] by auto
  show "X \<subseteq> {2..<nf}" if "X \<in> set (E[i := A])" for X
    using that set_update_subset_insert [of E i A] A(2) extents_okD(4) [OF ok, of X] by auto
qed (use extents_okD [OF ok] in simp_all)

lemma extents_update:
  assumes "extents_ok nf (A # E) fl"
  shows "extents_ok nf (E[i := A]) fl"
proof (rule extents_replace)
  have d: "disjoint_list E" "\<forall>X\<in>set E. A \<inter> X = {}"
    using extents_okD(1) [OF assms] by (simp_all add: disjoint_list_sorted)
  show "extents_ok nf E fl" using extents_okD [OF assms] d by (intro extents_okI) simp_all
  show "E ! j \<inter> A = {}" if "j < length E" for j using d(2) nth_mem [OF that] by blast
qed (use extents_okD [OF assms] in simp_all)

lemma extents_shrink:
  assumes ok: "extents_ok nf E fl" and i: "i < length E" "A \<subseteq> E ! i"
  shows "extents_ok nf (E[i := A]) fl"
proof (rule extents_replace [OF ok])
  have e: "E ! i \<in> set E" using i(1) by simp
  show "A \<inter> fext f = {}" if "f \<in> set fl" for f using extents_okD(3) [OF ok e that] i(2) by blast
  show "A \<subseteq> {2..<nf}" using extents_okD(4) [OF ok e] i(2) by blast
  show "E ! j \<inter> A = {}" if "j < length E" "j \<noteq> i" for j
    using disjoint_listD [OF extents_okD(1) [OF ok] that(1) i(1) that(2)] i(2) by blast
qed

section \<open>Placing a file\<close>

text \<open>What a successful placement guarantees: the slot, the sectors and the new directory.\<close>

definition placed :: "bytes \<Rightarrow> nat \<Rightarrow> 's afs \<Rightarrow> u32 \<Rightarrow> 's afs \<Rightarrow> nat \<Rightarrow> afs_dirent \<Rightarrow> bool" where
  "placed nm n s l s' i e \<longleftrightarrow>
     i < 16 \<and> s' = s\<lparr>diobuf := (diobuf s)[i := e], free_extents := free_extents s', next_free_lba := next_free_lba s'\<rparr>
     \<and> length (de_name e) = 24 \<and> 0 \<in> set (de_name e) \<and> cstr (de_name e) = nm \<and> de_start e = l \<and> 2 \<le> unat l
     \<and> (live (diobuf s ! i) \<longrightarrow> cstr (de_name (diobuf s ! i)) = nm)
     \<and> (\<forall>j<16. j \<noteq> i \<and> live (diobuf s ! j) \<longrightarrow> cstr (de_name (diobuf s ! j)) \<noteq> nm)
     \<and> extents_ok (unat (next_free_lba s')) ((map ext (diobuf s))[i := {unat l..<unat l + n}]) (free_extents s')
     \<and> unat (next_free_lba s) \<le> unat (next_free_lba s') \<and> unat (next_free_lba s') \<le> unat (next_free_lba s) + n
     \<and> next_free_lba s' \<le> total_sectors s \<and> unat l + n \<le> unat (next_free_lba s')"

lemma find_slot_terminated:
  assumes "names24 (diobuf s)" "terminated (diobuf s)"
  shows "find_slot name False s = (first_slot (\<lambda>e. live e \<and> cstr (de_name e) = cstr name) (diobuf s), s)"
  using dir_find_eq [OF assms] by (simp add: find_slot_def split: option.split)

lemma find_slot_eq:
  assumes "dir_ok (diobuf s)"
  shows "find_slot name False s = (first_slot (\<lambda>e. live e \<and> cstr (de_name e) = cstr name) (diobuf s), s)"
  by (rule find_slot_terminated [OF dir_okD(2,3) [OF assms]])

lemma place_alloc:
  assumes d: "dir_ok (diobuf s)" and x: "extents_ok (unat (next_free_lba s)) (map ext (diobuf s)) (free_extents s)"
    and b: "unat (next_free_lba s) + n < 2 ^ 32" "2 \<le> unat (next_free_lba s)" "next_free_lba s \<le> total_sectors s"
    and n: "0 < n" "unat nw = n" and i: "i < 16"
    and e: "length (de_name e) = 24" "0 \<in> set (de_name e)" "cstr (de_name e) = nm"
    and old: "live (diobuf s ! i) \<longrightarrow> cstr (de_name (diobuf s ! i)) = nm"
    and uniq: "\<forall>j<16. j \<noteq> i \<and> live (diobuf s ! j) \<longrightarrow> cstr (de_name (diobuf s ! j)) \<noteq> nm"
    and a: "afs_alloc nw t = (Some l, t')" and t: "t = s\<lparr>diobuf := (diobuf s)[i := e0]\<rparr>"
  shows "placed nm n s l (t'\<lparr>diobuf := (diobuf s)[i := e\<lparr>de_start := l\<rparr>]\<rparr>) i (e\<lparr>de_start := l\<rparr>)"
proof -
  have t': "next_free_lba t = next_free_lba s" "free_extents t = free_extents s" "total_sectors t = total_sectors s"
    by (simp_all add: t)
  have "extents_ok (unat (next_free_lba t)) (map ext (diobuf s)) (free_extents t)" "0 < unat nw"
      "unat (next_free_lba t) + unat nw < 2 ^ 32" "2 \<le> unat (next_free_lba t)"
    using x b n by (simp_all add: t')
  note al = alloc_ok [OF this a, unfolded t' n(2)]
  have "t'\<lparr>diobuf := (diobuf s)[i := e\<lparr>de_start := l\<rparr>]\<rparr> =
      s\<lparr>diobuf := (diobuf s)[i := e\<lparr>de_start := l\<rparr>], free_extents := free_extents t', next_free_lba := next_free_lba t'\<rparr>"
    by (subst al(7)) (simp add: t)
  then show ?thesis
    using al(2-5) al(6) [OF b(3)] extents_update [OF al(1), of i] i e old uniq by (simp add: placed_def)
qed

definition refused :: "'s afs \<Rightarrow> 's afs \<Rightarrow> bool" where
  "refused s s' \<longleftrightarrow> s' = s\<lparr>diobuf := diobuf s'\<rparr> \<and> length (diobuf s') = 16 \<and> names24 (diobuf s')"

lemma names24_update: "names24 d \<Longrightarrow> length (de_name e) = 24 \<Longrightarrow> names24 (d[i := e])"
  using set_update_subset_insert [of d i e] by (auto simp: names24_def)

lemma refused_alloc:
  assumes d: "dir_ok (diobuf s)" and x: "extents_ok (unat (next_free_lba s)) (map ext (diobuf s)) (free_extents s)"
    and a: "afs_alloc nw t = (None, t')" and t: "t = s\<lparr>diobuf := (diobuf s)[i := e0]\<rparr>" "length (de_name e0) = 24"
  shows "refused s t'"
proof -
  have "\<forall>f\<in>set (free_extents t). 0 < unat (fe_start f)" using extents_okD(5) [OF x] by (fastforce simp: t)
  then have "t' = t" using afs_alloc_none [OF _ a] by simp
  then show ?thesis using d t(2) by (simp add: refused_def t names24_update dir_ok_def)
qed

lemma alloc_keeps_dir: "diobuf (snd (afs_alloc n s)) = diobuf s"
  by (simp add: afs_alloc_def alloc_from_free_list_def Let_def split: option.split)

lemma place_existing:
  assumes d: "dir_ok (diobuf s)" and x: "extents_ok (unat (next_free_lba s)) (map ext (diobuf s)) (free_extents s)"
    and b: "unat (next_free_lba s) + n < 2 ^ 32" "2 \<le> unat (next_free_lba s)" "next_free_lba s \<le> total_sectors s"
    and n: "0 < n" "unat (nw :: u32) = n" "nw = of_nat ((len + 511) div 512)"
    and f: "first_slot (\<lambda>e. live e \<and> cstr (de_name e) = cstr name) (diobuf s) = Some i"
    and p: "afs_write_place name len s = (r, s')"
  shows "case r of Some l \<Rightarrow> \<exists>i e. placed (cstr name) n s l s' i e | None \<Rightarrow> refused s s'"
proof -
  let ?e = "diobuf s ! i"
  have l16: "length (diobuf s) = 16" using d by (simp add: dir_ok_def)
  have i: "i < 16" "live ?e" "cstr (de_name ?e) = cstr name" using f l16 by (auto simp: first_slot_Some)
  then have e: "length (de_name ?e) = 24" "0 \<in> set (de_name ?e)"
    using d l16 by (simp_all add: dir_ok_def names24_def)
  have uniq: "\<forall>j<16. j \<noteq> i \<and> live (diobuf s ! j) \<longrightarrow> cstr (de_name (diobuf s ! j)) \<noteq> cstr name"
    using dir_ok_others [OF d i] .
  have sid: "s = s\<lparr>diobuf := (diobuf s)[i := ?e]\<rparr>"
      "s = s\<lparr>diobuf := (diobuf s)[i := ?e], free_extents := free_extents s, next_free_lba := next_free_lba s\<rparr>"
    by (cases s, simp)+
  show ?thesis
  proof (cases "nw \<le> nsect (de_size ?e)")
    case True
    then have "afs_write_place name len s = (Some (de_start ?e), s)"
      using f by (simp add: afs_write_place_def find_slot_eq [OF d] n(3))
    then have r: "r = Some (de_start ?e)" "s' = s" using p by simp_all
    have sub: "{unat (de_start ?e)..<unat (de_start ?e) + n} \<subseteq> ext ?e"
      using True i(2) n(2) by (auto simp: ext_def word_le_nat_alt)
    have "extents_ok (unat (next_free_lba s)) ((map ext (diobuf s))[i := {unat (de_start ?e)..<unat (de_start ?e) + n}]) (free_extents s)"
      using extents_shrink [OF x, of i] sub i(1) l16 by simp
    note X = this
    have "ext ?e \<subseteq> {2..<unat (next_free_lba s)}" using extents_okD(4) [OF x, of "ext ?e"] i(1) l16 by simp
    then have "{unat (de_start ?e)..<unat (de_start ?e) + n} \<subseteq> {2..<unat (next_free_lba s)}" using sub by (rule order_trans [rotated])
    then have Y: "2 \<le> unat (de_start ?e)" "unat (de_start ?e) + n \<le> unat (next_free_lba s)" using n(1) by simp_all
    have "placed (cstr name) n s (de_start ?e) s i ?e"
      unfolding placed_def by (intro conjI, rule i(1), rule sid(2)) (use X Y i(3) e uniq b(3) in simp_all)
    then show ?thesis using r by auto
  next
    case False
    obtain lb t where a: "afs_alloc nw s = (lb, t)" by fastforce
    then have dt: "diobuf t = diobuf s" using alloc_keeps_dir [of nw s] by simp
    have w: "afs_write_place name len s =
        (case lb of None \<Rightarrow> (None, t) | Some l \<Rightarrow> (Some l, t\<lparr>diobuf := (diobuf s)[i := ?e\<lparr>de_start := l\<rparr>]\<rparr>))"
      using f False a dt by (simp add: afs_write_place_def find_slot_eq [OF d] n(3) split: option.split)
    show ?thesis
    proof (cases lb)
      case None
      then show ?thesis using w p refused_alloc [OF d x a [unfolded None] sid(1) e(1)] by simp
    next
      case (Some l)
      from place_alloc [OF d x b n(1,2) i(1) e i(3) _ uniq a [unfolded Some] sid(1)] i(3)
      show ?thesis using w p Some by auto
    qed
  qed
qed

lemma place_new:
  assumes d: "dir_ok (diobuf s)" and x: "extents_ok (unat (next_free_lba s)) (map ext (diobuf s)) (free_extents s)"
    and b: "unat (next_free_lba s) + n < 2 ^ 32" "2 \<le> unat (next_free_lba s)" "next_free_lba s \<le> total_sectors s"
    and n: "0 < n" "unat (nw :: u32) = n" "nw = of_nat ((len + 511) div 512)" and name: "length (cstr name) \<le> 23"
    and f: "first_slot (\<lambda>e. live e \<and> cstr (de_name e) = cstr name) (diobuf s) = None"
    and p: "afs_write_place name len s = (r, s')"
  shows "case r of Some l \<Rightarrow> \<exists>i e. placed (cstr name) n s l s' i e | None \<Rightarrow> refused s s'"
proof -
  have l16: "length (diobuf s) = 16" using d by (simp add: dir_ok_def)
  have none: "\<forall>j<16. \<not> (live (diobuf s ! j) \<and> cstr (de_name (diobuf s ! j)) = cstr name)"
    using f l16 by (simp add: first_slot_None)
  have fd: "dir_find name (diobuf s) = None" using f dir_find_eq [OF dir_okD(2,3) [OF d]] by simp
  show ?thesis
  proof (cases "first_slot (\<lambda>e. de_start e = 0) (diobuf s)")
    case None
    then have "r = None" "s' = s"
      using p f fd by (simp_all add: afs_write_place_def find_slot_eq [OF d]) (simp_all add: find_slot_def)
    moreover have "\<forall>j<16. live (diobuf s ! j)" using None l16 by (simp add: first_slot_None live_def)
    ultimately show ?thesis using none dir_okD [OF d] by (simp add: refused_def)
  next
    case (Some j)
    then have j: "j < 16" "\<not> live (diobuf s ! j)" using l16 by (auto simp: first_slot_Some live_def)
    let ?t = "s\<lparr>diobuf := (diobuf s)[j := new_dirent name]\<rparr>"
    obtain lb t where a: "afs_alloc nw ?t = (lb, t)" by fastforce
    then have dt: "diobuf t = (diobuf s)[j := new_dirent name]" using alloc_keeps_dir [of nw ?t] by simp
    have w: "afs_write_place name len s =
        (case lb of None \<Rightarrow> (None, t) | Some l \<Rightarrow> (Some l, t\<lparr>diobuf := (diobuf s)[j := (new_dirent name)\<lparr>de_start := l\<rparr>]\<rparr>))"
      using f fd Some a dt j(1) l16
      by (simp add: afs_write_place_def find_slot_eq [OF d]) (simp add: find_slot_def n(3) split: option.split)
    note nd = cstr_new_dirent [OF name]
    show ?thesis
    proof (cases lb)
      case None
      then show ?thesis using w p refused_alloc [OF d x a [unfolded None] refl nd(2)] by simp
    next
      case (Some l)
      have "\<forall>k<16. k \<noteq> j \<and> live (diobuf s ! k) \<longrightarrow> cstr (de_name (diobuf s ! k)) \<noteq> cstr name" using none by blast
      from place_alloc [OF d x b n(1,2) j(1) nd(2,3,1) _ this a [unfolded Some] refl] j(2)
      show ?thesis using w p Some by auto
    qed
  qed
qed

lemma place_ok:
  assumes d: "dir_ok (diobuf s)" and x: "extents_ok (unat (next_free_lba s)) (map ext (diobuf s)) (free_extents s)"
    and b: "unat (next_free_lba s) + n < 2 ^ 32" "2 \<le> unat (next_free_lba s)" "next_free_lba s \<le> total_sectors s"
    and n: "n = (len + 511) div 512" and len: "0 < len" "len \<le> 2 ^ 20" and name: "length (cstr name) \<le> 23"
    and p: "afs_write_place name len s = (r, s')"
  shows "case r of Some l \<Rightarrow> \<exists>i e. placed (cstr name) n s l s' i e | None \<Rightarrow> refused s s'"
proof -
  have n8: "0 < n" "n \<le> 2048" using len ceil_512 [of len] by (simp_all add: n)
  then have nw: "unat (of_nat ((len + 511) div 512) :: u32) = n"
    unfolding n [symmetric] by (simp only: unsigned_of_nat) (simp add: take_bit_nat_eq_self)
  show ?thesis
    using place_existing [OF d x b n8(1) nw refl _ p] place_new [OF d x b n8(1) nw refl name _ p]
    by (cases "first_slot (\<lambda>e. live e \<and> cstr (de_name e) = cstr name) (diobuf s)") auto
qed

section \<open>The volume its callers see\<close>

text \<open>
  The contract of the file system: the files as a map from names to contents, and the free space as far as it decides
  which writes succeed, that is the sizes of the extents on the free list and the number of sectors after the used
  area.  A rewrite that does not need more sectors stays in place; any other write takes the front of the first hole
  that is large enough, otherwise sectors after the used area; it is refused when neither exists, or when the name is
  new and sixteen files exist.  A deleted file leaves a hole, unless there are 32 holes already.
\<close>

record volume =
  vol_files :: "bytes \<rightharpoonup> bytes"
  vol_holes :: "nat list"
  vol_rest :: nat

definition sectors_of :: "nat \<Rightarrow> nat" where
  "sectors_of len = (len + 511) div 512"

definition vol_alloc :: "nat \<Rightarrow> volume \<Rightarrow> volume option" where
  "vol_alloc n v =
     (case first_slot (\<lambda>h. n \<le> h) (vol_holes v) of
        Some i \<Rightarrow>
          (let hs = (vol_holes v)[i := vol_holes v ! i - n]
           in Some (v\<lparr>vol_holes := if hs ! i = 0 then butlast (hs[i := last hs]) else hs\<rparr>))
      | None \<Rightarrow> if n \<le> vol_rest v then Some (v\<lparr>vol_rest := vol_rest v - n\<rparr>) else None)"

definition vol_place :: "bytes \<Rightarrow> nat \<Rightarrow> volume \<Rightarrow> volume option" where
  "vol_place nm n v =
     (case vol_files v nm of
        Some c \<Rightarrow> if n \<le> sectors_of (length c) then Some v else vol_alloc n v
      | None \<Rightarrow> if card (dom (vol_files v)) < 16 then vol_alloc n v else None)"

definition vol_write :: "bytes \<Rightarrow> bytes \<Rightarrow> volume \<Rightarrow> int \<times> volume" where
  "vol_write nm data v =
     (if data = [] \<or> 2 ^ 20 < length data then (-1, v)
      else case vol_place (cstr nm) (sectors_of (length data)) v of
             None \<Rightarrow> (-1, v)
           | Some w \<Rightarrow> (int (length data), w\<lparr>vol_files := (vol_files w)(cstr nm \<mapsto> data)\<rparr>))"

definition vol_delete :: "bytes \<Rightarrow> volume \<Rightarrow> int \<times> volume" where
  "vol_delete nm v =
     (case vol_files v (cstr nm) of
        None \<Rightarrow> (-1, v)
      | Some c \<Rightarrow> (0, v\<lparr>vol_files := (vol_files v)(cstr nm := None),
                       vol_holes := (if length (vol_holes v) < 32 then vol_holes v @ [sectors_of (length c)] else vol_holes v)\<rparr>))"

definition vol_space :: "(bytes \<rightharpoonup> bytes) \<Rightarrow> 's afs \<Rightarrow> volume" where
  "vol_space F s = \<lparr>vol_files = F, vol_holes = map (\<lambda>e. unat (fe_count e)) (free_extents s),
     vol_rest = unat (total_sectors s) - unat (next_free_lba s)\<rparr>"

definition afs_volume :: "(nat \<Rightarrow> u8) \<Rightarrow> 's afs \<Rightarrow> volume" where
  "afs_volume disk s = vol_space (afs_files disk (unat (afs_base s))) s"

lemma first_slot_map: "first_slot P (map f xs) = first_slot (\<lambda>x. P (f x)) xs"
  unfolding first_slot_def by (rule find_cong) simp_all

lemma alloc_exact:
  assumes st: "\<forall>f\<in>set (free_extents s). 0 < unat (fe_start f)" and b: "unat (next_free_lba s) + unat n < 2 ^ 32"
    and nf: "next_free_lba s \<le> total_sectors s" and a: "afs_alloc n s = (r, s')"
  shows "(case r of None \<Rightarrow> None | Some l \<Rightarrow> Some (vol_space F s')) = vol_alloc (unat n) (vol_space F s)"
proof -
  have fs: "first_slot (\<lambda>h. unat n \<le> h) (map (\<lambda>e. unat (fe_count e)) (free_extents s))
      = first_slot (\<lambda>e. n \<le> fe_count e) (free_extents s)"
    by (simp add: first_slot_map word_le_nat_alt)
  have le: "unat (next_free_lba s) \<le> unat (total_sectors s)" using nf by (simp add: word_le_nat_alt)
  show ?thesis
  proof (cases "first_slot (\<lambda>e. n \<le> fe_count e) (free_extents s)")
    case None
    have u: "unat (next_free_lba s + n) = unat (next_free_lba s) + unat n" using b by (simp add: unat_word_ariths)
    have "next_free_lba s + n > total_sectors s \<longleftrightarrow> \<not> unat n \<le> unat (total_sectors s) - unat (next_free_lba s)"
      using le by (simp add: word_less_nat_alt u) linarith
    then show ?thesis
      using a None le fs by (auto simp: afs_alloc_def alloc_from_free_list_def vol_alloc_def vol_space_def u Let_def split: if_splits)
  next
    case (Some i)
    let ?xs = "free_extents s"
    let ?e' = "\<lparr>fe_start = fe_start (?xs ! i) + n, fe_count = fe_count (?xs ! i) - n\<rparr>"
    have i: "i < length ?xs" "n \<le> fe_count (?xs ! i)" using Some by (simp_all add: first_slot_Some)
    have "0 < unat (fe_start (?xs ! i))" using st i(1) nth_mem by blast
    then have nz: "fe_start (?xs ! i) \<noteq> 0" by auto
    have c: "unat (fe_count (?xs ! i) - n) = unat (fe_count (?xs ! i)) - unat n" using i(2) by (simp add: unat_sub)
    have z: "fe_count (?xs ! i) - n = 0 \<longleftrightarrow> unat (fe_count (?xs ! i)) - unat n = 0"
      unfolding c [symmetric] by (simp only: unat_eq_0)
    define ys where "ys = ?xs[i := ?e']"
    define hs where "hs = (map (\<lambda>e. unat (fe_count e)) ?xs)[i := unat (fe_count (?xs ! i)) - unat n]"
    have hs: "map (\<lambda>e. unat (fe_count e)) ys = hs" "ys \<noteq> []" "hs ! i = unat (fe_count (?xs ! i)) - unat n"
      using i(1) by (auto simp: ys_def hs_def map_update c)
    then have "map (\<lambda>e. unat (fe_count e)) (butlast (ys[i := last ys])) = butlast (hs[i := last hs])"
      by (simp add: map_butlast map_update last_map [OF hs(2), of "\<lambda>e. unat (fe_count e)", symmetric])
    moreover have r: "r = Some (fe_start (?xs ! i))"
        "s' = s\<lparr>free_extents := (if fe_count (?xs ! i) - n = 0 then butlast (ys[i := last ys]) else ys)\<rparr>"
      using a Some nz by (auto simp: afs_alloc_def alloc_from_free_list_def Let_def ys_def)
    ultimately have "map (\<lambda>e. unat (fe_count e)) (free_extents s') = (if hs ! i = 0 then butlast (hs[i := last hs]) else hs)"
      unfolding r(2) hs(3) z using hs(1) by simp
    then show ?thesis
      using r fs Some i(1) by (simp add: vol_alloc_def vol_space_def Let_def hs_def)
  qed
qed

lemma files_full:
  assumes d: "dir_ok (disk_dir disk base)"
  shows "card (dom (afs_files disk base)) < 16 \<longleftrightarrow> first_slot (\<lambda>e. de_start e = 0) (disk_dir disk base) \<noteq> None"
proof -
  let ?D = "disk_dir disk base"
  let ?L = "{i. i < 16 \<and> live (?D ! i)}"
  have l16: "length ?D = 16" using d by (simp add: dir_ok_def)
  have dom: "dom (afs_files disk base) = (\<lambda>i. cstr (de_name (?D ! i))) ` ?L"
  proof (intro set_eqI iffI)
    fix nm
    assume "nm \<in> dom (afs_files disk base)"
    then obtain i where "first_slot (\<lambda>e. live e \<and> cstr (de_name e) = nm) ?D = Some i"
      by (auto simp: afs_files_dir split: option.splits)
    then show "nm \<in> (\<lambda>i. cstr (de_name (?D ! i))) ` ?L" using l16 by (auto simp: first_slot_Some)
  next
    fix nm
    assume "nm \<in> (\<lambda>i. cstr (de_name (?D ! i))) ` ?L"
    then obtain i where "i < 16" "live (?D ! i)" "cstr (de_name (?D ! i)) = nm" by auto
    from dir_slot [OF d this] show "nm \<in> dom (afs_files disk base)" by (auto simp: afs_files_dir)
  qed
  have "inj_on (\<lambda>i. cstr (de_name (?D ! i))) ?L" using d by (auto simp: inj_on_def dir_ok_def)
  then have c: "card (dom (afs_files disk base)) = card ?L" unfolding dom by (rule card_image)
  define L where "L = ?L"
  have L: "L \<subseteq> {..<16}" by (auto simp: L_def)
  have "card L < 16 \<longleftrightarrow> L \<noteq> {..<16}"
  proof
    assume "L \<noteq> {..<16}"
    then have "L \<subset> {..<16}" using L by blast
    from psubset_card_mono [OF finite_lessThan this] show "card L < 16" by simp
  qed auto
  also have "\<dots> \<longleftrightarrow> (\<exists>i<16. \<not> live (?D ! i))" using L by (auto simp only: L_def set_eq_iff lessThan_iff mem_Collect_eq)
  also have "\<dots> \<longleftrightarrow> first_slot (\<lambda>e. de_start e = 0) ?D \<noteq> None" by (simp add: first_slot_None live_def l16)
  finally show ?thesis unfolding c L_def .
qed

lemma file_entry:
  assumes d: "dir_ok (disk_dir disk base)"
  shows "(case afs_files disk base nm of None \<Rightarrow> None | Some c \<Rightarrow> Some (sectors_of (length c)))
    = (case first_slot (\<lambda>e. live e \<and> cstr (de_name e) = nm) (disk_dir disk base) of None \<Rightarrow> None
       | Some i \<Rightarrow> Some (unat (nsect (de_size (disk_dir disk base ! i)))))"
proof (cases "first_slot (\<lambda>e. live e \<and> cstr (de_name e) = nm) (disk_dir disk base)")
  case (Some i)
  then have "unat (de_size (disk_dir disk base ! i)) \<le> 2 ^ 20" using d by (auto simp: first_slot_Some dir_ok_def)
  then show ?thesis using Some by (simp add: afs_files_dir nsect_unat sectors_of_def)
qed (simp add: afs_files_dir)

lemma vol_space_simps [simp]: "vol_space F (s\<lparr>diobuf := d\<rparr>) = vol_space F s" "vol_files (vol_space F s) = F"
  by (simp_all add: vol_space_def)

lemma place_exact:
  assumes d: "dir_ok (diobuf s)" and D: "disk_dir disk base = diobuf s"
    and st: "\<forall>f\<in>set (free_extents s). 0 < unat (fe_start f)" and b: "unat (next_free_lba s) + sectors_of len < 2 ^ 32"
    and nf: "next_free_lba s \<le> total_sectors s" and len: "len \<le> 2 ^ 20"
    and p: "afs_write_place name len s = (r, s')" and F: "F = afs_files disk base"
  shows "(case r of None \<Rightarrow> None | Some l \<Rightarrow> Some (vol_space F s')) = vol_place (cstr name) (sectors_of len) (vol_space F s)"
proof -
  let ?nw = "of_nat ((len + 511) div 512) :: u32"
  have "(len + 511) div 512 \<le> 2049" using len by simp
  then have nw: "unat ?nw = sectors_of len"
    by (simp only: unsigned_of_nat sectors_of_def) (simp add: take_bit_nat_eq_self)
  have al: "(case lb of None \<Rightarrow> None | Some l \<Rightarrow> Some (vol_space F t')) = vol_alloc (sectors_of len) (vol_space F s)"
    if "afs_alloc ?nw (s\<lparr>diobuf := x\<rparr>) = (lb, t')" for x lb t'
    using alloc_exact [of "s\<lparr>diobuf := x\<rparr>", OF _ _ _ that, of F] st b nf by (simp add: nw)
  note fe = file_entry [of disk base "cstr name", unfolded D, OF d]
  note ff = files_full [of disk base, unfolded D, OF d, folded F]
  have fn: "find_slot name False s = (first_slot (\<lambda>e. live e \<and> cstr (de_name e) = cstr name) (diobuf s), s)"
    by (rule find_slot_eq [OF d])
  show ?thesis
  proof (cases "first_slot (\<lambda>e. live e \<and> cstr (de_name e) = cstr name) (diobuf s)")
    case (Some i)
    then obtain c where c: "F (cstr name) = Some c" "sectors_of (length c) = unat (nsect (de_size (diobuf s ! i)))"
      using fe by (auto simp: F split: option.splits)
    obtain lb t' where a: "afs_alloc ?nw s = (lb, t')" by fastforce
    have w: "afs_write_place name len s =
        (if ?nw \<le> nsect (de_size (diobuf s ! i)) then (Some (de_start (diobuf s ! i)), s)
         else case lb of None \<Rightarrow> (None, t')
          | Some l \<Rightarrow> (Some l, t'\<lparr>diobuf := (diobuf t')[i := (diobuf t' ! i)\<lparr>de_start := l\<rparr>]\<rparr>))"
      using Some fn a by (simp add: afs_write_place_def)
    have "s\<lparr>diobuf := diobuf s\<rparr> = s" by simp
    then have "(case lb of None \<Rightarrow> None | Some l \<Rightarrow> Some (vol_space F t')) = vol_alloc (sectors_of len) (vol_space F s)"
      using al [of "diobuf s" lb t'] a by simp
    moreover have "?nw \<le> nsect (de_size (diobuf s ! i)) \<longleftrightarrow> sectors_of len \<le> sectors_of (length c)"
      unfolding word_le_nat_alt nw c(2) ..
    moreover have "(case r of None \<Rightarrow> None | Some l \<Rightarrow> Some (vol_space F s')) =
        (if ?nw \<le> nsect (de_size (diobuf s ! i)) then Some (vol_space F s)
         else (case lb of None \<Rightarrow> None | Some l \<Rightarrow> Some (vol_space F t')))"
      using p unfolding w by (cases lb) (auto split: if_splits)
    ultimately show ?thesis using c(1) by (simp add: vol_place_def)
  next
    case None
    then have n: "F (cstr name) = None" using fe by (auto simp: F split: option.splits)
    have fd: "dir_find name (diobuf s) = None" using None dir_find_eq [OF dir_okD(2,3) [OF d]] by simp
    show ?thesis
    proof (cases "first_slot (\<lambda>e. de_start e = 0) (diobuf s)")
      case None': None
      then have "find_slot name True s = (None, s)" by (simp add: find_slot_def fd)
      then have "r = None" using p None fn by (simp add: afs_write_place_def)
      then show ?thesis using n ff None' by (simp add: vol_place_def)
    next
      case (Some j)
      then have fc: "find_slot name True s = (Some j, s\<lparr>diobuf := (diobuf s)[j := new_dirent name]\<rparr>)" by (simp add: find_slot_def fd)
      obtain lb t' where a: "afs_alloc ?nw (s\<lparr>diobuf := (diobuf s)[j := new_dirent name]\<rparr>) = (lb, t')" by fastforce
      have "afs_write_place name len s = (case lb of None \<Rightarrow> (None, t')
          | Some l \<Rightarrow> (Some l, t'\<lparr>diobuf := (diobuf t')[j := (diobuf t' ! j)\<lparr>de_start := l\<rparr>]\<rparr>))"
        using None fn fc a by (simp add: afs_write_place_def Let_def)
      then have "(case r of None \<Rightarrow> None | Some l \<Rightarrow> Some (vol_space F s')) = (case lb of None \<Rightarrow> None | Some l \<Rightarrow> Some (vol_space F t'))"
        using p by (cases lb) auto
      then show ?thesis using n ff Some al [OF a] by (simp add: vol_place_def)
    qed
  qed
qed

section \<open>What a committed change does to the files\<close>

lemma disk_read_cong: "(\<And>i. 512 * sec \<le> i \<Longrightarrow> i < 512 * sec + m \<Longrightarrow> d i = d' i) \<Longrightarrow> disk_read d sec m = disk_read d' sec m"
  by (simp add: disk_read_def)

lemma written_read_other:
  assumes "written sec src 0 len d d'" "m \<le> 512 * k" "a + k \<le> sec \<or> sec + (len + 511) div 512 \<le> a"
  shows "disk_read d' a m = disk_read d a m"
  using assms by (intro disk_read_cong) (auto simp: written_def)

lemma written_read_same:
  assumes "written sec src 0 len d d'" "len \<le> length src"
  shows "disk_read d' sec len = take len src"
  using assms by (intro nth_equalityI) (auto simp: written_def disk_read_def)

lemma interval_apart:
  fixes a b :: nat
  assumes "{a..<a + k} \<inter> {b..<b + n} = {}" "0 < k" "0 < n"
  shows "a + k \<le> b \<or> b + n \<le> a"
proof (rule ccontr)
  assume "\<not> (a + k \<le> b \<or> b + n \<le> a)"
  then have "max a b \<in> {a..<a + k} \<inter> {b..<b + n}" using assms(2,3) by auto
  then show False using assms(1) by blast
qed

text \<open>A new directory sector in front of data sectors that are only changed outside the extents of the other files.\<close>

lemma commit_dir:
  assumes d: "names24 d''" "length d'' = 16"
    and d2: "d2 = disk_write d1 (base + 1) (dir_bytes d'')"
  shows "disk_dir d2 base = d''" and "2 \<le> st \<Longrightarrow> disk_read d2 (base + st) m = disk_read d1 (base + st) m"
    and "disk_read d2 base 512 = disk_read d1 base 512"
proof -
  have l: "length (dir_bytes d'') = 512" using d by (simp add: length_dir_bytes)
  show "disk_dir d2 base = d''"
    unfolding disk_dir_def d2 using l by (subst disk_read_write_same) (simp_all add: dir_of_bytes d)
  show "2 \<le> st \<Longrightarrow> disk_read d2 (base + st) m = disk_read d1 (base + st) m" "disk_read d2 base 512 = disk_read d1 base 512"
    unfolding d2 by (rule disk_read_write_other, simp add: l)+
qed

lemma live_extent:
  assumes "dir_ok d" "extents_ok nf (map ext d) fl" "j < 16" "live (d ! j)"
  shows "2 \<le> unat (de_start (d ! j))" "0 < (unat (de_size (d ! j)) + 511) div 512"
    "ext (d ! j) = {unat (de_start (d ! j))..<unat (de_start (d ! j)) + (unat (de_size (d ! j)) + 511) div 512}"
    "unat (de_size (d ! j)) \<le> 512 * ((unat (de_size (d ! j)) + 511) div 512)"
    "unat (de_start (d ! j)) + (unat (de_size (d ! j)) + 511) div 512 \<le> nf"
proof -
  have l: "length d = 16" and sz: "0 < unat (de_size (d ! j))" "unat (de_size (d ! j)) \<le> 2 ^ 20"
    using assms(1,3,4) by (simp_all add: dir_ok_def)
  show n: "0 < (unat (de_size (d ! j)) + 511) div 512" "unat (de_size (d ! j)) \<le> 512 * ((unat (de_size (d ! j)) + 511) div 512)"
    using ceil_512 sz by blast+
  show e: "ext (d ! j) = {unat (de_start (d ! j))..<unat (de_start (d ! j)) + (unat (de_size (d ! j)) + 511) div 512}"
    using assms(4) by (simp only: ext_def nsect_unat [OF sz(2)] if_True)
  have "ext (d ! j) \<subseteq> {2..<nf}" using extents_okD(4) [OF assms(2), of "ext (d ! j)"] assms(3) l by simp
  then show "2 \<le> unat (de_start (d ! j))" "unat (de_start (d ! j)) + (unat (de_size (d ! j)) + 511) div 512 \<le> nf"
    unfolding e using n(1) by simp_all
qed

lemma commit_write:
  assumes dk: "disk_dir disk base = diobuf s" and d: "dir_ok (diobuf s)"
    and x: "extents_ok (unat (next_free_lba s)) (map ext (diobuf s)) (free_extents s)"
    and pl: "placed nm n s l s' i e" and n: "n = (len + 511) div 512" and len: "0 < len" "len \<le> 2 ^ 20" "len \<le> length src"
    and w: "written (base + unat l) src 0 len disk d1"
    and e': "e' = e\<lparr>de_size := of_nat len\<rparr>"
    and d2: "d2 = disk_write d1 (base + 1) (dir_bytes ((diobuf s)[i := e']))"
  shows "disk_dir d2 base = (diobuf s)[i := e']" "dir_ok ((diobuf s)[i := e'])" "disk_sb d2 base = disk_sb disk base"
    "map ext ((diobuf s)[i := e']) = (map ext (diobuf s))[i := {unat l..<unat l + n}]"
    "afs_files d2 base = (afs_files disk base)(nm \<mapsto> take len src)"
proof -
  let ?D = "diobuf s"
  have i: "i < 16" "length (de_name e) = 24" "0 \<in> set (de_name e)" "cstr (de_name e) = nm" "de_start e = l" "2 \<le> unat l"
      "live (?D ! i) \<longrightarrow> cstr (de_name (?D ! i)) = nm"
      "\<forall>j<16. j \<noteq> i \<and> live (?D ! j) \<longrightarrow> cstr (de_name (?D ! j)) \<noteq> nm"
    and px: "extents_ok (unat (next_free_lba s')) ((map ext ?D)[i := {unat l..<unat l + n}]) (free_extents s')"
    using pl by (simp_all add: placed_def)
  have l16: "length ?D = 16" using d by (simp add: dir_ok_def)
  have lw: "unat (of_nat len :: u32) = len" using len(2) by (simp add: unsigned_of_nat take_bit_nat_eq_self)
  have live': "live e'" using i(5,6) by (auto simp: e' live_def)
  show ok': "dir_ok (?D[i := e'])"
    using i len lw by (intro dir_ok_update [OF d i(1)]) (auto simp: e')
  show "map ext (?D[i := e']) = (map ext ?D)[i := {unat l..<unat l + n}]"
    using live' lw len(2) i(5) unfolding map_update by (simp add: ext_def nsect_unat e' n)
  note cd = commit_dir [OF dir_okD(2,1) [OF ok'] d2]
  show dd: "disk_dir d2 base = ?D[i := e']" by (rule cd(1))
  have n0: "0 < n" using ceil_512 len n by blast
  show "disk_sb d2 base = disk_sb disk base"
    unfolding disk_sb_def cd(3) using written_read_other [OF w, of 512 1 base] i(6) by simp
  show "afs_files d2 base = (afs_files disk base)(nm \<mapsto> take len src)"
  proof
    fix nm'
    let ?P = "\<lambda>e. live e \<and> cstr (de_name e) = nm'"
    show "afs_files d2 base nm' = ((afs_files disk base)(nm \<mapsto> take len src)) nm'"
    proof (cases "nm' = nm")
      case True
      have "first_slot ?P (?D[i := e']) = Some i"
        using dir_slot [OF ok' i(1), of nm'] live' i(1,4) l16 True by (simp add: e')
      then show ?thesis
        using True l16 i(1,5,6) written_read_same [OF w len(3)] lw
        by (simp add: afs_files_dir dd e' cd(2))
    next
      case False
      have same: "first_slot ?P (?D[i := e']) = first_slot ?P ?D"
        using False i(4,7) by (intro first_slot_neutral) (auto simp: e')
      show ?thesis
      proof (cases "first_slot ?P ?D")
        case None
        then show ?thesis using False same by (simp add: afs_files_dir dd dk)
      next
        case (Some j)
        then have j: "j < 16" "live (?D ! j)" "j \<noteq> i" using False i(4,7) l16 by (auto simp: first_slot_Some)
        note le = live_extent [OF d x j(1,2)]
        have "map ext ?D ! j \<inter> {unat l..<unat l + n} = {}"
          using disjoint_listD [OF extents_okD(1) [OF px], of j i] j i(1) l16 by simp
        then have "unat (de_start (?D ! j)) + (unat (de_size (?D ! j)) + 511) div 512 \<le> unat l
            \<or> unat l + n \<le> unat (de_start (?D ! j))"
          using interval_apart [OF _ le(2) n0] le(3) j(1) l16 by simp
        then have "disk_read d1 (base + unat (de_start (?D ! j))) (unat (de_size (?D ! j)))
            = disk_read disk (base + unat (de_start (?D ! j))) (unat (de_size (?D ! j)))"
          using written_read_other [OF w le(4), of "base + unat (de_start (?D ! j))"] n by simp
        then show ?thesis using False Some same j(3) le(1) by (simp add: afs_files_dir dd dk cd(2))
      qed
    qed
  qed
qed

lemma afs_invD:
  assumes "afs_inv disk secs s"
  shows "mounted s" "bufs_ok s" "length (diobuf s) = 16" "names24 (diobuf s)" "dir_ok (disk_dir disk (unat (afs_base s)))"
    "extents_ok (unat (next_free_lba s)) (map ext (disk_dir disk (unat (afs_base s)))) (free_extents s)"
    "2 \<le> unat (next_free_lba s)" "next_free_lba s \<le> total_sectors s" "unat (afs_base s) + unat (next_free_lba s) \<le> secs"
    "unat (afs_base s) + unat (total_sectors s) + 2048 < 2 ^ 32" "unat (next_free_lba s) \<le> unat (total_sectors s)"
  using assms by (simp_all add: afs_inv_def word_le_nat_alt)

text \<open>The abstract view of a mounted volume: its invariant and its files.\<close>

context block_device
begin

lemma load_ok:
  assumes "ok (blk s)" "0 < left (blk s)" "afs_inv (disk (blk s)) (secs (blk s)) s"
  obtains b where "dir_load B s = (True, s\<lparr>blk := b, diobuf := disk_dir (disk (blk s)) (unat (afs_base s))\<rparr>)"
    "after ok left secs (op_capacity B) (blk s) 1 b" "disk b = disk (blk s)"
  using dir_load_ok [OF assms(1,2) afs_invD(4,3) [OF assms(3)]] afs_invD(7,9,10,11) [OF assms(3)]
  unfolding disk_dir_def by force

lemma afs_write_ok:
  assumes ok: "ok (blk s)" and inv: "afs_inv (disk (blk s)) (secs (blk s)) s"
    and len: "0 < len" "len \<le> 2 ^ 20" "len \<le> length src" and name: "length (cstr name) \<le> 23"
    and left: "chunks len + 2 \<le> left (blk s)"
    and room: "unat (afs_base s) + min (unat (total_sectors s)) (unat (next_free_lba s) + sectors_of len) \<le> secs (blk s)"
  obtains rc s' where "afs_write B (Some name) (Some src) len s = (rc, s')" "ok (blk s')" "secs (blk s') = secs (blk s)"
    "left (blk s) - (chunks len + 2) \<le> left (blk s')" "afs_inv (disk (blk s')) (secs (blk s')) s'" "afs_base s' = afs_base s"
    "total_sectors s' = total_sectors s" "op_capacity B (blk s') = op_capacity B (blk s)"
    "unat (next_free_lba s') \<le> unat (next_free_lba s) + sectors_of len"
    "vol_write name (take len src) (afs_volume (disk (blk s)) s) = (rc, afs_volume (disk (blk s')) s')"
proof -
  define n where "n = (len + 511) div 512"
  define base where "base = unat (afs_base s)"
  define D where "D = disk_dir (disk (blk s)) base"
  note I = afs_invD [OF inv]
  obtain b1 where b1: "dir_load B s = (True, s\<lparr>blk := b1, diobuf := D\<rparr>)"
      "after ok left secs (op_capacity B) (blk s) 1 b1" "disk b1 = disk (blk s)"
    using load_ok [OF ok _ inv] left unfolding D_def base_def by auto
  define s1 where "s1 = s\<lparr>blk := b1, diobuf := D\<rparr>"
  have n8: "n \<le> 2048" using ceil_512(4) len(2) by (simp add: n_def)
  have s1: "diobuf s1 = D" "next_free_lba s1 = next_free_lba s" "free_extents s1 = free_extents s"
      "total_sectors s1 = total_sectors s" "afs_base s1 = afs_base s" "blk s1 = b1" by (simp_all add: s1_def)
  have d: "dir_ok (diobuf s1)" and x: "extents_ok (unat (next_free_lba s1)) (map ext (diobuf s1)) (free_extents s1)"
    and b: "unat (next_free_lba s1) + n < 2 ^ 32" "2 \<le> unat (next_free_lba s1)" "next_free_lba s1 \<le> total_sectors s1"
    using I(5-8,10,11) n8 unfolding s1 D_def base_def by simp_all
  obtain r s2 where p: "afs_write_place name len s1 = (r, s2)" by fastforce
  define F where "F = afs_files (disk (blk s)) base"
  have "\<forall>f\<in>set (free_extents s1). 0 < unat (fe_start f)" using extents_okD(5) [OF x] by fastforce
  then have exact: "(case r of None \<Rightarrow> None | Some l \<Rightarrow> Some (vol_space F s2)) = vol_place (cstr name) n (vol_space F s)"
    using place_exact [OF d _ _ _ b(3) len(2) p F_def] b(1) by (simp add: s1 D_def n_def sectors_of_def) (simp add: s1_def vol_space_def)
  have vw: "vol_write name (take len src) (afs_volume (disk (blk s)) s) = (case vol_place (cstr name) n (vol_space F s) of
      None \<Rightarrow> (-1, vol_space F s)
    | Some w \<Rightarrow> (int len, w\<lparr>vol_files := (vol_files w)(cstr name \<mapsto> take len src)\<rparr>))"
    using len by (auto simp: vol_write_def afs_volume_def F_def base_def n_def sectors_of_def split: option.split)
  have guard: "afs_write B (Some name) (Some src) len s =
    (case r of None \<Rightarrow> (-1, s2)
     | Some l \<Rightarrow> (let (done, s3) = write_chunks B l src len 0 s2 in
         if \<not> done then (-1, s3)
         else (case find_slot name False s3 of (None, s4) \<Rightarrow> (-1, s4)
           | (Some i, s4) \<Rightarrow> (let (rc, s5) = dir_flush B (s4\<lparr>diobuf := (diobuf s4)[i := (diobuf s4 ! i)\<lparr>de_size := of_nat len\<rparr>]\<rparr>)
                             in (if rc = 0 then int len else -1, s5)))))"
    using b1(1) I(1) len(1,2) p by (simp add: afs_write_def s1_def)
  show thesis
  proof (cases r)
    case None
    then have rf: "refused s1 s2" using place_ok [OF d x b n_def len(1,2) name p] by simp
    then obtain dd where s2: "s2 = s\<lparr>blk := b1, diobuf := dd\<rparr>" unfolding refused_def s1_def by auto
    then have dd: "length dd = 16" "names24 dd" using rf by (simp_all add: refused_def s1)
    have "afs_inv (disk b1) (secs b1) s2"
      using inv dd(1,2) b1(2,3) by (simp add: s2 afs_inv_def after_def bufs_ok_def)
    moreover have "vol_write name (take len src) (afs_volume (disk (blk s)) s) = (-1, afs_volume (disk b1) s2)"
      unfolding vw exact [symmetric] None by (simp add: s2 afs_volume_def F_def base_def b1(3)) (simp add: vol_space_def)
    ultimately show thesis
      using guard None b1(2,3) by (intro that [of "-1" s2]) (simp_all add: s2 after_def)
  next
    case (Some l)
    then obtain i e where pl: "placed (cstr name) n s1 l s2 i e" using place_ok [OF d x b n_def len(1,2) name p] by auto
    then obtain fl nf where s2: "s2 = s\<lparr>blk := b1, diobuf := D[i := e], free_extents := fl, next_free_lba := nf\<rparr>"
      unfolding placed_def s1_def by auto
    have i: "i < 16" "unat l + n \<le> unat nf" "unat nf \<le> unat (next_free_lba s) + n" "nf \<le> total_sectors s"
        "unat (next_free_lba s) \<le> unat nf" "cstr (de_name e) = cstr name" "live e"
      and px: "extents_ok (unat nf) ((map ext D)[i := {unat l..<unat l + n}]) fl"
      using pl by (auto simp: placed_def s1 s2 live_def)
    have rm: "unat (afs_base s) + unat nf \<le> secs (blk s)"
      using room i(3,4) by (simp add: n_def sectors_of_def word_le_nat_alt min_def split: if_splits)
    obtain b2 io where w: "write_chunks B l src len 0 s2 = (True, s2\<lparr>blk := b2, iobuf := io\<rparr>)"
        "after ok left secs (op_capacity B) b1 (chunks len) b2" "bufs_ok (s\<lparr>iobuf := io\<rparr>)"
        "written (base + unat l) src 0 len (disk (blk s)) (disk b2)"
    proof -
      have "chunks (len - 0) \<le> left (blk s2)" using b1(2) left by (simp add: s2 after_def)
      moreover have "unat (afs_base s2) + unat l + (len + 511) div 512 \<le> secs (blk s2)"
        using b1(2) rm i(2) by (simp add: s2 after_def n_def)
      moreover have "unat (afs_base s2) + unat l + (len + 511) div 512 < 2 ^ 32"
        using I(10,11) i(2,4) by (simp add: s2 n_def word_le_nat_alt)
      ultimately have "\<exists>b io. write_chunks B l src len 0 s2 = (True, s2\<lparr>blk := b, iobuf := io\<rparr>)
          \<and> after ok left secs (op_capacity B) (blk s2) (chunks (len - 0)) b \<and> bufs_ok (s2\<lparr>iobuf := io\<rparr>)
          \<and> written (unat (afs_base s2) + unat l) src 0 len (disk (blk s2)) (disk b)"
        using b1(2) I(2) len by (intro write_chunks_ok) (simp_all add: s2 after_def bufs_ok_def)
      then show thesis using that b1(3) by (auto simp: s2 bufs_ok_def base_def)
    qed
    define e' where "e' = e\<lparr>de_size := of_nat len\<rparr>"
    have D: "length D = 16" "names24 D" "terminated D" using dir_okD [OF d] by (simp_all add: s1)
    have e24: "length (de_name e) = 24" "0 \<in> set (de_name e)" using pl by (simp_all add: placed_def)
    have "first_slot (\<lambda>e. live e \<and> cstr (de_name e) = cstr name) (D[i := e]) = Some i"
      using pl i(1,6,7) D(1) by (auto simp: first_slot_Some placed_def s1)
    moreover have "names24 (D[i := e])" "terminated (D[i := e])"
      using D(2,3) e24 set_update_subset_insert [of D i e] by (auto simp: names24_update terminated_def)
    ultimately have fs: "find_slot name False (s2\<lparr>blk := b2, iobuf := io\<rparr>) = (Some i, s2\<lparr>blk := b2, iobuf := io\<rparr>)"
      by (subst find_slot_terminated) (simp_all add: s2)
    let ?s4 = "s\<lparr>free_extents := fl, next_free_lba := nf, blk := b2, iobuf := io, diobuf := D[i := e']\<rparr>"
    have ab: "after ok left secs (op_capacity B) (blk s) (1 + chunks len) b2" using after_trans [OF b1(2) w(2)] .
    obtain b3 where f: "dir_flush B ?s4 = (0, ?s4\<lparr>blk := b3\<rparr>)" "after ok left secs (op_capacity B) b2 1 b3"
        "disk b3 = disk_write (disk b2) (base + 1) (dir_bytes (D[i := e']))"
      using dir_flush_ok [of ?s4] ab left I(7,9,10,11) D(1) names24_update [OF D(2), of e' i] e24(1)
      by (auto simp: after_def e'_def base_def)
    have res: "afs_write B (Some name) (Some src) len s = (int len, ?s4\<lparr>blk := b3\<rparr>)"
      unfolding guard Some using w(1) fs f(1) D(1) i(1) by (simp add: s2 e'_def)
    note cw = commit_write [OF _ d x pl n_def len w(4) e'_def, of "disk b3", unfolded s1, OF D_def [symmetric] f(3)]
    have "after ok left secs (op_capacity B) (blk s) (1 + chunks len + 1) b3" using after_trans [OF ab f(2)] .
    moreover have "afs_inv (disk b3) (secs b3) (?s4\<lparr>blk := b3\<rparr>)"
    proof -
      have "unat (afs_base s) + unat nf \<le> secs b3" using rm ab f(2) by (simp add: after_def)
      moreover have "2 \<le> unat nf" using I(7) i(5) by linarith
      ultimately show ?thesis
        using inv cw(1-4) px w(3) i(4) dir_okD(1,2) [OF cw(2)] by (simp add: afs_inv_def bufs_ok_def base_def)
    qed
    moreover have "vol_write name (take len src) (afs_volume (disk (blk s)) s) = (int len, afs_volume (disk b3) (?s4\<lparr>blk := b3\<rparr>))"
      unfolding vw exact [symmetric] Some using cw(5)
      by (simp add: s2 afs_volume_def base_def [symmetric] F_def [symmetric]) (simp add: vol_space_def F_def)
    ultimately show thesis
      using res i(3) by (intro that [of "int len" "?s4\<lparr>blk := b3\<rparr>"]) (simp_all add: after_def n_def sectors_of_def)
  qed
qed

lemma afs_read_ok:
  assumes ok: "ok (blk s)" and inv: "afs_inv (disk (blk s)) (secs (blk s)) s" and lim: "0 < lim"
    and left: "chunks lim + 1 \<le> left (blk s)"
  obtains rc out s' where "afs_read B (Some name) True lim s = (rc, out, s')" "ok (blk s')" "secs (blk s') = secs (blk s)"
    "left (blk s) - (chunks lim + 1) \<le> left (blk s')" "afs_inv (disk (blk s')) (secs (blk s')) s'" "afs_base s' = afs_base s"
    "next_free_lba s' = next_free_lba s" "total_sectors s' = total_sectors s" "free_extents s' = free_extents s"
    "disk (blk s') = disk (blk s)"
    "case afs_files (disk (blk s)) (unat (afs_base s)) (cstr name) of None \<Rightarrow> rc = -1 \<and> out = []
     | Some c \<Rightarrow> rc = int (length out) \<and> out = take (read_len lim (length c)) c"
proof -
  define base where "base = unat (afs_base s)"
  define D where "D = disk_dir (disk (blk s)) base"
  note I = afs_invD [OF inv]
  obtain b1 where b1: "dir_load B s = (True, s\<lparr>blk := b1, diobuf := D\<rparr>)"
      "after ok left secs (op_capacity B) (blk s) 1 b1" "disk b1 = disk (blk s)"
    using load_ok [OF ok _ inv] left unfolding D_def base_def by auto
  let ?s1 = "s\<lparr>blk := b1, diobuf := D\<rparr>"
  have d: "dir_ok D" and x: "extents_ok (unat (next_free_lba s)) (map ext D) (free_extents s)"
    using I(5,6) by (simp_all add: D_def base_def)
  have fs: "find_slot name False ?s1 = (first_slot (\<lambda>e. live e \<and> cstr (de_name e) = cstr name) D, ?s1)"
    using find_slot_eq [of ?s1 name] d by simp
  show thesis
  proof (cases "first_slot (\<lambda>e. live e \<and> cstr (de_name e) = cstr name) D")
    case None
    have "afs_inv (disk b1) (secs b1) ?s1"
      using inv b1(2,3) dir_okD [OF d] by (simp add: afs_inv_def after_def bufs_ok_def)
    then show thesis
      using None b1 fs I(1) lim by (intro that [of "-1" "[]" ?s1])
        (simp_all add: afs_read_def after_def afs_files_dir D_def base_def)
  next
    case (Some i)
    let ?e = "D ! i"
    have i: "i < 16" "live ?e" using Some d by (auto simp: first_slot_Some dir_ok_def)
    note le = live_extent [OF d x i]
    have sz: "unat (de_size ?e) \<le> 2 ^ 20" using d i by (simp add: dir_ok_def)
    have mono: "chunks (min lim (unat (de_size ?e))) \<le> chunks lim" unfolding chunks_def by (intro div_le_mono) simp
    have "\<exists>b io. read_chunks B (de_start ?e) (unat (de_size ?e)) lim [] ?s1 =
        (True, disk_read (disk (blk ?s1)) (unat (afs_base ?s1) + unat (de_start ?e)) (max (length ([] :: bytes)) (read_len lim (unat (de_size ?e)))),
         ?s1\<lparr>blk := b, iobuf := io\<rparr>)
      \<and> after ok left secs (op_capacity B) (blk ?s1) (chunks (min lim (unat (de_size ?e)) - length ([] :: bytes))) b
      \<and> bufs_ok (?s1\<lparr>iobuf := io\<rparr>) \<and> disk b = disk (blk ?s1)"
      using b1(2) left mono sz I(2,9-11) le(5)
      by (intro read_chunks_ok) (simp_all add: after_def bufs_ok_def disk_read_def)
    then obtain b2 io where r: "read_chunks B (de_start ?e) (unat (de_size ?e)) lim [] ?s1 =
        (True, disk_read (disk (blk s)) (base + unat (de_start ?e)) (read_len lim (unat (de_size ?e))), ?s1\<lparr>blk := b2, iobuf := io\<rparr>)"
        "after ok left secs (op_capacity B) b1 (chunks (min lim (unat (de_size ?e)))) b2" "bufs_ok (s\<lparr>iobuf := io\<rparr>)"
        "disk b2 = disk (blk s)"
      using b1(3) by (auto simp: base_def bufs_ok_def)
    have ab: "after ok left secs (op_capacity B) (blk s) (1 + chunks (min lim (unat (de_size ?e)))) b2"
      using after_trans [OF b1(2) r(2)] .
    have fl: "afs_files (disk (blk s)) base (cstr name) = Some (disk_read (disk (blk s)) (base + unat (de_start ?e)) (unat (de_size ?e)))"
      using Some by (simp add: afs_files_dir D_def)
    have tk: "disk_read d' a (read_len lim k) = take (read_len lim k) (disk_read d' a k)" for d' a k
      by (rule nth_equalityI) (auto simp: read_len_def disk_read_def)
    have "afs_inv (disk b2) (secs b2) (?s1\<lparr>blk := b2, iobuf := io\<rparr>)"
      using inv ab r(3,4) dir_okD [OF d] by (simp add: afs_inv_def after_def bufs_ok_def)
    moreover have "afs_read B (Some name) True lim s =
        (int (read_len lim (unat (de_size ?e))), disk_read (disk (blk s)) (base + unat (de_start ?e)) (read_len lim (unat (de_size ?e))),
         ?s1\<lparr>blk := b2, iobuf := io\<rparr>)"
      using Some b1(1) fs I(1) lim r(1) sz by (simp add: afs_read_def Let_def i32_id read_len_def)
    ultimately show thesis
      using r(4) ab mono fl
      by (intro that [of "int (read_len lim (unat (de_size ?e)))"
            "disk_read (disk (blk s)) (base + unat (de_start ?e)) (read_len lim (unat (de_size ?e)))" "?s1\<lparr>blk := b2, iobuf := io\<rparr>"])
        (simp_all add: after_def base_def [symmetric] tk [symmetric])
  qed
qed

end

section \<open>Deleting\<close>

definition no_dirent :: afs_dirent where
  "no_dirent = \<lparr>de_name = replicate 24 0, de_start = 0, de_size = 0\<rparr>"

lemma no_dirent [simp]: "\<not> live no_dirent" "length (de_name no_dirent) = 24" "ext no_dirent = {}"
  by (simp_all add: no_dirent_def live_def ext_def)

lemma extents_free:
  assumes ok: "extents_ok nf E fl" and i: "i < length E" "fext f = E ! i" "2 \<le> unat (fe_start f)" "0 < fe_count f"
    "unat (fe_start f) + unat (fe_count f) \<le> nf"
  shows "extents_ok nf (E[i := {}]) (fl @ [f])"
proof (rule extents_okI)
  have e: "E ! i \<in> set E" using i(1) by simp
  have sh: "extents_ok nf (E[i := {}]) fl" using extents_shrink [OF ok i(1)] by simp
  show "disjoint_list (E[i := {}])" by (rule extents_okD(1) [OF sh])
  have "fext g \<inter> fext f = {}" if "g \<in> set fl" for g using extents_okD(3) [OF ok e that] i(2) by blast
  moreover have "disjoint_list [fext f]" by (simp add: disjoint_list_sorted)
  ultimately show "disjoint_list (map fext (fl @ [f]))"
    using extents_okD(2) [OF ok] by (simp add: disjoint_list_append)
  show "X \<inter> fext g = {}" if X: "X \<in> set (E[i := {}])" and g: "g \<in> set (fl @ [f])" for X g
  proof (cases "g = f")
    case True
    obtain j where j: "j < length (E[i := {}])" "X = E[i := {}] ! j"
      using X unfolding in_set_conv_nth by blast
    then show ?thesis
      using True i(1,2) disjoint_listD [OF extents_okD(1) [OF ok], of j i] by (cases "j = i") simp_all
  next
    case False
    then show ?thesis using X g extents_okD(3) [OF sh, of X g] by simp
  qed
qed (use extents_okD [OF ok] extents_okD(4) [OF extents_shrink [OF ok i(1), of "{}"]] i in auto)

lemma commit_delete:
  assumes dk: "disk_dir disk base = D" and d: "dir_ok D" and x: "extents_ok nf (map ext D) fl"
    and i: "i < 16" "live (D ! i)" "cstr (de_name (D ! i)) = nm"
    and d2: "d2 = disk_write disk (base + 1) (dir_bytes (D[i := no_dirent]))"
  shows "disk_dir d2 base = D[i := no_dirent]" "dir_ok (D[i := no_dirent])" "disk_sb d2 base = disk_sb disk base"
    "afs_files d2 base = (afs_files disk base)(nm := None)"
proof -
  have l16: "length D = 16" using d by (simp add: dir_ok_def)
  show ok': "dir_ok (D[i := no_dirent])" by (rule dir_ok_update [OF d i(1)]) simp_all
  note cd = commit_dir [OF dir_okD(2,1) [OF ok'] d2]
  show dd: "disk_dir d2 base = D[i := no_dirent]" by (rule cd(1))
  show "disk_sb d2 base = disk_sb disk base" by (simp add: disk_sb_def cd(3))
  show "afs_files d2 base = (afs_files disk base)(nm := None)"
  proof
    fix nm'
    let ?P = "\<lambda>e. live e \<and> cstr (de_name e) = nm'"
    show "afs_files d2 base nm' = ((afs_files disk base)(nm := None)) nm'"
    proof (cases "nm' = nm")
      case True
      have "first_slot ?P (D[i := no_dirent]) = None"
        using dir_ok_others [OF d i] l16 True i(1) unfolding first_slot_None
        by (metis length_list_update no_dirent(1) nth_list_update_eq nth_list_update_neq)
      then show ?thesis using True by (simp add: afs_files_dir dd)
    next
      case False
      then have same: "first_slot ?P (D[i := no_dirent]) = first_slot ?P D"
        using i(3) by (intro first_slot_neutral) auto
      show ?thesis
      proof (cases "first_slot ?P D")
        case None
        then show ?thesis using False same by (simp add: afs_files_dir dd dk)
      next
        case (Some j)
        then have j: "j < 16" "live (D ! j)" "j \<noteq> i" using False i(3) l16 by (auto simp: first_slot_Some)
        then show ?thesis using False Some same live_extent(1) [OF d x j(1,2)] by (simp add: afs_files_dir dd dk cd(2))
      qed
    qed
  qed
qed

lemma free_extent_of:
  assumes d: "dir_ok D" and x: "extents_ok nf (map ext D) fl" and i: "i < 16" "live (D ! i)"
  shows "extents_ok nf (map ext (D[i := no_dirent])) (fl @ [\<lparr>fe_start = de_start (D ! i), fe_count = nsect (de_size (D ! i))\<rparr>])"
    and "extents_ok nf (map ext (D[i := no_dirent])) fl" and "0 < nsect (de_size (D ! i))"
proof -
  have l16: "length D = 16" and sz: "unat (de_size (D ! i)) \<le> 2 ^ 20" using d i by (simp_all add: dir_ok_def)
  note le = live_extent [OF d x i]
  show n: "0 < nsect (de_size (D ! i))" using le(2) by (simp only: word_less_nat_alt nsect_unat [OF sz] unat_0)
  have m: "map ext (D[i := no_dirent]) = (map ext D)[i := {}]" by (simp add: map_update)
  show "extents_ok nf (map ext (D[i := no_dirent])) (fl @ [\<lparr>fe_start = de_start (D ! i), fe_count = nsect (de_size (D ! i))\<rparr>])"
    unfolding m using le n i l16 by (intro extents_free [OF x]) (simp_all add: fext_def nsect_unat [OF sz])
  show "extents_ok nf (map ext (D[i := no_dirent])) fl"
    unfolding m using i(1) l16 by (intro extents_shrink [OF x]) simp_all
qed

context block_device
begin

lemma afs_delete_ok:
  assumes ok: "ok (blk s)" and inv: "afs_inv (disk (blk s)) (secs (blk s)) s" and left: "2 \<le> left (blk s)"
  obtains rc s' where "afs_delete B name s = (rc, s')" "ok (blk s')" "secs (blk s') = secs (blk s)"
    "left (blk s) - 2 \<le> left (blk s')" "afs_inv (disk (blk s')) (secs (blk s')) s'" "afs_base s' = afs_base s"
    "next_free_lba s' = next_free_lba s" "total_sectors s' = total_sectors s"
    "vol_delete name (afs_volume (disk (blk s)) s) = (rc, afs_volume (disk (blk s')) s')"
proof -
  define base where "base = unat (afs_base s)"
  define D where "D = disk_dir (disk (blk s)) base"
  note I = afs_invD [OF inv]
  obtain b1 where b1: "dir_load B s = (True, s\<lparr>blk := b1, diobuf := D\<rparr>)"
      "after ok left secs (op_capacity B) (blk s) 1 b1" "disk b1 = disk (blk s)"
    using load_ok [OF ok _ inv] left unfolding D_def base_def by auto
  let ?s1 = "s\<lparr>blk := b1, diobuf := D\<rparr>"
  have d: "dir_ok D" and x: "extents_ok (unat (next_free_lba s)) (map ext D) (free_extents s)"
    using I(5,6) by (simp_all add: D_def base_def)
  have fs: "find_slot name False ?s1 = (first_slot (\<lambda>e. live e \<and> cstr (de_name e) = cstr name) D, ?s1)"
    using find_slot_eq [of ?s1 name] d by simp
  show thesis
  proof (cases "first_slot (\<lambda>e. live e \<and> cstr (de_name e) = cstr name) D")
    case None
    have "afs_inv (disk b1) (secs b1) ?s1"
      using inv b1(2,3) dir_okD [OF d] by (simp add: afs_inv_def after_def bufs_ok_def)
    moreover have "afs_files (disk (blk s)) base (cstr name) = None" using None by (simp add: afs_files_dir D_def)
    ultimately show thesis
      using None b1 fs I(1) by (intro that [of "-1" ?s1])
        (auto simp: afs_delete_def after_def base_def vol_delete_def afs_volume_def vol_space_def)
  next
    case (Some i)
    let ?e = "D ! i"
    have i: "i < 16" "live ?e" "cstr (de_name ?e) = cstr name" using Some d by (auto simp: first_slot_Some dir_ok_def)
    note fr = free_extent_of [OF d x i(1,2)]
    define fl where "fl = (if 32 \<le> length (free_extents s) then free_extents s
      else free_extents s @ [\<lparr>fe_start = de_start ?e, fe_count = nsect (de_size ?e)\<rparr>])"
    let ?s2 = "s\<lparr>blk := b1, free_extents := fl, diobuf := D[i := no_dirent]\<rparr>"
    have dz: "length (D[i := no_dirent]) = 16" "names24 (D[i := no_dirent])"
      using dir_okD [OF d] by (simp_all add: names24_update)
    obtain b2 where f: "dir_flush B ?s2 = (0, ?s2\<lparr>blk := b2\<rparr>)" "after ok left secs (op_capacity B) b1 1 b2"
        "disk b2 = disk_write (disk (blk s)) (base + 1) (dir_bytes (D[i := no_dirent]))"
      using dir_flush_ok [of ?s2] b1(2,3) left I(7,9,10,11) dz by (auto simp: after_def base_def)
    note cd = commit_delete [OF D_def [symmetric] d x i f(3)]
    have "de_start ?e \<noteq> 0" using i(2) by (simp add: live_def)
    then have res: "afs_delete B name s = (0, ?s2\<lparr>blk := b2\<rparr>)"
      using Some b1(1) fs I(1) f(1) fr(3)
      by (simp add: afs_delete_def Let_def add_to_free_list_def fl_def no_dirent_def [symmetric] split: if_splits)
    have ab: "after ok left secs (op_capacity B) (blk s) 2 b2" using after_trans [OF b1(2) f(2)] by (simp add: numeral_2_eq_2)
    have "afs_inv (disk b2) (secs b2) (?s2\<lparr>blk := b2\<rparr>)"
      using inv ab cd(1-3) fr(1,2) dz by (simp add: afs_inv_def after_def bufs_ok_def base_def [symmetric] fl_def)
    moreover obtain c where c: "afs_files (disk (blk s)) base (cstr name) = Some c" "sectors_of (length c) = unat (nsect (de_size ?e))"
      using file_entry [of "disk (blk s)" base "cstr name"] d Some by (auto simp: D_def [symmetric] split: option.splits)
    moreover have "vol_delete name (afs_volume (disk (blk s)) s) = (0, afs_volume (disk b2) (?s2\<lparr>blk := b2\<rparr>))"
      using c cd(4) by (simp add: vol_delete_def afs_volume_def vol_space_def base_def [symmetric] fl_def)
    ultimately show thesis
      using res ab by (intro that [of 0 "?s2\<lparr>blk := b2\<rparr>"]) (simp_all add: after_def)
  qed
qed

end

section \<open>Mounting and formatting\<close>

lemma resume_bounds:
  assumes "\<forall>e\<in>set D. live e \<longrightarrow> unat (de_start e) + unat (nsect (de_size e)) \<le> N" "N < 2 ^ 32" "unat a \<le> N"
  shows "unat a \<le> unat (foldl resume_step a D) \<and> unat (foldl resume_step a D) \<le> N
    \<and> (\<forall>e\<in>set D. live e \<longrightarrow> unat (de_start e) + unat (nsect (de_size e)) \<le> unat (foldl resume_step a D))"
  using assms
proof (induction D arbitrary: a)
  case (Cons e D)
  have st: "unat a \<le> unat (resume_step a e) \<and> unat (resume_step a e) \<le> N
      \<and> (live e \<longrightarrow> unat (de_start e) + unat (nsect (de_size e)) \<le> unat (resume_step a e))"
  proof (cases "live e")
    case True
    then have "unat (de_start e + nsect (de_size e)) = unat (de_start e) + unat (nsect (de_size e))"
      using Cons.prems(1,2) by (simp add: unat_word_ariths)
    then show ?thesis using True Cons.prems by (auto simp: resume_step_def live_def Let_def word_less_nat_alt)
  next
    case False
    then show ?thesis using Cons.prems(3) by (simp add: resume_step_def live_def)
  qed
  have "\<forall>e\<in>set D. live e \<longrightarrow> unat (de_start e) + unat (nsect (de_size e)) \<le> N" using Cons.prems(1) by simp
  from Cons.IH [OF this Cons.prems(2), of "resume_step a e"] st show ?case by fastforce
qed simp

lemma sb_of_append: "16 \<le> length x \<Longrightarrow> sb_of (x @ y) = sb_of x"
  by (simp add: sb_of_def)

lemma resume_extents:
  assumes d: "dir_ok D" and x: "extents_ok nf (map ext D) fl" and nf: "nf < 2 ^ 32" "2 \<le> nf"
  shows "extents_ok (unat (foldl resume_step 2 D)) (map ext D) []"
    and "2 \<le> unat (foldl resume_step 2 D)" "unat (foldl resume_step 2 D) \<le> nf"
proof -
  have l16: "length D = 16" using d by (simp add: dir_ok_def)
  have "unat (de_start e) + unat (nsect (de_size e)) \<le> nf" if e: "e \<in> set D" "live e" for e
  proof -
    obtain j where j: "j < 16" "e = D ! j" using e(1) l16 by (auto simp: in_set_conv_nth)
    have "unat (de_size e) \<le> 2 ^ 20" using d e by (simp add: dir_ok_def)
    then show ?thesis using live_extent(5) [OF d x j(1)] j(2) e(2) by (simp add: nsect_unat)
  qed
  then have r: "2 \<le> unat (foldl resume_step 2 D)" "unat (foldl resume_step 2 D) \<le> nf"
      "\<forall>e\<in>set D. live e \<longrightarrow> unat (de_start e) + unat (nsect (de_size e)) \<le> unat (foldl resume_step 2 D)"
    using resume_bounds [of D nf 2] nf by simp_all
  then show "2 \<le> unat (foldl resume_step 2 D)" "unat (foldl resume_step 2 D) \<le> nf" by blast+
  show "extents_ok (unat (foldl resume_step 2 D)) (map ext D) []"
  proof (rule extents_okI)
    fix X
    assume "X \<in> set (map ext D)"
    then obtain e where e: "e \<in> set D" "X = ext e" by auto
    have "ext e \<subseteq> {2..<nf}" using extents_okD(4) [OF x, of "ext e"] e(1) by simp
    then show "X \<subseteq> {2..<unat (foldl resume_step 2 D)}"
      using r(3) e by (cases "live e") (fastforce simp: ext_def)+
  qed (use extents_okD(1) [OF x] in \<open>simp_all add: disjoint_list_def\<close>)
qed

context block_device
begin

lemma afs_mount_ok:
  assumes ok: "ok (blk s)" and left: "2 \<le> left (blk s)" and cap: "op_capacity B (blk s) \<noteq> 0"
    and t: "afs_inv (disk (blk s)) (secs (blk s)) t" "afs_base t = afs_base s"
    and s: "bufs_ok s" "length (diobuf s) = 16" "names24 (diobuf s)" "free_extents s = []"
  obtains s' where "afs_mount B s = (1, s')" "ok (blk s')" "secs (blk s') = secs (blk s)" "left (blk s') = left (blk s) - 2"
    "disk (blk s') = disk (blk s)" "afs_base s' = afs_base s" "afs_inv (disk (blk s')) (secs (blk s')) s'"
    "unat (next_free_lba s') \<le> unat (next_free_lba t)"
proof -
  define base where "base = unat (afs_base s)"
  define D where "D = disk_dir (disk (blk s)) base"
  note I = afs_invD [OF t(1), unfolded t(2)]
  have sb: "disk_sb (disk (blk s)) base = \<lparr>sb_magic = 0x31534645, sb_version = 1, sb_total = total_sectors t, sb_data = 2\<rparr>"
    using t by (simp add: afs_inv_def base_def)
  have io: "length (iobuf s ! 0) = 4096" using s(1) by (simp add: bufs_ok_def)
  obtain b1 where b1: "rd_sectors B 0 (iobuf_at s) (iobuf s ! 0) 1 s =
        (0, disk_read (disk (blk s)) base 512 @ drop 512 (iobuf s ! 0), s\<lparr>blk := b1\<rparr>)"
      "after ok left secs (op_capacity B) (blk s) 1 b1" "disk b1 = disk (blk s)"
    using rd_sectors_ok [of s 1 "iobuf s ! 0" 0 "iobuf_at s"] ok left io I(7,9-11) by (auto simp: base_def)
  define buf where "buf = disk_read (disk (blk s)) base 512 @ drop 512 (iobuf s ! 0)"
  have bl: "length buf = 4096" "sb_of buf = disk_sb (disk (blk s)) base"
    using io by (simp_all add: buf_def disk_sb_def sb_of_append)
  let ?s3 = "s\<lparr>blk := b1, iobuf := (iobuf s)[0 := buf], total_sectors := total_sectors t, data_lba := 2,
    next_free_lba := 2, mounted := True\<rparr>"
  obtain b2 where b2: "dir_load B ?s3 = (True, ?s3\<lparr>blk := b2, diobuf := D\<rparr>)"
      "after ok left secs (op_capacity B) b1 1 b2" "disk b2 = disk (blk s)"
    using dir_load_ok [of ?s3] b1(2,3) left s(2,3) I(7,9-11)
    by (auto simp: after_def D_def disk_dir_def base_def)
  have d: "dir_ok D" and x: "extents_ok (unat (next_free_lba t)) (map ext D) (free_extents t)"
    using I(5,6) by (simp_all add: D_def base_def)
  have nf: "unat (next_free_lba t) < 2 ^ 32" using I(10,11) by linarith
  note r = resume_extents [OF d x nf I(7)]
  define s' where "s' = afs_say (uart_puts_nolf (str ''[fs] AEOS-FS mounted: '') @ uart_dec (ucast (total_sectors t))
      @ uart_puts (str '' sectors'')) (?s3\<lparr>blk := b2, diobuf := D, next_free_lba := foldl resume_step 2 D\<rparr>)"
  have i0: "0 < length (iobuf s)" using s(1) by (simp add: bufs_ok_def)
  have res: "afs_mount B s = (1, s')"
    using cap b1(1) b2(1) sb bl(2) i0 unfolding afs_mount_def s'_def buf_def [symmetric]
    by (simp add: Let_def buf_def [symmetric])
  have bo: "bufs_ok (s\<lparr>iobuf := (iobuf s)[0 := buf]\<rparr>)" by (rule bufs_ok_update [OF s(1) bl(1)])
  have sel: "blk s' = b2" "afs_base s' = afs_base s" "next_free_lba s' = foldl resume_step 2 D" "diobuf s' = D" "mounted s'"
      "iobuf s' = (iobuf s)[0 := buf]" "free_extents s' = []" "data_lba s' = 2" "total_sectors s' = total_sectors t"
    by (simp_all add: s'_def afs_say_def s(4))
  have ab: "after ok left secs (op_capacity B) (blk s) 2 b2" using after_trans [OF b1(2) b2(2)] by (simp add: numeral_2_eq_2)
  have "afs_inv (disk b2) (secs b2) s'"
    using r d dir_okD [OF d] bo sb ab b2(3) I(8-11)
    by (auto simp: afs_inv_def sel bufs_ok_def after_def base_def [symmetric] D_def [symmetric] word_le_nat_alt)
  then show thesis using res ab b2(3) r(3) by (intro that [of s']) (simp_all add: sel after_def)
qed

end

lemma empty_dir:
  "dir_ok (replicate 16 no_dirent)" "map ext (replicate 16 no_dirent) = replicate 16 {}"
  "first_slot (\<lambda>e. live e \<and> cstr (de_name e) = nm) (replicate 16 no_dirent) = None"
  by (auto simp: dir_ok_def names24_def first_slot_None)

lemma sb_of_bytes: "sb_of (sb_bytes sb @ y) = sb"
  by (simp add: sb_of_def sb_bytes_def)

context block_device
begin

lemma afs_format_ok:
  assumes ok: "ok (blk s)" and left: "2 \<le> left (blk s)" and cap: "op_capacity B (blk s) \<noteq> 0"
    and b: "unat (afs_base s) + 2 \<le> secs (blk s)"
    and tot: "tot = (ucast (op_capacity B (blk s) div 512) :: u32)" "2 \<le> unat tot" "unat (afs_base s) + unat tot + 2048 < 2 ^ 32"
    and fl: "free_extents s = []"
  obtains s' where "afs_format B s = (0, s')" "ok (blk s')" "secs (blk s') = secs (blk s)" "left (blk s') = left (blk s) - 2"
    "afs_base s' = afs_base s" "afs_inv (disk (blk s')) (secs (blk s')) s'" "next_free_lba s' = 2" "total_sectors s' = tot"
    "afs_files (disk (blk s')) (unat (afs_base s)) = Map.empty" "op_capacity B (blk s') = op_capacity B (blk s)"
    "disk_dir (disk (blk s')) (unat (afs_base s)) = replicate 16 no_dirent"
proof -
  define base where "base = unat (afs_base s)"
  define sb where "sb = \<lparr>sb_magic = 0x31534645, sb_version = 1, sb_total = tot, sb_data = 2\<rparr>"
  define b0 where "b0 = memcpy (replicate 4096 0) 0 (sb_bytes sb) 0 16"
  have lsb: "length (sb_bytes sb) = 16" by (simp add: sb_bytes_def)
  then have b0: "length b0 = 4096" "b0 = sb_bytes sb @ replicate 4080 0" by (simp_all add: b0_def memcpy_eq)
  let ?s0 = "s\<lparr>iobuf := b0 # replicate 3 (replicate 4096 0)\<rparr>"
  obtain b1 where b1: "wr_sectors B 0 (iobuf_at s) b0 1 ?s0 = (0, ?s0\<lparr>blk := b1\<rparr>)"
      "after ok left secs (op_capacity B) (blk s) 1 b1" "disk b1 = disk_write (disk (blk s)) base (take 512 b0)"
    using wr_sectors_ok [of ?s0 1 b0 0 "iobuf_at s"] ok left b b0(1) tot(3) by (auto simp: base_def)
  let ?D = "replicate 16 no_dirent"
  let ?s1 = "?s0\<lparr>blk := b1, diobuf := ?D\<rparr>"
  obtain b2 where b2: "dir_flush B ?s1 = (0, ?s1\<lparr>blk := b2\<rparr>)" "after ok left secs (op_capacity B) b1 1 b2"
      "disk b2 = disk_write (disk b1) (base + 1) (dir_bytes ?D)"
    using dir_flush_ok [of ?s1] b1(2) left b tot(3) dir_okD(2) [OF empty_dir(1)] by (auto simp: after_def base_def)
  note cd = commit_dir [OF dir_okD(2,1) [OF empty_dir(1)] b2(3)]
  have "disk_read (disk b1) base 512 = take 512 b0"
    unfolding b1(3) using b0(1) by (subst disk_read_write_same) simp_all
  then have dsb: "disk_sb (disk b2) base = sb"
    by (simp add: disk_sb_def cd(3) b0(2) lsb sb_of_bytes)
  define s' where "s' = afs_say (uart_puts (str ''[fs] AEOS-FS formatted''))
      (?s1\<lparr>blk := b2, total_sectors := tot, data_lba := 2, next_free_lba := 2, mounted := True\<rparr>)"
  have res: "afs_format B s = (0, s')"
    using cap b1(1) b2(1) unfolding afs_format_def s'_def no_dirent_def sb_def b0_def tot(1)
    by (simp add: Let_def)
  have sel: "blk s' = b2" "afs_base s' = afs_base s" "next_free_lba s' = 2" "diobuf s' = ?D" "mounted s'"
      "iobuf s' = b0 # replicate 3 (replicate 4096 0)" "free_extents s' = []" "data_lba s' = 2" "total_sectors s' = tot"
    by (simp_all add: s'_def afs_say_def fl)
  have ab: "after ok left secs (op_capacity B) (blk s) 2 b2" using after_trans [OF b1(2) b2(2)] by (simp add: numeral_2_eq_2)
  have "extents_ok 2 (map ext ?D) []"
    unfolding empty_dir(2) by (rule extents_okI) (simp_all add: disjoint_list_def)
  then have "afs_inv (disk b2) (secs b2) s'"
    using ab b tot(2,3) b0(1) dsb empty_dir(1) dir_okD [OF empty_dir(1)]
    by (simp add: afs_inv_def sel bufs_ok_def after_def base_def [symmetric] cd(1) sb_def word_le_nat_alt)
  moreover have "afs_files (disk b2) base = Map.empty"
    by (rule ext) (simp add: afs_files_dir cd(1) empty_dir(3))
  ultimately show thesis using res ab cd(1) by (intro that [of s']) (simp_all add: sel after_def base_def)
qed

end

section \<open>Sequences of calls against the contract\<close>

datatype afs_call = Afs_write bytes bytes | Afs_read bytes nat | Afs_delete bytes

fun afs_run :: "'s blk_ops \<Rightarrow> afs_call list \<Rightarrow> 's afs \<Rightarrow> (int \<times> bytes) list \<times> 's afs" where
  "afs_run B [] s = ([], s)"
| "afs_run B (c # cs) s =
     (let (rc, out, s') = (case c of
            Afs_write nm data \<Rightarrow> (let (rc, s') = afs_write B (Some nm) (Some data) (length data) s in (rc, [], s'))
          | Afs_read nm lim \<Rightarrow> afs_read B (Some nm) True lim s
          | Afs_delete nm \<Rightarrow> (let (rc, s') = afs_delete B nm s in (rc, [], s')));
          (rs, t) = afs_run B cs s'
      in ((rc, out) # rs, t))"

text \<open>
  What the calls return on a volume of the contract.  A read gives the file up to the limit rounded up to a multiple
  of 4096 bytes, which is what the code does instead of stopping at the limit.
\<close>

definition vol_read :: "bytes \<Rightarrow> nat \<Rightarrow> volume \<Rightarrow> int \<times> bytes" where
  "vol_read nm lim v =
     (case vol_files v (cstr nm) of
        None \<Rightarrow> (-1, [])
      | Some c \<Rightarrow> if lim = 0 then (-1, []) else (int (min (length c) (read_len lim (length c))), take (read_len lim (length c)) c))"

fun vol_run :: "afs_call list \<Rightarrow> volume \<Rightarrow> (int \<times> bytes) list \<times> volume" where
  "vol_run [] v = ([], v)"
| "vol_run (c # cs) v =
     (let (r, v') = (case c of
            Afs_write nm data \<Rightarrow> (let (rc, v') = vol_write nm data v in ((rc, []), v'))
          | Afs_read nm lim \<Rightarrow> (vol_read nm lim v, v)
          | Afs_delete nm \<Rightarrow> (let (rc, v') = vol_delete nm v in ((rc, []), v')));
          (rs, w) = vol_run cs v'
      in (r # rs, w))"

fun afs_call_ok :: "afs_call \<Rightarrow> bool" where
  "afs_call_ok (Afs_write nm data) \<longleftrightarrow> length (cstr nm) \<le> 23"
| "afs_call_ok _ \<longleftrightarrow> True"

fun afs_cost :: "afs_call \<Rightarrow> nat" where
  "afs_cost (Afs_write nm data) = chunks (length data) + 2"
| "afs_cost (Afs_read nm lim) = chunks lim + 1"
| "afs_cost (Afs_delete nm) = 2"

fun afs_sectors :: "afs_call \<Rightarrow> nat" where
  "afs_sectors (Afs_write nm data) = sectors_of (length data)"
| "afs_sectors _ = 0"

context block_device
begin

lemma afs_call_refines:
  assumes ok: "ok (blk s)" and inv: "afs_inv (disk (blk s)) (secs (blk s)) s" and c: "afs_call_ok c"
    and left: "afs_cost c \<le> left (blk s)"
    and room: "unat (afs_base s) + min (unat (total_sectors s)) (unat (next_free_lba s) + afs_sectors c) \<le> secs (blk s)"
  obtains r s' where "afs_run B [c] s = ([r], s')"
    "vol_run [c] (afs_volume (disk (blk s)) s) = ([r], afs_volume (disk (blk s')) s')"
    "ok (blk s')" "afs_inv (disk (blk s')) (secs (blk s')) s'" "secs (blk s') = secs (blk s)" "afs_base s' = afs_base s"
    "total_sectors s' = total_sectors s"
    "left (blk s) - afs_cost c \<le> left (blk s')" "unat (next_free_lba s') \<le> unat (next_free_lba s) + afs_sectors c"
proof (cases c)
  case (Afs_write nm data)
  show thesis
  proof (cases "data = [] \<or> 2 ^ 20 < length data")
    case True
    then have "afs_write B (Some nm) (Some data) (length data) s = (-1, s)"
        "vol_write nm data (afs_volume (disk (blk s)) s) = (-1, afs_volume (disk (blk s)) s)"
      by (auto simp: afs_write_def vol_write_def)
    then show thesis using ok inv by (intro that [of "(-1, [])" s]) (simp_all add: Afs_write)
  next
    case False
    then have "0 < length data" "length data \<le> 2 ^ 20" "length (cstr nm) \<le> 23" "chunks (length data) + 2 \<le> left (blk s)"
        "unat (afs_base s) + min (unat (total_sectors s)) (unat (next_free_lba s) + sectors_of (length data)) \<le> secs (blk s)"
      using c left room by (simp_all add: Afs_write)
    note W = afs_write_ok [OF ok inv this(1,2) order_refl this(3-5)]
    obtain rc s' where a: "afs_write B (Some nm) (Some data) (length data) s = (rc, s')" "ok (blk s')" "secs (blk s') = secs (blk s)"
        "left (blk s) - (chunks (length data) + 2) \<le> left (blk s')" "afs_inv (disk (blk s')) (secs (blk s')) s'" "afs_base s' = afs_base s"
        "total_sectors s' = total_sectors s" "op_capacity B (blk s') = op_capacity B (blk s)"
        "unat (next_free_lba s') \<le> unat (next_free_lba s) + sectors_of (length data)"
        "vol_write nm (take (length data) data) (afs_volume (disk (blk s)) s) = (rc, afs_volume (disk (blk s')) s')"
      by (rule W) (rule that)
    then show thesis by (intro that [of "(rc, [])" s']) (simp_all add: Afs_write)
  qed
next
  case (Afs_read nm lim)
  show thesis
  proof (cases "lim = 0")
    case True
    then have "afs_read B (Some nm) True lim s = (-1, [], s)" "vol_read nm lim (afs_volume (disk (blk s)) s) = (-1, [])"
      by (simp_all add: afs_read_def vol_read_def split: option.split)
    then show thesis using ok inv by (intro that [of "(-1, [])" s]) (simp_all add: Afs_read)
  next
    case False
    then have "0 < lim" "chunks lim + 1 \<le> left (blk s)" using left by (simp_all add: Afs_read)
    note R = afs_read_ok [OF ok inv this]
    obtain rc out s' where a: "afs_read B (Some nm) True lim s = (rc, out, s')" "ok (blk s')" "secs (blk s') = secs (blk s)"
      "left (blk s) - (chunks lim + 1) \<le> left (blk s')" "afs_inv (disk (blk s')) (secs (blk s')) s'" "afs_base s' = afs_base s"
      "next_free_lba s' = next_free_lba s" "total_sectors s' = total_sectors s" "free_extents s' = free_extents s"
      "disk (blk s') = disk (blk s)"
      and o: "case afs_files (disk (blk s)) (unat (afs_base s)) (cstr nm) of None \<Rightarrow> rc = -1 \<and> out = []
       | Some c \<Rightarrow> rc = int (length out) \<and> out = take (read_len lim (length c)) c"
      by (rule R) (rule that)
    have "afs_volume (disk (blk s')) s' = afs_volume (disk (blk s)) s" using a(6-10) by (simp add: afs_volume_def vol_space_def)
    moreover have "vol_read nm lim (afs_volume (disk (blk s)) s) = (rc, out)"
      using o False by (auto simp: vol_read_def afs_volume_def split: option.splits)
    ultimately show thesis using a(1-8) by (intro that [of "(rc, out)" s']) (simp_all add: Afs_read)
  qed
next
  case (Afs_delete nm)
  then have "2 \<le> left (blk s)" using left by simp
  note R = afs_delete_ok [OF ok inv this]
  obtain rc s' where a: "afs_delete B nm s = (rc, s')" "ok (blk s')" "secs (blk s') = secs (blk s)"
    "left (blk s) - 2 \<le> left (blk s')" "afs_inv (disk (blk s')) (secs (blk s')) s'" "afs_base s' = afs_base s"
    "next_free_lba s' = next_free_lba s" "total_sectors s' = total_sectors s"
    "vol_delete nm (afs_volume (disk (blk s)) s) = (rc, afs_volume (disk (blk s')) s')"
    by (rule R) (rule that)
  then show thesis by (intro that [of "(rc, [])" s']) (simp_all add: Afs_delete)
qed

lemma afs_run_refines:
  "ok (blk s) \<Longrightarrow> afs_inv (disk (blk s)) (secs (blk s)) s \<Longrightarrow> list_all afs_call_ok cs \<Longrightarrow>
   sum_list (map afs_cost cs) \<le> left (blk s) \<Longrightarrow>
   unat (afs_base s) + min (unat (total_sectors s)) (unat (next_free_lba s) + sum_list (map afs_sectors cs)) \<le> secs (blk s) \<Longrightarrow>
   \<exists>rs s'. afs_run B cs s = (rs, s') \<and> vol_run cs (afs_volume (disk (blk s)) s) = (rs, afs_volume (disk (blk s')) s')
     \<and> afs_inv (disk (blk s')) (secs (blk s')) s' \<and> afs_base s' = afs_base s
     \<and> ok (blk s') \<and> secs (blk s') = secs (blk s) \<and> left (blk s) - sum_list (map afs_cost cs) \<le> left (blk s')"
proof (induction cs arbitrary: s)
  case (Cons c cs)
  have "afs_call_ok c" "afs_cost c \<le> left (blk s)"
      "unat (afs_base s) + min (unat (total_sectors s)) (unat (next_free_lba s) + afs_sectors c) \<le> secs (blk s)"
    using Cons.prems(3-5) by (auto simp: min_def split: if_splits)
  note R = afs_call_refines [OF Cons.prems(1,2) this]
  obtain r s1 where a: "afs_run B [c] s = ([r], s1)"
    "vol_run [c] (afs_volume (disk (blk s)) s) = ([r], afs_volume (disk (blk s1)) s1)"
    "ok (blk s1)" "afs_inv (disk (blk s1)) (secs (blk s1)) s1" "secs (blk s1) = secs (blk s)" "afs_base s1 = afs_base s"
    "total_sectors s1 = total_sectors s"
    "left (blk s) - afs_cost c \<le> left (blk s1)" "unat (next_free_lba s1) \<le> unat (next_free_lba s) + afs_sectors c"
    by (rule R) (rule that)
  have "list_all afs_call_ok cs" "sum_list (map afs_cost cs) \<le> left (blk s1)"
      "unat (afs_base s1) + min (unat (total_sectors s1)) (unat (next_free_lba s1) + sum_list (map afs_sectors cs)) \<le> secs (blk s1)"
    using Cons.prems(3-5) a(5-9) by (auto simp: min_def split: if_splits)
  from Cons.IH [OF a(3,4) this] obtain rs s' where r: "afs_run B cs s1 = (rs, s')"
      "vol_run cs (afs_volume (disk (blk s1)) s1) = (rs, afs_volume (disk (blk s')) s')" "afs_inv (disk (blk s')) (secs (blk s')) s'"
      "afs_base s' = afs_base s1" "ok (blk s')" "secs (blk s') = secs (blk s1)"
      "left (blk s1) - sum_list (map afs_cost cs) \<le> left (blk s')"
    by blast
  have "afs_run B (c # cs) s = (r # rs, s')" using a(1) r(1) by (auto split: prod.splits)
  moreover have "vol_run (c # cs) (afs_volume (disk (blk s)) s) = (r # rs, afs_volume (disk (blk s')) s')"
    using a(2) r(2) by (simp split: prod.splits)
  ultimately show ?case using a(5,6,8) r(3-7) by simp
qed simp

end

section \<open>A free list that outlives the volume\<close>

lemma format_keeps_free_list:
  assumes "afs_format B s = (0, s')"
  shows "free_extents s' = free_extents s \<and> next_free_lba s' = 2 \<and> total_sectors s' = ucast (op_capacity B (blk s) div 512)"
  using assms
  by (auto simp: afs_format_def Let_def dir_flush_def wr_sectors_def afs_say_def split: prod.splits if_splits)

text \<open>
  C37. \<open>afs_format\<close> does not clear the free extent list.  If the list still holds the extent at sector 2 that
  deleting the first file of the previous volume left there, two successive allocations on the fresh volume hand out
  the same sectors, so two new files share their data.
\<close>

theorem afs_format_stale_extents:
  assumes "afs_format B s = (0, s')" and "free_extents s = [\<lparr>fe_start = 2, fe_count = n\<rparr>]" and "0 < n"
    and "2 + unat n \<le> unat (ucast (op_capacity B (blk s) div 512) :: u32)"
  shows "\<exists>t t'. afs_alloc n s' = (Some 2, t) \<and> afs_alloc n t = (Some 2, t')"
proof -
  note f = format_keeps_free_list [OF assms(1)]
  have u: "unat (2 + n) = 2 + unat n"
    using assms(4) unsigned_less [of "ucast (op_capacity B (blk s) div 512) :: u32", where ?'a = nat]
    by (simp add: unat_word_ariths)
  have fs: "first_slot (\<lambda>e. n \<le> fe_count e) [\<lparr>fe_start = 2, fe_count = n\<rparr>] = Some 0"
    by (simp add: first_slot_Some)
  have "2 + n \<le> ucast (op_capacity B (blk s) div 512)" using assms(4) by (simp only: word_le_nat_alt u)
  then show ?thesis
    using f assms(2,3) fs
    by (auto simp: afs_alloc_def alloc_from_free_list_def Let_def first_slot_def)
qed

theorem afs_format_stale_extents_witness:
  "\<exists>s' t t'. afs_format \<lparr>op_read = (\<lambda>_ _ d _ u. (0, d, u)), op_write = (\<lambda>_ _ d _ u. (0, d, u)), op_capacity = (\<lambda>_. 8192)\<rparr>
       \<lparr>mounted = True, total_sectors = 16, data_lba = 2, next_free_lba = 3, afs_base = 0,
        free_extents = [\<lparr>fe_start = 2, fe_count = 1\<rparr>], iobuf = [], diobuf = [], iobuf_at = 0, diobuf_at = 0,
        blk = (), afs_con = []\<rparr> = (0, s')
     \<and> afs_alloc 1 s' = (Some 2, t) \<and> afs_alloc 1 t = (Some 2, t')"
proof -
  let ?B = "\<lparr>op_read = (\<lambda>_ _ d _ u. (0, d, u)), op_write = (\<lambda>_ _ d _ u. (0, d, u)), op_capacity = (\<lambda>_. 8192)\<rparr> :: unit blk_ops"
  let ?s = "\<lparr>mounted = True, total_sectors = 16, data_lba = 2, next_free_lba = 3, afs_base = 0,
      free_extents = [\<lparr>fe_start = 2, fe_count = 1\<rparr>], iobuf = [], diobuf = [], iobuf_at = 0, diobuf_at = 0,
      blk = (), afs_con = []\<rparr>"
  obtain s' where s': "afs_format ?B ?s = (0, s')"
    by (simp add: afs_format_def Let_def dir_flush_def wr_sectors_def)
  show ?thesis using afs_format_stale_extents [OF s', of 1] s' by simp
qed

end
