(* ===== verification/Storage.thy ===== *)
theory Storage
  imports Virtio Afs
begin

text \<open>
  The file system on the virtio driver: the operations of \<^verbatim>\<open>src/kernel/afs.c\<close> with the calls \<^verbatim>\<open>vblk_read\<close>,
  \<^verbatim>\<open>vblk_write\<close> and \<^verbatim>\<open>vblk_capacity\<close> of \<^verbatim>\<open>src/boot/aarch64/virtio.c\<close> under them, on a device that follows the
  virtio specification.  The number of requests is bounded by the descriptor chains the driver has left.
\<close>

context virtio_device
begin

lemmas volume_refines = blk.afs_run_refines
lemmas volume_mount = blk.afs_mount_ok
lemmas volume_format = blk.afs_format_ok
lemmas volume_read = blk.afs_read_ok
lemmas volume_write = blk.afs_write_ok

end

section \<open>A volume for the witnesses\<close>

definition ram_volume :: "ram_disk virtio afs" where
  "ram_volume =
     \<lparr>mounted = False, total_sectors = 0, data_lba = 0, next_free_lba = 0, afs_base = 0, free_extents = [],
      iobuf = replicate 4 (replicate 4096 0), diobuf = replicate 16 no_dirent, iobuf_at = 0x40090000,
      diobuf_at = 0x40094000, blk = ram_disk_driver, afs_con = []\<rparr>"

lemma ram_volume_formatted:
  obtains s where "afs_format (virtio_ops ram_disk_dev) ram_volume = (0, s)" "vb_inv rk_queue rk_seen (blk s)"
    "rk_sectors (vb_dev (blk s)) = 16" "requests_left (blk s) = 38" "afs_base s = 0"
    "afs_inv (rk_medium (vb_dev (blk s))) 16 s" "next_free_lba s = 2" "total_sectors s = 16"
    "afs_files (rk_medium (vb_dev (blk s))) 0 = Map.empty" "vblk_capacity (blk s) = 8192"
    "free_extents s = []"
proof -
  have c: "blk ram_volume = ram_disk_driver" "op_capacity (virtio_ops ram_disk_dev) ram_disk_driver = 8192"
      "rk_sectors (vb_dev ram_disk_driver) = 16" "afs_base ram_volume = 0" "free_extents ram_volume = []"
    by (simp_all add: ram_volume_def virtio_ops_def vblk_capacity_def ram_disk_driver_def)
  have "vb_inv rk_queue rk_seen (blk ram_volume)" "2 \<le> requests_left (blk ram_volume)"
    using ram_disk_driver_inv by (simp_all add: c)
  note F = ram_disk.volume_format [OF this, of 16, unfolded c, simplified]
  have "afs_format (virtio_ops ram_disk_dev) ram_volume = (0, s) \<Longrightarrow> free_extents s = []" for s
    using format_keeps_free_list [of "virtio_ops ram_disk_dev" ram_volume s] c(5) by simp
  note fk = this [unfolded virtio_ops_def]
  show thesis
    by (rule F) (rule that, simp_all add: ram_disk_driver_inv virtio_ops_def, rule fk, simp)
qed

lemma ram_volume_file:
  obtains s t where "afs_format (virtio_ops ram_disk_dev) ram_volume = (0, s)"
    "afs_write (virtio_ops ram_disk_dev) (Some (str ''a'')) (Some [1, 2, 3]) 3 s = (3, t)"
    "vb_inv rk_queue rk_seen (blk t)" "rk_sectors (vb_dev (blk t)) = 16" "35 \<le> requests_left (blk t)" "afs_base t = 0"
    "afs_inv (rk_medium (vb_dev (blk t))) 16 t" "vblk_capacity (blk t) = 8192"
    "afs_files (rk_medium (vb_dev (blk t))) 0 = [str ''a'' \<mapsto> [1, 2, 3]]"
proof -
  obtain s where s: "afs_format (virtio_ops ram_disk_dev) ram_volume = (0, s)" "vb_inv rk_queue rk_seen (blk s)"
      "rk_sectors (vb_dev (blk s)) = 16" "requests_left (blk s) = 38" "afs_base s = 0"
      "afs_inv (rk_medium (vb_dev (blk s))) 16 s" "next_free_lba s = 2" "total_sectors s = 16"
      "afs_files (rk_medium (vb_dev (blk s))) 0 = Map.empty" "vblk_capacity (blk s) = 8192" "free_extents s = []"
    by (rule ram_volume_formatted) (rule that)
  have "afs_inv (rk_medium (vb_dev (blk s))) (rk_sectors (vb_dev (blk s))) s" "(0 :: nat) < 3" "(3 :: nat) \<le> 2 ^ 20"
      "3 \<le> length [1, 2, 3 :: u8]" "length (cstr (str ''a'')) \<le> 23" "chunks 3 + 2 \<le> requests_left (blk s)"
      "unat (afs_base s) + min (unat (total_sectors s)) (unat (next_free_lba s) + sectors_of 3) \<le> rk_sectors (vb_dev (blk s))"
    using s by (simp_all add: str_def cstr_def chunks_def sectors_of_def)
  note W = ram_disk.volume_write [OF s(2) this]
  have v: "vol_write (str ''a'') (take 3 [1, 2, 3]) (afs_volume (rk_medium (vb_dev (blk s))) s)
      = (3, \<lparr>vol_files = [str ''a'' \<mapsto> [1, 2, 3]], vol_holes = [], vol_rest = 13\<rparr>)"
    using s by (simp add: afs_volume_def vol_space_def vol_write_def vol_place_def vol_alloc_def sectors_of_def first_slot_def
        cstr_def str_def)
  show thesis
    by (rule W) (rule that, rule s(1), use s v in \<open>auto simp: afs_volume_def vol_space_def chunks_def virtio_ops_def\<close>)
qed

section \<open>Properties\<close>

text \<open>
  C4. The file system implements its volume exactly.  Take a mounted volume and a sequence of writes (under names of at
  most 23 bytes), reads and deletes that the descriptor chains left to the driver can serve, where the sectors the volume
  claims, or at least those the sequence can reach, are on the medium.  Then every call returns what the
  call on the abstract volume returns, and the files and the free space afterwards are those of the abstract volume.  A write
  of 1 to 2^20 bytes therefore succeeds and stores exactly its data, except when the name is new and sixteen files
  exist, or when the file has to move and neither a hole nor the area after the files has enough sectors; then it
  returns -1 and no file changes.  A read returns the stored bytes up to the limit rounded up to a multiple of 4096.  A
  delete removes the name and leaves its sectors as a hole.
\<close>

theorem afs_refines_map:
  assumes "virtio_device V queue seen medium sectors"
    and "vb_inv queue seen (blk s)" and "afs_inv (medium (vb_dev (blk s))) (sectors (vb_dev (blk s))) s"
    and "list_all afs_call_ok cs" and "sum_list (map afs_cost cs) \<le> requests_left (blk s)"
    and "unat (afs_base s) + min (unat (total_sectors s)) (unat (next_free_lba s) + sum_list (map afs_sectors cs))
         \<le> sectors (vb_dev (blk s))"
  shows "\<exists>rs s'. afs_run (virtio_ops V) cs s = (rs, s')
    \<and> vol_run cs (afs_volume (medium (vb_dev (blk s))) s) = (rs, afs_volume (medium (vb_dev (blk s'))) s')
    \<and> afs_inv (medium (vb_dev (blk s'))) (sectors (vb_dev (blk s'))) s'"
  using virtio_device.volume_refines [OF assms] by blast

theorem afs_refines_map_witness:
  "\<exists>s s'. afs_format (virtio_ops ram_disk_dev) ram_volume = (0, s)
     \<and> afs_run (virtio_ops ram_disk_dev)
         [Afs_write (str ''a'') [1, 2, 3], Afs_write (str ''b'') (replicate 7000 5), Afs_read (str ''a'') 10,
          Afs_delete (str ''a''), Afs_read (str ''a'') 10] s
       = ([(3, []), (-1, []), (3, [1, 2, 3]), (0, []), (-1, [])], s')"
proof -
  obtain s where s: "afs_format (virtio_ops ram_disk_dev) ram_volume = (0, s)" "vb_inv rk_queue rk_seen (blk s)"
      "rk_sectors (vb_dev (blk s)) = 16" "requests_left (blk s) = 38" "afs_base s = 0"
      "afs_inv (rk_medium (vb_dev (blk s))) 16 s" "next_free_lba s = 2" "total_sectors s = 16"
      "afs_files (rk_medium (vb_dev (blk s))) 0 = Map.empty" "vblk_capacity (blk s) = 8192" "free_extents s = []"
    by (rule ram_volume_formatted) (rule that)
  let ?cs = "[Afs_write (str ''a'') [1, 2, 3], Afs_write (str ''b'') (replicate 7000 5), Afs_read (str ''a'') 10,
      Afs_delete (str ''a''), Afs_read (str ''a'') 10]"
  have "afs_inv (rk_medium (vb_dev (blk s))) (rk_sectors (vb_dev (blk s))) s" "list_all afs_call_ok ?cs"
      "sum_list (map afs_cost ?cs) \<le> requests_left (blk s)"
      "unat (afs_base s) + min (unat (total_sectors s)) (unat (next_free_lba s) + sum_list (map afs_sectors ?cs))
       \<le> rk_sectors (vb_dev (blk s))"
    using s by (simp_all add: str_def cstr_def chunks_def)
  note R = afs_refines_map [OF ram_disk.virtio_device_axioms s(2) this]
  have "afs_volume (rk_medium (vb_dev (blk s))) s = \<lparr>vol_files = Map.empty, vol_holes = [], vol_rest = 14\<rparr>"
    using s by (simp add: afs_volume_def vol_space_def)
  then have "fst (vol_run ?cs (afs_volume (rk_medium (vb_dev (blk s))) s))
      = [(3, []), (-1, []), (3, [1, 2, 3]), (0, []), (-1, [])]"
    by (simp add: vol_write_def vol_place_def vol_alloc_def vol_read_def vol_delete_def sectors_of_def first_slot_def
        cstr_def str_def chunks_def read_len_def)
  then show ?thesis using R s(1) by auto
qed

text \<open>
  C20. Files survive a reboot: mounting the medium of a mounted volume from scratch (statics zeroed, so an empty free
  list) succeeds, finds the same files and re-establishes the invariant, with the end of the used area no higher
  than before.
\<close>

theorem afs_remount:
  assumes "virtio_device V queue seen medium sectors"
    and "vb_inv queue seen (blk s)" and "2 \<le> requests_left (blk s)" and "vblk_capacity (blk s) \<noteq> 0"
    and "afs_inv (medium (vb_dev (blk s))) (sectors (vb_dev (blk s))) t" and "afs_base t = afs_base s"
    and "bufs_ok s" "length (diobuf s) = 16" "names24 (diobuf s)" "free_extents s = []"
  shows "\<exists>s'. afs_mount (virtio_ops V) s = (1, s') \<and> afs_inv (medium (vb_dev (blk s'))) (sectors (vb_dev (blk s'))) s'
    \<and> afs_files (medium (vb_dev (blk s'))) (unat (afs_base s')) = afs_files (medium (vb_dev (blk s))) (unat (afs_base t))
    \<and> unat (next_free_lba s') \<le> unat (next_free_lba t)"
proof -
  have "op_capacity (virtio_ops V) (blk s) \<noteq> 0" using assms(4) by (simp add: virtio_ops_def)
  note M = virtio_device.volume_mount [OF assms(1-3) this assms(5-10)]
  show ?thesis by (rule M) (auto simp: assms(6))
qed

theorem afs_remount_witness:
  "\<exists>s t s'. afs_format (virtio_ops ram_disk_dev) ram_volume = (0, s)
     \<and> afs_write (virtio_ops ram_disk_dev) (Some (str ''a'')) (Some [1, 2, 3]) 3 s = (3, t)
     \<and> afs_mount (virtio_ops ram_disk_dev) (ram_volume\<lparr>blk := blk t\<rparr>) = (1, s')
     \<and> afs_files (rk_medium (vb_dev (blk s'))) (unat (afs_base s')) = [str ''a'' \<mapsto> [1, 2, 3]]"
proof -
  obtain s t where t: "afs_format (virtio_ops ram_disk_dev) ram_volume = (0, s)"
      "afs_write (virtio_ops ram_disk_dev) (Some (str ''a'')) (Some [1, 2, 3]) 3 s = (3, t)"
      "vb_inv rk_queue rk_seen (blk t)" "rk_sectors (vb_dev (blk t)) = 16" "35 \<le> requests_left (blk t)" "afs_base t = 0"
      "afs_inv (rk_medium (vb_dev (blk t))) 16 t" "vblk_capacity (blk t) = 8192"
      "afs_files (rk_medium (vb_dev (blk t))) 0 = [str ''a'' \<mapsto> [1, 2, 3]]"
    by (rule ram_volume_file) (rule that)
  let ?t = "ram_volume\<lparr>blk := blk t\<rparr>"
  have "bufs_ok ?t" "length (diobuf ?t) = 16" "names24 (diobuf ?t)" "free_extents ?t = []" "afs_base ?t = 0"
    by (simp_all add: ram_volume_def bufs_ok_def names24_def)
  then have "\<exists>s'. afs_mount (virtio_ops ram_disk_dev) ?t = (1, s')
      \<and> afs_files (rk_medium (vb_dev (blk s'))) (unat (afs_base s')) = [str ''a'' \<mapsto> [1, 2, 3]]"
    using afs_remount [OF ram_disk.virtio_device_axioms, of ?t t] t(3-9) by auto
  then show ?thesis using t(1,2) by blast
qed

text \<open>
  C33. \<open>afs_read\<close> does not respect the size of the caller's buffer: a chunk is cut to the file size and to 4096 bytes
  but not to the room that is left, so reading a file that is longer than a limit which is no multiple of 4096
  stores more bytes than the limit.
\<close>

theorem afs_read_overrun:
  assumes "virtio_device V queue seen medium sectors"
    and "vb_inv queue seen (blk s)" and "afs_inv (medium (vb_dev (blk s))) (sectors (vb_dev (blk s))) s"
    and "0 < lim" "chunks lim + 1 \<le> requests_left (blk s)"
    and "afs_files (medium (vb_dev (blk s))) (unat (afs_base s)) (cstr name) = Some c"
    and "lim < length c" "\<not> 4096 dvd lim"
  shows "\<exists>out s'. afs_read (virtio_ops V) (Some name) True lim s = (int (length out), out, s')
    \<and> lim < length out \<and> length out = min (length c) (4096 * ((lim + 4095) div 4096))"
proof -
  note R = virtio_device.volume_read [OF assms(1-5), of name]
  have "lim \<noteq> 4096 * chunks lim" using assms(8) by (metis dvd_triv_left)
  then have "lim < read_len lim (length c)" "read_len lim (length c) \<le> length c"
    using chunks_bounds(1) [of lim] assms(7) by (auto simp: read_len_def)
  moreover obtain rc out s' where "afs_read (virtio_ops V) (Some name) True lim s = (rc, out, s')"
      "case afs_files (medium (vb_dev (blk s))) (unat (afs_base s)) (cstr name) of None \<Rightarrow> rc = -1 \<and> out = []
       | Some c \<Rightarrow> rc = int (length out) \<and> out = take (read_len lim (length c)) c"
    by (rule R) (rule that; assumption)
  ultimately show ?thesis
    using assms(6) by (intro exI [of _ out] exI [of _ s']) (simp add: read_len_def chunks_def)
qed

theorem afs_read_overrun_witness:
  "\<exists>s t out s'. afs_format (virtio_ops ram_disk_dev) ram_volume = (0, s)
     \<and> afs_write (virtio_ops ram_disk_dev) (Some (str ''a'')) (Some [1, 2, 3]) 3 s = (3, t)
     \<and> afs_read (virtio_ops ram_disk_dev) (Some (str ''a'')) True 1 t = (int (length out), out, s') \<and> 1 < length out"
proof -
  obtain s t where t: "afs_format (virtio_ops ram_disk_dev) ram_volume = (0, s)"
      "afs_write (virtio_ops ram_disk_dev) (Some (str ''a'')) (Some [1, 2, 3]) 3 s = (3, t)"
      "vb_inv rk_queue rk_seen (blk t)" "rk_sectors (vb_dev (blk t)) = 16" "35 \<le> requests_left (blk t)" "afs_base t = 0"
      "afs_inv (rk_medium (vb_dev (blk t))) 16 t" "vblk_capacity (blk t) = 8192"
      "afs_files (rk_medium (vb_dev (blk t))) 0 = [str ''a'' \<mapsto> [1, 2, 3]]"
    by (rule ram_volume_file) (rule that)
  have "afs_inv (rk_medium (vb_dev (blk t))) (rk_sectors (vb_dev (blk t))) t" "chunks 1 + 1 \<le> requests_left (blk t)"
      "afs_files (rk_medium (vb_dev (blk t))) (unat (afs_base t)) (cstr (str ''a'')) = Some [1, 2, 3]"
    using t by (simp_all add: chunks_def str_def cstr_def)
  then show ?thesis
    using afs_read_overrun [OF ram_disk.virtio_device_axioms t(3), of 1 "str ''a''" "[1, 2, 3]"] t(1,2) by fastforce
qed

end
