(* ===== verification/Fixpoint.thy ===== *)
theory Fixpoint
  imports Prelude
begin

text \<open>
  The Q16.16 helpers of \<^verbatim>\<open>src/kernel/fp.h\<close>, shared by the AI engine, the CMT engine and the SDK mirror, and the
  layer loops that the three networks are made of.  A value of type \<^verbatim>\<open>int32_t\<close> is an \<^typ>\<open>int\<close>; every store to an
  \<^verbatim>\<open>int32_t\<close> goes through \<open>i32\<close>, so an overflow wraps.  The lemmas show that no value of the networks does.
\<close>

section \<open>fp.h\<close>

definition FP_ONE :: int where
  "FP_ONE = 65536"

definition fp_mul :: "int \<Rightarrow> int \<Rightarrow> int" where
  "fp_mul a b = i32 (a * b div 65536)"

definition fp_from_ratio :: "u32 \<Rightarrow> u32 \<Rightarrow> int" where
  "fp_from_ratio num den = (if den = 0 then 0 else i32 (uint num * 65536 div uint den))"

definition fp_softsign :: "int \<Rightarrow> int" where
  "fp_softsign x =
     (let abs_x = (if x < 0 then word_of_int (- (x + 1)) + 1 else word_of_int x :: u32);
          d = i32 (FP_ONE + i32 (uint abs_x))
      in i32 (x * 65536 sdiv d))"

definition fp_clamp :: "int \<Rightarrow> int \<Rightarrow> int \<Rightarrow> int" where
  "fp_clamp x lo hi = (if x < lo then lo else if hi < x then hi else x)"

definition fp_abs :: "int \<Rightarrow> int" where
  "fp_abs x = (if x = - 2147483648 then 2147483647 else if x < 0 then - x else x)"

section \<open>Layers\<close>

text \<open>
  The inner loop \<^verbatim>\<open>s = b[i]; for (j = 0; j < n; j++) s += fp_mul(w[i][j], x[j]);\<close> and the selection
  \<^verbatim>\<open>if (out[j] > out[best]) best = j;\<close>.
\<close>

fun mac :: "int \<Rightarrow> int list \<Rightarrow> int list \<Rightarrow> int" where
  "mac s (w # ws) (x # xs) = mac (i32 (s + fp_mul w x)) ws xs"
| "mac s _ _ = s"

definition pick_best :: "int list \<Rightarrow> nat" where
  "pick_best out = foldl (\<lambda>best j. if out ! best < out ! j then j else best) 0 [0..<length out]"

section \<open>The same over the integers\<close>

definition softsign :: "int \<Rightarrow> int" where
  "softsign x = x * 65536 sdiv (65536 + \<bar>x\<bar>)"

fun lin :: "int \<Rightarrow> int list \<Rightarrow> int list \<Rightarrow> int" where
  "lin s (w # ws) (x # xs) = lin (s + w * x div 65536) ws xs"
| "lin s _ _ = s"

lemma zdiv_geI:
  fixes a b q :: int
  assumes "0 < b" "q * b \<le> a" shows "q \<le> a div b"
  using zdiv_mono1 [OF assms(2,1)] assms(1) by simp

lemma zdiv_lessI:
  fixes a b q :: int
  assumes "0 < b" "a < q * b" shows "a div b < q"
proof (rule ccontr)
  assume "\<not> a div b < q"
  then have "q * b \<le> a div b * b" using assms(1) by (intro mult_right_mono) simp_all
  also have "\<dots> \<le> a" using assms(1) by (metis div_mult_mod_eq le_add_same_cancel1 pos_mod_sign)
  finally show False using assms(2) by simp
qed

lemma softsign_nonneg: "0 \<le> x \<Longrightarrow> softsign x = x * 65536 div (65536 + x)"
  by (cases "x = 0") (simp_all add: softsign_def signed_divide_int_def sgn_if)

lemma softsign_neg: "x < 0 \<Longrightarrow> softsign x = - (- x * 65536 div (65536 - x))"
  by (simp add: softsign_def signed_divide_int_def sgn_if abs_mult)

lemma softsign_odd: "softsign (- x) = - softsign x"
  by (cases x "0 :: int" rule: linorder_cases) (simp_all add: softsign_nonneg softsign_neg)

lemma softsign_bound: "\<bar>softsign x\<bar> < 65536"
proof -
  have *: "0 \<le> softsign y \<and> softsign y < 65536" if "0 \<le> y" for y
  proof -
    have "y * 65536 div (65536 + y) < 65536"
      using that by (intro zdiv_lessI) (simp_all add: algebra_simps)
    moreover have "0 \<le> y * 65536 div (65536 + y)" using that by (simp add: pos_imp_zdiv_nonneg_iff)
    ultimately show ?thesis using that by (simp add: softsign_nonneg)
  qed
  show ?thesis
    using * [of x] * [of "- x"] softsign_odd [of x] by (cases "0 \<le> x") simp_all
qed

lemma softsign_mono:
  assumes "x \<le> y" shows "softsign x \<le> softsign y"
proof -
  have pos: "softsign a \<le> softsign b" if "0 \<le> a" "a \<le> b" for a b
  proof -
    define q where "q = a * 65536 div (65536 + a)"
    have q: "q * (65536 + a) \<le> a * 65536" unfolding q_def
      using that by (metis add_nonneg_nonneg div_mult_mod_eq le_add_same_cancel1 mult.commute pos_mod_sign
          zero_le_numeral add_pos_nonneg zero_less_numeral)
    have "q < 65536" using softsign_bound [of a] that by (simp add: softsign_nonneg q_def)
    then have "q * (b - a) \<le> 65536 * (b - a)" using that by (intro mult_right_mono) simp_all
    with q have "q * (65536 + b) \<le> b * 65536" by (simp add: algebra_simps)
    then have "q \<le> b * 65536 div (65536 + b)" using that by (intro zdiv_geI) simp_all
    then show ?thesis using that by (simp add: softsign_nonneg q_def)
  qed
  have nn: "0 \<le> softsign a" if "0 \<le> a" for a using pos [of 0 a] that by (simp add: softsign_nonneg)
  consider "0 \<le> x" | "x < 0" "0 \<le> y" | "y < 0" using assms by linarith
  then show ?thesis
  proof cases
    case 1
    then show ?thesis using pos assms by blast
  next
    case 2
    then show ?thesis using nn [of y] nn [of "- x"] softsign_odd [of x] by simp
  next
    case 3
    then show ?thesis using pos [of "- y" "- x"] assms softsign_odd [of x] softsign_odd [of y] by simp
  qed
qed

section \<open>No overflow\<close>

lemma fp_softsign_exact:
  assumes "\<bar>x\<bar> \<le> 2 ^ 30"
  shows "fp_softsign x = softsign x"
proof -
  have "(if x < 0 then word_of_int (- (x + 1)) + 1 else word_of_int x) = (word_of_int \<bar>x\<bar> :: u32)"
    by simp
  then have "uint (if x < 0 then word_of_int (- (x + 1)) + 1 else word_of_int x :: u32) = \<bar>x\<bar>"
    using assms by (simp only: uint_word_of_int) simp
  then have "fp_softsign x = i32 (softsign x)"
    using assms by (simp add: fp_softsign_def softsign_def FP_ONE_def i32_id Let_def)
  then show ?thesis using softsign_bound [of x] by (simp add: i32_id)
qed

lemma fp_floor:
  fixes p :: int
  shows "65536 * (p div 65536) \<le> p" "p \<le> 65536 * (p div 65536) + 65535"
  using minus_mult_div_eq_mod [of p 65536] pos_mod_bound [of 65536 p] pos_mod_sign [of 65536 p] by simp_all

lemma term_bound:
  fixes w x :: int
  assumes "\<bar>w\<bar> \<le> 2 ^ 17" "\<bar>x\<bar> \<le> 2 ^ 18"
  shows "\<bar>w * x div 65536\<bar> \<le> 2 ^ 19 + 1"
proof -
  have "\<bar>w * x\<bar> \<le> 2 ^ 17 * 2 ^ 18" unfolding abs_mult using assms by (intro mult_mono) simp_all
  then have "- 34359738368 \<le> w * x" "w * x \<le> 34359738368" by (simp_all add: abs_le_iff)
  then show ?thesis using fp_floor [of "w * x"] by simp
qed

lemma mac_exact:
  "list_all (\<lambda>w. \<bar>w\<bar> \<le> 2 ^ 17) ws \<Longrightarrow> list_all (\<lambda>x. \<bar>x\<bar> \<le> 2 ^ 18) xs \<Longrightarrow>
     \<bar>s\<bar> + (2 ^ 19 + 1) * int (length ws) \<le> 2 ^ 30 \<Longrightarrow>
     mac s ws xs = lin s ws xs \<and> \<bar>lin s ws xs\<bar> \<le> 2 ^ 30"
proof (induction s ws xs rule: mac.induct)
  case (1 s w ws x xs)
  let ?t = "w * x div 65536"
  have t: "\<bar>?t\<bar> \<le> 2 ^ 19 + 1" using "1.prems" by (intro term_bound) simp_all
  then have "\<bar>s + ?t\<bar> + (2 ^ 19 + 1) * int (length ws) \<le> 2 ^ 30"
    using "1.prems"(3) by (simp add: algebra_simps)
  moreover have "i32 (s + fp_mul w x) = s + ?t"
    using t "1.prems"(3) by (simp add: fp_mul_def i32_id)
  ultimately show ?case using 1 by simp
qed simp_all

lemma fp_from_ratio_range:
  assumes "num \<le> den"
  shows "0 \<le> fp_from_ratio num den" "fp_from_ratio num den \<le> 65536"
proof -
  have "0 \<le> fp_from_ratio num den \<and> fp_from_ratio num den \<le> 65536"
  proof (cases "den = 0")
    case False
    then have d: "0 < uint den" using uint_ge_0 [of den] by (simp add: less_le uint_0_iff)
    have "uint num \<le> uint den" using assms by (simp add: word_le_def)
    then have "uint num * 65536 div uint den \<le> uint den * 65536 div uint den"
      using d by (intro zdiv_mono1) simp_all
    then have "uint num * 65536 div uint den \<le> 65536" using d by simp
    moreover have "0 \<le> uint num * 65536 div uint den" using d by (simp add: pos_imp_zdiv_nonneg_iff)
    ultimately show ?thesis using False by (simp add: fp_from_ratio_def i32_id)
  qed (simp add: fp_from_ratio_def)
  then show "0 \<le> fp_from_ratio num den" "fp_from_ratio num den \<le> 65536" by simp_all
qed

lemma fp_clamp_range: "lo \<le> hi \<Longrightarrow> lo \<le> fp_clamp x lo hi \<and> fp_clamp x lo hi \<le> hi"
  by (simp add: fp_clamp_def)

lemma fp_clamp_max: "lo \<le> hi \<Longrightarrow> fp_clamp x lo hi = max lo (min hi x)"
  by (simp add: fp_clamp_def)

section \<open>Selection\<close>

lemma pick_best_upto:
  "0 < n \<Longrightarrow> n \<le> length out \<Longrightarrow>
   (let b = foldl (\<lambda>best j. if out ! best < out ! j then j else best) 0 [0..<n]
    in b < n \<and> (\<forall>j<n. out ! j \<le> out ! b) \<and> (\<forall>j<b. out ! j < (out ! b :: int)))"
proof (induction n)
  case (Suc n)
  show ?case
  proof (cases "n = 0")
    case False
    with Suc show ?thesis by (fastforce simp: Let_def less_Suc_eq)
  qed simp
qed simp

lemma pick_best:
  assumes "out \<noteq> []"
  shows "pick_best out < length out" "j < length out \<Longrightarrow> out ! j \<le> out ! pick_best out"
    "j < pick_best out \<Longrightarrow> out ! j < out ! pick_best out"
  using pick_best_upto [of "length out" out] assms unfolding pick_best_def Let_def by simp_all

lemma pick_best_unique:
  assumes "b < length out" "\<forall>j<length out. out ! j \<le> out ! b" "\<forall>j<b. out ! j < out ! b"
  shows "pick_best out = b"
proof -
  have ne: "out \<noteq> []" using assms(1) by auto
  note p = pick_best [OF ne]
  show ?thesis
    using assms p(1) p(2) [of b] p(3) [of b] by (meson leD linorder_neqE_nat)
qed

end
