(* ===== verification/AiCore.thy ===== *)
theory AiCore
  imports Fixpoint
begin

text \<open>
  The policy network of the AI engine, \<^verbatim>\<open>src/kernel/ai_core.c\<close>: perception of the system metrics, the 3-8-3 network,
  the action on the timer rate and the names of the actions.
\<close>

section \<open>Constants of ai.h and the weights\<close>

abbreviation (input) AI_ACT_SUSTAIN :: int where "AI_ACT_SUSTAIN \<equiv> 0"
abbreviation (input) AI_ACT_BOOST :: int where "AI_ACT_BOOST \<equiv> 1"
abbreviation (input) AI_ACT_REST :: int where "AI_ACT_REST \<equiv> 2"
abbreviation (input) AI_HZ_MIN :: u32 where "AI_HZ_MIN \<equiv> 20"
abbreviation (input) AI_HZ_MAX :: u32 where "AI_HZ_MAX \<equiv> 200"
abbreviation (input) AI_HZ_STEP :: u32 where "AI_HZ_STEP \<equiv> 25"
abbreviation (input) AI_PERIOD_TICKS :: u32 where "AI_PERIOD_TICKS \<equiv> 50"

definition ai_w1 :: "int list list" where
  "ai_w1 =
     [[0, 0, 131072],
      [0, 0, - 131072],
      [131072, 0, 0],
      [0, 131072, 0],
      [32768, 32768, 0],
      [- 65536, - 65536, - 65536],
      [65536, 0, 65536],
      [0, 0, 0]]"

definition ai_b1 :: "int list" where
  "ai_b1 = [0, 0, - 65536, - 65536, 0, 32768, 0, 0]"

definition ai_w2 :: "int list list" where
  "ai_w2 =
     [[- 16384, - 16384, - 16384, - 16384, 32768, 32768, - 16384, 32768],
      [131072, - 131072, 0, 0, - 32768, - 32768, 131072, 0],
      [0, 131072, 131072, 131072, 32768, 0, - 32768, 0]]"

definition ai_b2 :: "int list" where
  "ai_b2 = [0, 0, 0]"

section \<open>Perceive, decide, act\<close>

definition ai_perceive :: "u32 \<Rightarrow> u32 \<Rightarrow> u32 \<Rightarrow> u32 \<Rightarrow> u32 \<Rightarrow> int list" where
  "ai_perceive ticks_since heap_used heap_cap pages_free pages_total =
     [fp_from_ratio heap_used heap_cap,
      fp_from_ratio (pages_total - pages_free) pages_total,
      fp_clamp (i32 (fp_from_ratio ticks_since AI_PERIOD_TICKS - FP_ONE)) (- (2 * FP_ONE)) (2 * FP_ONE)]"

definition ai_decide :: "int list \<Rightarrow> int" where
  "ai_decide x =
     (let hidden = map2 (\<lambda>ws b. fp_softsign (mac b ws x)) ai_w1 ai_b1;
          out = map2 (\<lambda>ws b. fp_clamp (mac b ws hidden) (- (4 * FP_ONE)) (4 * FP_ONE)) ai_w2 ai_b2
      in int (pick_best out))"

definition ai_act_limits :: "int \<Rightarrow> u32 \<times> u32 \<times> u32" where
  "ai_act_limits cmt_level =
     (if cmt_level \<le> 1 then
        (let hz_step = AI_HZ_STEP div 2 in (if hz_step < 1 then 1 else hz_step, 80, 120))
      else if 3 \<le> cmt_level then (AI_HZ_STEP * 2, 50, 200)
      else (AI_HZ_STEP, AI_HZ_MIN, AI_HZ_MAX))"

definition ai_act :: "int \<Rightarrow> int \<Rightarrow> u32 \<Rightarrow> u32" where
  "ai_act action cmt_level hz =
     (case ai_act_limits cmt_level of (hz_step, hz_min, hz_max) \<Rightarrow>
        if action = AI_ACT_BOOST then (if hz + hz_step \<le> hz_max then hz + hz_step else hz)
        else if action = AI_ACT_REST then (if hz_min + hz_step \<le> hz then hz - hz_step else hz)
        else hz)"

definition ai_core_action_name :: "int \<Rightarrow> bytes" where
  "ai_core_action_name action =
     (if 0 \<le> action \<and> action < 3 then [str ''SUSTAIN'', str ''BOOST'', str ''REST''] ! nat action
      else str ''UNKNOWN'')"

section \<open>The network over the integers\<close>

definition ai_hidden :: "int list \<Rightarrow> int list" where
  "ai_hidden x = map2 (\<lambda>ws b. softsign (lin b ws x)) ai_w1 ai_b1"

definition ai_score :: "int list \<Rightarrow> nat \<Rightarrow> int" where
  "ai_score x j = max (- 262144) (min 262144 (lin (ai_b2 ! j) (ai_w2 ! j) (ai_hidden x)))"

lemma ai_weights_small:
  "list_all (\<lambda>ws. length ws = 3 \<and> list_all (\<lambda>w. \<bar>w\<bar> \<le> 2 ^ 17) ws) ai_w1"
  "list_all (\<lambda>ws. length ws = 8 \<and> list_all (\<lambda>w. \<bar>w\<bar> \<le> 2 ^ 17) ws) ai_w2"
  "list_all (\<lambda>b. \<bar>b\<bar> \<le> 2 ^ 16) ai_b1" "list_all (\<lambda>b. \<bar>b\<bar> \<le> 2 ^ 16) ai_b2"
  by (simp_all add: ai_w1_def ai_w2_def ai_b1_def ai_b2_def)

lemma layer_exact:
  assumes "list_all (\<lambda>ws. length ws = n \<and> list_all (\<lambda>w. \<bar>w\<bar> \<le> 2 ^ 17) ws) W" "list_all (\<lambda>b. \<bar>b\<bar> \<le> 2 ^ 16) B"
    and "list_all (\<lambda>v. \<bar>v\<bar> \<le> 2 ^ 18) x" "n \<le> 12"
  shows "map2 (\<lambda>ws b. f (mac b ws x)) W B = map2 (\<lambda>ws b. f (lin b ws x)) W B"
    and "map2 (\<lambda>ws b. fp_softsign (mac b ws x)) W B = map2 (\<lambda>ws b. softsign (lin b ws x)) W B"
proof -
  have m: "mac b ws x = lin b ws x" "\<bar>lin b ws x\<bar> \<le> 2 ^ 30" if "(ws, b) \<in> set (zip W B)" for ws b
  proof -
    have "length ws = n" "list_all (\<lambda>w. \<bar>w\<bar> \<le> 2 ^ 17) ws" "\<bar>b\<bar> \<le> 2 ^ 16"
      using assms(1,2) set_zip_leftD [OF that] set_zip_rightD [OF that] by (auto simp: list_all_iff)
    moreover have "\<bar>b\<bar> + (2 ^ 19 + 1) * int (length ws) \<le> 2 ^ 30" using calculation assms(4) by simp
    ultimately show "mac b ws x = lin b ws x" "\<bar>lin b ws x\<bar> \<le> 2 ^ 30" using mac_exact [of ws x b] assms(3) by auto
  qed
  show "map2 (\<lambda>ws b. f (mac b ws x)) W B = map2 (\<lambda>ws b. f (lin b ws x)) W B"
    using m(1) by (auto intro: map_cong)
  show "map2 (\<lambda>ws b. fp_softsign (mac b ws x)) W B = map2 (\<lambda>ws b. softsign (lin b ws x)) W B"
    using m by (auto intro!: map_cong fp_softsign_exact [THEN trans])
qed

lemma hidden_small: "list_all (\<lambda>v. \<bar>v\<bar> \<le> 2 ^ 18) (map2 (\<lambda>ws b. softsign (lin b ws x)) W B)"
proof -
  have "\<bar>softsign y\<bar> \<le> 2 ^ 18" for y using softsign_bound [of y] by simp
  then show ?thesis by (auto simp: list_all_iff)
qed

lemma upt_3: "[0..<3] = [0, 1, 2 :: nat]"
  by code_simp

lemma ai_decide_scores:
  assumes "list_all (\<lambda>v. \<bar>v\<bar> \<le> 2 ^ 18) x"
  shows "ai_decide x = int (pick_best (map (ai_score x) [0..<3]))"
proof -
  have h: "map2 (\<lambda>ws b. fp_softsign (mac b ws x)) ai_w1 ai_b1 = ai_hidden x"
    unfolding ai_hidden_def by (rule layer_exact [OF ai_weights_small(1,3) assms]) simp
  have "map2 (\<lambda>ws b. fp_clamp (mac b ws (ai_hidden x)) (- (4 * FP_ONE)) (4 * FP_ONE)) ai_w2 ai_b2
      = map2 (\<lambda>ws b. fp_clamp (lin b ws (ai_hidden x)) (- (4 * FP_ONE)) (4 * FP_ONE)) ai_w2 ai_b2"
    using hidden_small unfolding ai_hidden_def by (rule layer_exact [OF ai_weights_small(2,4)]) simp
  also have "\<dots> = map (ai_score x) [0..<3]"
    by (simp add: upt_3 ai_w2_def ai_b2_def ai_score_def fp_clamp_max FP_ONE_def)
  finally show ?thesis by (simp add: ai_decide_def h)
qed

lemma ai_decide_range: "ai_decide x \<in> {0, 1, 2}"
proof -
  let ?h = "map2 (\<lambda>ws b. fp_softsign (mac b ws x)) ai_w1 ai_b1"
  let ?o = "map2 (\<lambda>ws b. fp_clamp (mac b ws ?h) (- (4 * FP_ONE)) (4 * FP_ONE)) ai_w2 ai_b2"
  have l: "length ?o = 3" by (simp add: ai_w2_def ai_b2_def)
  then have "?o \<noteq> []" by (metis list.size(3) zero_neq_numeral)
  from pick_best(1) [OF this] have "pick_best ?o < 3" unfolding l .
  moreover have "ai_decide x = int (pick_best ?o)" by (simp only: ai_decide_def Let_def)
  ultimately show ?thesis by auto
qed

lemma ai_act_range:
  assumes "AI_HZ_MIN \<le> hz" "hz \<le> AI_HZ_MAX"
  shows "AI_HZ_MIN \<le> ai_act action level hz \<and> ai_act action level hz \<le> AI_HZ_MAX"
  using assms unfolding ai_act_def ai_act_limits_def
  by (auto simp: word_le_nat_alt unat_word_ariths word_less_nat_alt unat_sub)

section \<open>The inputs of the kernel's loop\<close>

lemma ai_perceive_small:
  assumes "heap_used \<le> heap_cap" "pages_free \<le> pages_total"
  shows "list_all (\<lambda>v. \<bar>v\<bar> \<le> 2 ^ 18) (ai_perceive t heap_used heap_cap pages_free pages_total)"
proof -
  have "pages_total - pages_free \<le> pages_total" using assms(2) by (rule word_sub_le)
  then show ?thesis
    using fp_from_ratio_range [OF assms(1)] fp_from_ratio_range [of "pages_total - pages_free" pages_total]
      fp_clamp_range [of "- (2 * FP_ONE)" "2 * FP_ONE" "i32 (fp_from_ratio t AI_PERIOD_TICKS - FP_ONE)"]
    by (simp add: ai_perceive_def FP_ONE_def abs_le_iff)
qed

text \<open>With the third input at -1.0, BOOST scores below SUSTAIN whatever the memory pressure.\<close>

lemma ai_score_slow:
  assumes "0 \<le> a" "a \<le> 65536" "0 \<le> b" "b \<le> 65536"
  shows "ai_score [a, b, - 65536] 1 < ai_score [a, b, - 65536] 0"
proof -
  define h where "h = ai_hidden [a, b, - 65536]"
  have h: "h = [softsign (- 131072), softsign 131072, softsign (2 * a - 65536), softsign (2 * b - 65536),
      softsign (32768 * a div 65536 + 32768 * b div 65536), softsign (98304 - a - b), softsign (a - 65536), softsign 0]"
    using nonzero_mult_div_cancel_left [of 65536 "- a"] nonzero_mult_div_cancel_left [of 65536 "- b"]
    by (simp add: h_def ai_hidden_def ai_w1_def ai_b1_def algebra_simps)
  have s: "softsign (- 131072) = - 43690" "softsign 131072 = 43690" "softsign 0 = 0" by code_simp+
  have e: "softsign (- 65536) = - 32768" "softsign 65536 = 32768" "softsign (- 32768) = - 21845" by code_simp+
  have b2: "softsign (2 * a - 65536) \<le> 32768" "softsign (2 * b - 65536) \<le> 32768"
    using softsign_mono [of "2 * a - 65536" 65536] softsign_mono [of "2 * b - 65536" 65536] assms e by simp_all
  have b4: "0 \<le> softsign (32768 * a div 65536 + 32768 * b div 65536)"
    using softsign_mono [of 0 "32768 * a div 65536 + 32768 * b div 65536"] assms s by (simp add: div_int_pos_iff)
  have b5: "- 21845 \<le> softsign (98304 - a - b)" using softsign_mono [of "- 32768" "98304 - a - b"] assms e by simp
  have b6: "softsign (a - 65536) \<le> 0" using softsign_mono [of "a - 65536" 0] assms s by simp
  obtain c d e f g where g: "h = [- 43690, 43690, c, d, e, f, g, 0]" "c \<le> 32768" "d \<le> 32768" "0 \<le> e" "- 21845 \<le> f" "g \<le> 0"
    using h s b2 b4 b5 b6 by blast
  have "lin (ai_b2 ! 1) (ai_w2 ! 1) h \<le> - 150000"
    using g fp_floor [of "- (32768 * e)"] fp_floor [of "- (32768 * f)"] fp_floor [of "131072 * g"]
    by (simp add: ai_w2_def ai_b2_def)
  moreover have "- 150000 < lin (ai_b2 ! 0) (ai_w2 ! 0) h"
    using g fp_floor [of "- (16384 * c)"] fp_floor [of "- (16384 * d)"] fp_floor [of "32768 * e"]
      fp_floor [of "32768 * f"] fp_floor [of "- (16384 * g)"]
    by (simp add: ai_w2_def ai_b2_def)
  ultimately show ?thesis by (simp add: ai_score_def h_def [symmetric])
qed

section \<open>Properties\<close>

text \<open>
  C17. The machine arithmetic of the policy network is exact: for inputs of magnitude at most 4.0, which covers every
  output of \<open>ai_perceive\<close>, no 32-bit sum, product or quotient of \<open>ai_decide\<close> overflows, and the decision is the first
  action with the greatest score of the network computed over the integers.
\<close>

theorem ai_decide_exact:
  assumes "list_all (\<lambda>v. \<bar>v\<bar> \<le> 2 ^ 18) x"
  shows "\<exists>b<3. ai_decide x = int b \<and> (\<forall>j<3. ai_score x j \<le> ai_score x b) \<and> (\<forall>j<b. ai_score x j < ai_score x b)"
proof -
  let ?o = "map (ai_score x) [0..<3]"
  have "?o \<noteq> []" by simp
  note p = pick_best [OF this]
  have b: "pick_best ?o < 3" using p(1) by simp
  moreover have "ai_score x j \<le> ai_score x (pick_best ?o)" if "j < 3" for j using p(2) [of j] that b by simp
  moreover have "ai_score x j < ai_score x (pick_best ?o)" if "j < pick_best ?o" for j using p(3) [of j] that b by simp
  ultimately show ?thesis using ai_decide_scores [OF assms] by blast
qed

theorem ai_decide_exact_witness:
  "ai_decide [65536, 65536, - 65536] = 2 \<and> ai_score [65536, 65536, - 65536] 0 < ai_score [65536, 65536, - 65536] 2"
proof -
  let ?x = "[65536, 65536, - 65536]"
  obtain b where b: "b < 3" "ai_decide ?x = int b" "\<forall>j<3. ai_score ?x j \<le> ai_score ?x b"
      "\<forall>j<b. ai_score ?x j < ai_score ?x b"
    using ai_decide_exact [of ?x] by auto
  have "ai_score ?x 0 < ai_score ?x 2" "ai_score ?x 1 < ai_score ?x 2" by code_simp+
  moreover have "ai_score ?x 2 \<le> ai_score ?x b" using b(3) by simp
  moreover have "b = 0 \<or> b = 1 \<or> b = 2" using b(1) by linarith
  ultimately show ?thesis using b(2) by auto
qed

text \<open>
  The engine clears its tick counter before it perceives, so the network always sees a rate of -1.0; with it the
  network never decides BOOST, for any heap and page usage.
\<close>

theorem ai_net_never_boosts:
  assumes "heap_used \<le> heap_cap" "pages_free \<le> pages_total"
  shows "ai_decide (ai_perceive 0 heap_used heap_cap pages_free pages_total) \<noteq> AI_ACT_BOOST"
proof -
  define x where "x = ai_perceive 0 heap_used heap_cap pages_free pages_total"
  have "pages_total - pages_free \<le> pages_total" using assms(2) by (rule word_sub_le)
  then have "ai_score x 1 < ai_score x 0"
    using ai_score_slow fp_from_ratio_range [OF assms(1)] fp_from_ratio_range
    by (simp add: x_def ai_perceive_def fp_from_ratio_def [of 0] FP_ONE_def i32_id fp_clamp_def)
  moreover have "list_all (\<lambda>v. \<bar>v\<bar> \<le> 2 ^ 18) x" using ai_perceive_small [OF assms] by (simp add: x_def)
  note ai_decide_scores [OF this]
  moreover have "map (ai_score x) [0..<3] \<noteq> []" by simp
  note pick_best(2) [OF this, of 0]
  ultimately show ?thesis unfolding x_def [symmetric] by auto
qed

theorem ai_net_never_boosts_witness:
  "ai_decide (ai_perceive 0 10 100 10 100) \<noteq> AI_ACT_BOOST"
  by (rule ai_net_never_boosts) simp_all

end
