(* ===== verification/AiLearn.thy ===== *)
theory AiLearn
  imports Uart AiCore
begin

text \<open>
  The Q-learning engine, \<^verbatim>\<open>src/kernel/ai_learn.c\<close>: the Q-table, the replay buffer, the epsilon-greedy choice, the
  batch update and the reward.  The invariant bounds every table entry by 1.0 and keeps every stored experience inside
  the table, so that no index of the update leaves its array and no sum overflows.
\<close>

section \<open>State\<close>

record experience =
  ex_state :: u8
  ex_action :: u8
  ex_reward :: int
  ex_next_state :: u8
  ex_done :: u8

record ai_learn =
  q_table :: "int list list"
  replay :: "experience list"
  replay_count :: u32
  replay_head :: u32
  total_updates :: u32
  total_reward :: u32
  episodes :: u32
  learn_enabled :: bool

definition no_experience :: experience where
  "no_experience = \<lparr>ex_state = 0, ex_action = 0, ex_reward = 0, ex_next_state = 0, ex_done = 0\<rparr>"

section \<open>Operations\<close>

definition learn_prior :: "int list list" where
  "learn_prior =
     (let q0 = replicate 8 [6553, 0, - 3276];
          q1 = foldl (\<lambda>q i. q[i := (q ! i)[2 := 3276]]) q0 [4..<8]
      in foldl (\<lambda>q i. q[i := (q ! i)[1 := 6553]]) q1 [0..<2])"

definition ai_learn_init :: "ai_learn \<Rightarrow> ai_learn \<times> bytes" where
  "ai_learn_init l =
     (l\<lparr>q_table := learn_prior, replay := replicate 32 no_experience, replay_count := 0, replay_head := 0,
        total_updates := 0, total_reward := 0, episodes := 0, learn_enabled := True\<rparr>,
      uart_puts (str ''  AI Learning engine initialized''))"

definition ai_learn_get_state :: "u32 \<Rightarrow> u32 \<Rightarrow> u32 \<Rightarrow> u8" where
  "ai_learn_get_state heap_pct page_pct error_count =
     (let pressure = (heap_pct + page_pct) div 2;
          state0 = pressure * 8 div 100;
          state1 = (if 10 < error_count then 7
                    else if 5 < error_count then (if state0 < 6 then state0 + 2 else state0)
                    else state0)
      in ucast (if 8 \<le> state1 then 7 else state1 :: u32))"

definition fp_rand :: "u32 \<Rightarrow> int" where
  "fp_rand seed = uint (drop_bit 16 (seed * 1103515245 + 12345) AND 0x7FFF)"

definition ai_learn_best_action :: "u8 \<Rightarrow> ai_learn \<Rightarrow> u8" where
  "ai_learn_best_action state l =
     (if 8 \<le> state then 0
      else
        (let row = q_table l ! unat state in
         fst (foldl (\<lambda>(best, best_val) i. if best_val < row ! i then (of_nat i, row ! i) else (best, best_val))
                (0, row ! 0) [1..<3])))"

definition ai_learn_choose_action :: "u8 \<Rightarrow> ai_learn \<Rightarrow> u8" where
  "ai_learn_choose_action state l =
     (let r = fp_rand (total_updates l + replay_count l) in
      if r < 1638 then word_of_int (r mod 3) else ai_learn_best_action state l)"

definition ai_learn_store :: "u8 \<Rightarrow> u8 \<Rightarrow> int \<Rightarrow> u8 \<Rightarrow> ai_learn \<Rightarrow> ai_learn" where
  "ai_learn_store state action reward next_state l =
     l\<lparr>replay := (replay l)[unat (replay_head l) :=
          \<lparr>ex_state = state, ex_action = action, ex_reward = reward, ex_next_state = next_state,
           ex_done = (if 7 \<le> next_state then 1 else 0)\<rparr>],
       replay_count := (if replay_count l < 32 then replay_count l + 1 else replay_count l),
       replay_head := (replay_head l + 1) mod 32,
       total_reward := total_reward l + word_of_int (if 0 < reward then reward else - reward)\<rparr>"

definition q_target :: "int list list \<Rightarrow> experience \<Rightarrow> int" where
  "q_target q e =
     (let row = q ! unat (ex_next_state e);
          max_next = foldl (\<lambda>m j. if m < row ! j then row ! j else m) (row ! 0) [1..<3]
      in i32 (ex_reward e + fp_mul 52428 max_next))"

definition learn_step :: "experience \<Rightarrow> int list list \<Rightarrow> int list list" where
  "learn_step e q =
     (let s = unat (ex_state e); a = unat (ex_action e);
          current_q = q ! s ! a;
          delta = i32 (q_target q e - current_q);
          update = fp_mul 1638 delta;
          v0 = i32 (current_q + update);
          v1 = (if 65536 < v0 then 65536 else v0);
          v2 = (if v1 < - 65536 then - 65536 else v1)
      in q[s := (q ! s)[a := v2]])"

definition ai_learn_update :: "ai_learn \<Rightarrow> ai_learn" where
  "ai_learn_update l =
     (if \<not> learn_enabled l \<or> replay_count l < 4 then l
      else
        (let samples = (if replay_count l < 8 then replay_count l else 8);
             q = foldl (\<lambda>q i. learn_step (replay l ! unat ((total_updates l + of_nat i) mod replay_count l)) q)
                   (q_table l) [0..<unat samples]
         in l\<lparr>q_table := q, total_updates := total_updates l + samples, episodes := episodes l + 1\<rparr>))"

text \<open>The statement \<^verbatim>\<open>if (c) reward += k;\<close> on the \<^verbatim>\<open>int16_t\<close> accumulator.\<close>

definition reward_add :: "bool \<Rightarrow> int \<Rightarrow> int \<Rightarrow> int" where
  "reward_add c k r = (if c then i16 (r + k) else r)"

definition ai_learn_calculate_reward :: "u32 \<Rightarrow> u32 \<Rightarrow> u32 \<Rightarrow> u32 \<Rightarrow> int" where
  "ai_learn_calculate_reward heap_pct page_pct errors inferences =
     (let r = 0;
          r = reward_add (0 < inferences) 10 r;
          r = reward_add (heap_pct < 50) 5 r;
          r = reward_add (page_pct < 50) 5 r;
          r = reward_add (0 < errors) (- i16 (uint (errors * 20))) r;
          r = reward_add (80 < heap_pct) (- 15) r;
          r = reward_add (80 < page_pct) (- 15) r
      in reward_add (95 < heap_pct) (- 50) r)"

definition ai_learn_set_enabled :: "int \<Rightarrow> ai_learn \<Rightarrow> ai_learn" where
  "ai_learn_set_enabled e l = l\<lparr>learn_enabled := (e \<noteq> 0)\<rparr>"

definition ai_learn_get_updates :: "ai_learn \<Rightarrow> u32" where
  "ai_learn_get_updates l = total_updates l"

definition ai_learn_get_reward :: "ai_learn \<Rightarrow> u32" where
  "ai_learn_get_reward l = total_reward l"

definition ai_learn_get_episodes :: "ai_learn \<Rightarrow> u32" where
  "ai_learn_get_episodes l = episodes l"

definition ai_learn_get_q_value :: "u8 \<Rightarrow> u8 \<Rightarrow> ai_learn \<Rightarrow> int" where
  "ai_learn_get_q_value state action l =
     (if 8 \<le> state \<or> 3 \<le> action then 0 else q_table l ! unat state ! unat action)"

definition learn_report_line :: "ai_learn \<Rightarrow> nat \<Rightarrow> bytes" where
  "learn_report_line l i =
     (let best = ai_learn_best_action (of_nat i) l in
      uart_puts_nolf (str ''    State '') @ uart_dec (of_nat i) @ uart_puts_nolf (str '': '')
      @ uart_puts_nolf (if best = 0 then str ''SUSTAIN'' else if best = 1 then str ''BOOST'' else str ''REST'')
      @ uart_puts_nolf (str '' (Q='') @ uart_dec (word_of_int (q_table l ! i ! unat best)) @ uart_puts (str '')''))"

definition ai_learn_report :: "ai_learn \<Rightarrow> bytes" where
  "ai_learn_report l =
     uart_puts (str ''=== AI Learning Report ==='')
     @ uart_puts_nolf (str ''  Updates: '') @ uart_dec (ucast (total_updates l))
     @ uart_puts_nolf (str ''  Episodes: '') @ uart_dec (ucast (episodes l)) @ uart_puts []
     @ uart_puts_nolf (str ''  Total Reward: '') @ uart_dec (ucast (total_reward l))
     @ uart_puts_nolf (str ''  Replay Buffer: '') @ uart_dec (ucast (replay_count l))
     @ uart_puts_nolf (str ''/'') @ uart_dec 32 @ uart_puts []
     @ uart_puts_nolf (str ''  Enabled: '') @ uart_puts (if learn_enabled l then str ''yes'' else str ''no'')
     @ uart_puts (str ''  Q-table (best actions per state):'')
     @ concat (map (learn_report_line l) [0..<8])"

section \<open>Invariant\<close>

definition q_ok :: "int list list \<Rightarrow> bool" where
  "q_ok q \<longleftrightarrow> length q = 8 \<and> list_all (\<lambda>row. length row = 3 \<and> list_all (\<lambda>v. \<bar>v\<bar> \<le> 65536) row) q"

definition ex_ok :: "experience \<Rightarrow> bool" where
  "ex_ok e \<longleftrightarrow> ex_state e < 8 \<and> ex_action e < 3 \<and> ex_next_state e < 8 \<and> \<bar>ex_reward e\<bar> \<le> 32768"

definition learn_inv :: "ai_learn \<Rightarrow> bool" where
  "learn_inv l \<longleftrightarrow> q_ok (q_table l) \<and> length (replay l) = 32 \<and> list_all ex_ok (replay l)
     \<and> replay_count l \<le> 32 \<and> replay_head l < 32"

lemma q_okD:
  assumes "q_ok q" "s < 8" "a < 3"
  shows "\<bar>q ! s ! a\<bar> \<le> 65536" "length (q ! s) = 3"
  using assms by (auto simp: q_ok_def list_all_length)

lemma upt_1_3: "[Suc 0..<3] = [1, 2]"
  by code_simp

lemma row_max:
  fixes row :: "int list"
  assumes "length row = 3"
  shows "foldl (\<lambda>m j. if m < row ! j then row ! j else m) (row ! 0) [1..<3] = Max (set row)"
proof -
  obtain a b c where "row = [a, b, c]" using assms by (auto simp: length_Suc_conv numeral_3_eq_3)
  then show ?thesis by (auto simp: upt_1_3 max_def)
qed

text \<open>One step of the update over the integers: the clamped temporal-difference rule.\<close>

definition td_value :: "int list list \<Rightarrow> experience \<Rightarrow> int" where
  "td_value q e =
     (let v = q ! unat (ex_state e) ! unat (ex_action e);
          target = ex_reward e + 52428 * Max (set (q ! unat (ex_next_state e))) div 65536
      in max (- 65536) (min 65536 (v + 1638 * (target - v) div 65536)))"

lemma row_Max_bound: "q_ok q \<Longrightarrow> s < 8 \<Longrightarrow> \<bar>Max (set (q ! s))\<bar> \<le> 65536"
proof -
  assume "q_ok q" "s < 8"
  then have "length (q ! s) = 3" "list_all (\<lambda>v. \<bar>v\<bar> \<le> 65536) (q ! s)" by (auto simp: q_ok_def list_all_length)
  moreover from this have "Max (set (q ! s)) \<in> set (q ! s)" by (intro Max_in) auto
  ultimately show ?thesis by (simp add: list_all_iff)
qed

lemma learn_step_exact:
  assumes "q_ok q" "ex_ok e"
  shows "learn_step e q = q[unat (ex_state e) := (q ! unat (ex_state e))[unat (ex_action e) := td_value q e]]"
proof -
  have e: "unat (ex_state e) < 8" "unat (ex_action e) < 3" "unat (ex_next_state e) < 8" "\<bar>ex_reward e\<bar> \<le> 32768"
    using assms(2) by (simp_all add: ex_ok_def word_less_nat_alt)
  define m where "m = Max (set (q ! unat (ex_next_state e)))"
  define v where "v = q ! unat (ex_state e) ! unat (ex_action e)"
  define t where "t = ex_reward e + 52428 * m div 65536"
  have b: "\<bar>m\<bar> \<le> 65536" "\<bar>v\<bar> \<le> 65536"
    using row_Max_bound [OF assms(1) e(3)] q_okD [OF assms(1) e(1,2)] by (simp_all add: m_def v_def)
  have t: "\<bar>t\<bar> \<le> 98304" using fp_floor [of "52428 * m"] b(1) e(4) by (simp add: t_def abs_le_iff)
  have "fp_mul 52428 m = 52428 * m div 65536"
    using b(1) fp_floor [of "52428 * m"] by (simp add: fp_mul_def i32_id abs_le_iff)
  then have "q_target q e = i32 t"
    using row_max [OF q_okD(2) [OF assms(1) e(3), of 0]] by (simp only: q_target_def m_def [symmetric] t_def Let_def)
  then have "q_target q e = t" using t by (simp add: i32_id abs_le_iff)
  moreover have "i32 (t - v) = t - v" using t b(2) by (simp add: i32_id abs_le_iff)
  moreover have "fp_mul 1638 (t - v) = 1638 * (t - v) div 65536" "i32 (v + 1638 * (t - v) div 65536) = v + 1638 * (t - v) div 65536"
    using fp_floor [of "1638 * (t - v)"] t b(2) by (simp_all add: fp_mul_def i32_id abs_le_iff)
  moreover have "td_value q e = max (- 65536) (min 65536 (v + 1638 * (t - v) div 65536))"
    by (simp only: td_value_def v_def t_def m_def Let_def)
  ultimately show ?thesis
    by (simp add: learn_step_def v_def [symmetric] Let_def max_def min_def i32_id)
qed

lemma q_ok_update:
  assumes "q_ok q" "s < 8" "\<bar>v\<bar> \<le> 65536"
  shows "q_ok (q[s := (q ! s)[a := v]])"
proof -
  have "length (q ! s) = 3" "list_all (\<lambda>v. \<bar>v\<bar> \<le> 65536) (q ! s)"
    using assms(1,2) by (auto simp: q_ok_def list_all_length)
  then show ?thesis using assms by (simp add: q_ok_def list_all_update)
qed

lemma learn_step_ok: "q_ok q \<Longrightarrow> ex_ok e \<Longrightarrow> q_ok (learn_step e q)"
  unfolding learn_step_exact
  by (intro q_ok_update) (auto simp: ex_ok_def word_less_nat_alt td_value_def Let_def)

lemma learn_init_inv: "learn_inv (fst (ai_learn_init l))"
proof -
  have "q_ok learn_prior" by code_simp
  then show ?thesis by (simp add: learn_inv_def ai_learn_init_def list_all_iff no_experience_def ex_ok_def)
qed

lemma learn_store_inv:
  assumes "learn_inv l" "s < 8" "a < 3" "n < 8" "\<bar>r\<bar> \<le> 32768"
  shows "learn_inv (ai_learn_store s a r n l)"
proof -
  have "replay_count l < 32 \<longrightarrow> replay_count l + 1 \<le> 32" by (simp add: inc_le)
  moreover have "(replay_head l + 1) mod 32 < 32" by (simp add: word_mod_less_divisor)
  ultimately show ?thesis
    using assms by (simp add: learn_inv_def ai_learn_store_def list_all_update ex_ok_def)
qed

lemma samples_index:
  assumes "learn_inv l" "\<not> replay_count l < 4"
  shows "unat (w mod replay_count l) < length (replay l)"
proof -
  have "replay_count l \<noteq> 0" using assms(2) by (cases "replay_count l = 0") simp_all
  then have "0 < replay_count l" by (simp add: word_gt_0)
  then have "w mod replay_count l < replay_count l" by (rule word_mod_less_divisor)
  also have "\<dots> \<le> 32" using assms(1) by (simp add: learn_inv_def)
  finally show ?thesis using assms(1) by (simp add: learn_inv_def word_less_nat_alt)
qed

lemma learn_fold_ok:
  "learn_inv l \<Longrightarrow> \<not> replay_count l < 4 \<Longrightarrow> q_ok q \<Longrightarrow>
     q_ok (foldl (\<lambda>q i. learn_step (replay l ! unat ((total_updates l + of_nat i) mod replay_count l)) q) q is)"
proof (induction "is" arbitrary: q)
  case (Cons i "is")
  have "ex_ok (replay l ! unat ((total_updates l + of_nat i) mod replay_count l))"
    using Cons.prems samples_index [OF Cons.prems(1,2)] by (auto simp: learn_inv_def list_all_length)
  then show ?case using Cons by (simp add: learn_step_ok)
qed simp

lemma learn_update_inv: "learn_inv l \<Longrightarrow> learn_inv (ai_learn_update l)"
  using learn_fold_ok [of l "q_table l"] by (auto simp: ai_learn_update_def Let_def learn_inv_def)

lemma ai_learn_get_state_range: "ai_learn_get_state h p e < 8"
proof -
  have *: "(ucast (if 8 \<le> w then 7 else w) :: u8) < 8" for w :: u32
    by (cases "8 \<le> w") (simp_all add: word_le_nat_alt word_less_nat_alt unsigned_ucast_eq take_bit_nat_eq_self)
  show ?thesis unfolding ai_learn_get_state_def Let_def by (rule *)
qed

lemma ai_learn_best_range: "ai_learn_best_action s l < 3"
  by (simp add: ai_learn_best_action_def Let_def upt_1_3)

lemma ai_learn_choose_range: "ai_learn_choose_action s l < 3"
proof -
  have "(word_of_int (r mod 3) :: u8) < 3" for r :: int
    using pos_mod_bound [of 3 r] pos_mod_sign [of 3 r] by (simp add: word_less_def uint_word_of_int)
  then show ?thesis by (simp add: ai_learn_choose_action_def Let_def ai_learn_best_range)
qed

lemma reward_add_range: "\<bar>r\<bar> \<le> 32768 \<Longrightarrow> \<bar>reward_add c k r\<bar> \<le> 32768"
  using i16_range [of "r + k"] by (simp add: reward_add_def abs_le_iff)

lemma reward_add_exact:
  "- 32768 \<le> r + k \<Longrightarrow> r + k < 32768 \<Longrightarrow> reward_add c k r = r + (if c then k else 0)"
  by (simp add: reward_add_def i16_id)

lemma ai_learn_reward_range: "\<bar>ai_learn_calculate_reward h p e i\<bar> \<le> 32768"
  unfolding ai_learn_calculate_reward_def Let_def by (intro reward_add_range) simp

section \<open>Properties\<close>

definition learn_batch :: "ai_learn \<Rightarrow> experience list" where
  "learn_batch l = map (\<lambda>i. replay l ! unat ((total_updates l + of_nat i) mod replay_count l)) [0..<min 8 (unat (replay_count l))]"

definition td_apply :: "int list list \<Rightarrow> experience \<Rightarrow> int list list" where
  "td_apply q e = q[unat (ex_state e) := (q ! unat (ex_state e))[unat (ex_action e) := td_value q e]]"

lemma td_fold:
  "q_ok q \<Longrightarrow> list_all ex_ok es \<Longrightarrow> foldl (\<lambda>q e. learn_step e q) q es = foldl td_apply q es"
proof (induction es arbitrary: q)
  case (Cons e es)
  then show ?case
    using learn_step_exact [of q e] learn_step_ok [of q e] by (simp add: td_apply_def)
qed simp

lemma learn_batch_ok:
  assumes "learn_inv l" "\<not> replay_count l < 4"
  shows "list_all ex_ok (learn_batch l)"
  using assms(1) samples_index [OF assms] by (auto simp: learn_batch_def learn_inv_def list_all_iff)

lemma learn_update_batch:
  assumes "learn_enabled l" "\<not> replay_count l < 4"
  shows "q_table (ai_learn_update l) = foldl (\<lambda>q e. learn_step e q) (q_table l) (learn_batch l)"
proof -
  have "unat (if replay_count l < 8 then replay_count l else 8) = min 8 (unat (replay_count l))"
    by (simp add: word_less_nat_alt)
  then show ?thesis
    using assms by (simp add: ai_learn_update_def learn_batch_def Let_def foldl_map)
qed

text \<open>
  C23. The batch update of the Q-table is the temporal-difference rule with learning rate 1638/65536 and discount
  52428/65536: on a well-formed engine with at least four experiences, the table after \<open>ai_learn_update\<close> is the one
  obtained by applying the rule over the integers, clamped to 1.0, to each of the next (at most eight) experiences of
  the replay buffer in turn, and the engine stays well-formed.  The experiences are consecutive ones, where the comment in
  the code announces a random sample.
\<close>

theorem ai_learn_update_td:
  assumes "learn_inv l" "learn_enabled l" "4 \<le> replay_count l"
  shows "q_table (ai_learn_update l) = foldl td_apply (q_table l) (learn_batch l)
    \<and> length (learn_batch l) = min 8 (unat (replay_count l)) \<and> learn_inv (ai_learn_update l)"
proof -
  have c: "\<not> replay_count l < 4" using assms(3) by simp
  have "q_ok (q_table l)" using assms(1) by (simp add: learn_inv_def)
  from td_fold [OF this learn_batch_ok [OF assms(1) c]] learn_update_batch [OF assms(2) c] show ?thesis
    using learn_update_inv [OF assms(1)] by (simp add: learn_batch_def)
qed

definition learn_example :: ai_learn where
  "learn_example =
     \<lparr>q_table = learn_prior, replay = replicate 32 \<lparr>ex_state = 1, ex_action = 1, ex_reward = 20, ex_next_state = 1, ex_done = 0\<rparr>,
      replay_count = 4, replay_head = 4, total_updates = 0, total_reward = 0, episodes = 0, learn_enabled = True\<rparr>"

theorem ai_learn_update_td_witness:
  "q_table (ai_learn_update learn_example) = foldl td_apply learn_prior (learn_batch learn_example)
   \<and> foldl td_apply learn_prior (learn_batch learn_example) ! 1 = [6553, 6427, - 3276]"
proof -
  have "learn_inv learn_example" "learn_enabled learn_example" "4 \<le> replay_count learn_example" by code_simp+
  from ai_learn_update_td [OF this] have "q_table (ai_learn_update learn_example) = foldl td_apply learn_prior (learn_batch learn_example)"
    by (simp add: learn_example_def)
  moreover have "foldl td_apply learn_prior (learn_batch learn_example) ! 1 = [6553, 6427, - 3276]" by code_simp
  ultimately show ?thesis by blast
qed

text \<open>
  The prior of the Q-table decides SUSTAIN in every state: the entries that the comments describe as a preference
  for BOOST under low pressure and REST under high pressure do not exceed the one of SUSTAIN.
\<close>

theorem ai_learn_prior_sustains:
  "ai_learn_best_action state (fst (ai_learn_init l)) = 0"
proof (cases "8 \<le> state")
  case False
  then have "unat state < 8" by (simp add: word_le_nat_alt)
  moreover have "\<forall>i<8. learn_prior ! i ! 1 \<le> learn_prior ! i ! 0 \<and> learn_prior ! i ! 2 \<le> learn_prior ! i ! 0" by code_simp
  ultimately show ?thesis
    using False by (simp add: ai_learn_best_action_def ai_learn_init_def Let_def upt_1_3 not_less)
qed (simp add: ai_learn_best_action_def)

text \<open>
  The reward is the sum the code describes as long as there are at most 1600 errors; the 16-bit product
  \<open>errors * 20\<close> then wraps, and 1640 errors are rewarded with 32756.
\<close>

theorem ai_reward_wraps:
  "(errors \<le> 1600 \<longrightarrow> ai_learn_calculate_reward heap_pct page_pct errors inferences =
      (if 0 < inferences then 10 else 0) + (if heap_pct < 50 then 5 else 0) + (if page_pct < 50 then 5 else 0)
      - 20 * uint errors - (if 80 < heap_pct then 15 else 0) - (if 80 < page_pct then 15 else 0)
      - (if 95 < heap_pct then 50 else 0))
   \<and> ai_learn_calculate_reward 10 10 1640 1 = 32756"
proof (intro conjI impI)
  assume e: "errors \<le> 1600"
  then have u: "unat (errors * 20) = unat errors * 20" by (simp add: unat_word_ariths word_le_nat_alt)
  from arg_cong [OF this, of int] have e20: "uint (errors * 20) = 20 * uint errors" by simp
  have b: "uint errors \<le> 1600" "0 \<le> uint errors" using e by (simp_all add: word_le_def)
  have z: "(if 0 < errors then - (20 * uint errors) else 0) = - (20 * uint errors)"
    by (cases "errors = 0") (simp_all add: word_gt_0)
  define f where "f c k = (if c then k else 0)" for c and k :: int
  have i: "i16 (uint (errors * 20)) = 20 * uint errors" unfolding e20 using b by (intro i16_id) linarith+
  have add: "reward_add c k r = r + f c k" if "- 32768 \<le> r + k" "r + k < 32768" for c k r
    using reward_add_exact [OF that] by (simp add: f_def)
  have f: "0 \<le> f c 10" "f c 10 \<le> 10" "0 \<le> f c 5" "f c 5 \<le> 5" "- 15 \<le> f c (- 15)" "f c (- 15) \<le> 0" for c
    by (simp_all add: f_def)
  obtain n where n: "uint errors = n" "0 \<le> n" "n \<le> 1600" using b by blast
  have fz: "f (0 < errors) (- (20 * n)) = - (20 * n)" unfolding f_def n(1) [symmetric] by (rule z)
  have "ai_learn_calculate_reward heap_pct page_pct errors inferences =
      f (0 < inferences) 10 + f (heap_pct < 50) 5 + f (page_pct < 50) 5 + f (0 < errors) (- (20 * uint errors))
      + f (80 < heap_pct) (- 15) + f (80 < page_pct) (- 15) + f (95 < heap_pct) (- 50)"
    unfolding ai_learn_calculate_reward_def Let_def i n
    using n(2,3) fz f [of "0 < inferences"] f [of "heap_pct < 50"] f [of "page_pct < 50"] f [of "80 < heap_pct"] f [of "80 < page_pct"]
    by (simp add: add)
  then show "ai_learn_calculate_reward heap_pct page_pct errors inferences =
      (if 0 < inferences then 10 else 0) + (if heap_pct < 50 then 5 else 0) + (if page_pct < 50 then 5 else 0)
      - 20 * uint errors - (if 80 < heap_pct then 15 else 0) - (if 80 < page_pct then 15 else 0)
      - (if 95 < heap_pct then 50 else 0)"
    by (simp only: f_def z) simp
next
  show "ai_learn_calculate_reward 10 10 1640 1 = 32756" by code_simp
qed

theorem ai_reward_wraps_witness:
  "ai_learn_calculate_reward 10 10 3 1 = - 40 \<and> ai_learn_calculate_reward 10 10 1640 1 = 32756"
  using ai_reward_wraps [of 3 10 10 1] by simp

end
