(* ===== verification/Irq.thy ===== *)
theory Irq
  imports Uart
begin

text \<open>
  Interrupts on the AArch64 port: the GICv2 driver (\<^verbatim>\<open>src/boot/aarch64/gic.c\<close>), the generic timer
  (\<^verbatim>\<open>src/boot/aarch64/timer.c\<close>), and the dispatch with its registry of tick tasks and the fault reports
  (\<^verbatim>\<open>src/boot/aarch64/irq.c\<close>).  A write to a device register is a pair of an address and a value; a function pointer
  is a value of the type \<open>kernel_fn\<close> of the functions the kernel registers.  The rest of the kernel is the type
  parameter of \<open>machine\<close>.
\<close>

section \<open>State\<close>

datatype kernel_fn = Sched_on_tick | Ai_on_tick | Test_timer_callback

record timer =
  timer_ticks :: u64
  timer_callback :: "kernel_fn option"
  timer_hz :: u32
  cntfrq :: u64
  cntv_tval :: u64
  cntv_ctl :: u64

record 'k machine =
  tmr :: timer
  tick_tasks :: "kernel_fn list"
  regs_out :: "(u64 \<times> u32) list"
  con :: bytes
  sub :: 'k

abbreviation (input) TIMER_FREQ :: u64 where "TIMER_FREQ \<equiv> 62500000"
abbreviation (input) TICK_PER_SEC :: u32 where "TICK_PER_SEC \<equiv> 100"
abbreviation (input) MAX_TICK_TASKS :: nat where "MAX_TICK_TASKS \<equiv> 4"

definition say :: "bytes \<Rightarrow> 'k machine \<Rightarrow> 'k machine" where
  "say b m = m\<lparr>con := con m @ b\<rparr>"

definition wr_reg :: "u64 \<Rightarrow> u32 \<Rightarrow> 'k machine \<Rightarrow> 'k machine" where
  "wr_reg a v m = m\<lparr>regs_out := regs_out m @ [(a, v)]\<rparr>"

section \<open>GIC\<close>

definition gicd_reg :: "u64 \<Rightarrow> nat \<Rightarrow> u64" where
  "gicd_reg off n = 0x08000000 + off + of_nat n * 4"

definition gic_init :: "'k machine \<Rightarrow> 'k machine" where
  "gic_init m =
     (let m = wr_reg (gicd_reg 0 0) 0 m;
          m = wr_reg 0x08010000 0 m;
          m = foldl (\<lambda>m i. wr_reg (gicd_reg 0x180 i) 0xFFFFFFFF m) m [0..<2];
          m = foldl (\<lambda>m i. wr_reg (gicd_reg 0x080 i) 0 m) m [0..<2];
          m = foldl (\<lambda>m i. wr_reg (gicd_reg 0xC00 i) 0 m) m [0..<4];
          m = foldl (\<lambda>m i. wr_reg (gicd_reg 0x400 i) 0xA0A0A0A0 m) m [0..<16];
          m = foldl (\<lambda>m i. wr_reg (gicd_reg 0x800 i) 0x01010101 m) m [2..<16];
          m = wr_reg (gicd_reg 0 0) 1 m;
          m = wr_reg 0x08010004 0xFF m
      in wr_reg 0x08010000 1 m)"

definition gic_enable_irq :: "int \<Rightarrow> 'k machine \<Rightarrow> 'k machine" where
  "gic_enable_irq irq m =
     (if irq < 0 \<or> 64 \<le> irq then m
      else wr_reg (gicd_reg 0x100 (nat irq div 32)) (push_bit (nat irq mod 32) 1) m)"

definition gic_acknowledge_irq :: "u32 \<Rightarrow> int" where
  "gic_acknowledge_irq iar = uint (iar AND 0x3FF)"

definition gic_end_of_interrupt :: "int \<Rightarrow> 'k machine \<Rightarrow> 'k machine" where
  "gic_end_of_interrupt irq m = wr_reg 0x08010010 (word_of_int irq) m"

section \<open>Timer\<close>

definition timer_arm :: "u32 \<Rightarrow> timer \<Rightarrow> timer" where
  "timer_arm hz t =
     (let freq = (if cntfrq t = 0 then TIMER_FREQ else cntfrq t);
          hz = (if hz = 0 then TICK_PER_SEC else hz)
      in t\<lparr>cntv_tval := freq div ucast hz, cntv_ctl := 1\<rparr>)"

definition timer_init :: "timer \<Rightarrow> timer" where
  "timer_init t = timer_arm TICK_PER_SEC t"

definition timer_set_hz :: "u32 \<Rightarrow> timer \<Rightarrow> timer" where
  "timer_set_hz hz t =
     (let hz = (if hz < 10 then 10 else hz);
          hz = (if 500 < hz then 500 else hz)
      in timer_arm hz (t\<lparr>timer_hz := hz\<rparr>))"

text \<open>The handler and the callback it calls, if one is set.\<close>

definition timer_handler :: "timer \<Rightarrow> timer \<times> kernel_fn option" where
  "timer_handler t =
     (let t = t\<lparr>timer_ticks := timer_ticks t + 1\<rparr>;
          t = timer_arm (timer_hz t) t
      in (t, timer_callback t))"

definition timer_get_ticks :: "timer \<Rightarrow> u64" where
  "timer_get_ticks t = timer_ticks t"

definition timer_get_ms :: "timer \<Rightarrow> u64" where
  "timer_get_ms t = timer_ticks t * (1000 div 100)"

definition timer_get_hz :: "timer \<Rightarrow> u32" where
  "timer_get_hz t = timer_hz t"

definition timer_set_callback :: "kernel_fn option \<Rightarrow> timer \<Rightarrow> timer" where
  "timer_set_callback cb t = t\<lparr>timer_callback := cb\<rparr>"

section \<open>Tick tasks and dispatch\<close>

definition tick_subscribe :: "kernel_fn option \<Rightarrow> 'k machine \<Rightarrow> int \<times> 'k machine" where
  "tick_subscribe fn m =
     (case fn of None \<Rightarrow> (-1, m)
      | Some f \<Rightarrow>
          if MAX_TICK_TASKS \<le> length (tick_tasks m) then (-1, m)
          else (0, m\<lparr>tick_tasks := tick_tasks m @ [f]\<rparr>))"

definition tick_dispatch :: "(kernel_fn \<Rightarrow> 'k machine \<Rightarrow> 'k machine) \<Rightarrow> 'k machine \<Rightarrow> 'k machine" where
  "tick_dispatch run m =
     foldl (\<lambda>m i. if i < length (tick_tasks m) then run (tick_tasks m ! i) m else m) m [0..<MAX_TICK_TASKS]"

definition irq_handler_c :: "(kernel_fn \<Rightarrow> 'k machine \<Rightarrow> 'k machine) \<Rightarrow> u32 \<Rightarrow> 'k machine \<Rightarrow> 'k machine" where
  "irq_handler_c run iar m =
     (let irq = gic_acknowledge_irq iar in
      if irq = 1023 then m
      else
        (let m1 = (if irq = 30 then
                     (case timer_handler (tmr m) of (t, cb) \<Rightarrow>
                        (let m = m\<lparr>tmr := t\<rparr>;
                             m = (case cb of None \<Rightarrow> m | Some f \<Rightarrow> run f m)
                         in tick_dispatch run m))
                   else m)
         in gic_end_of_interrupt irq m1))"

definition irq_init :: "'k machine \<Rightarrow> 'k machine" where
  "irq_init m =
     (let m = gic_init m;
          m = gic_enable_irq 30 m
      in m\<lparr>tmr := timer_init (tmr m)\<rparr>)"

section \<open>Faults\<close>

text \<open>A handler either resumes the interrupted program or prints its report and halts.\<close>

datatype 'k outcome = Resume "'k machine" | Halted "'k machine"

definition fault_halt :: "bytes \<Rightarrow> u64 \<Rightarrow> u64 \<Rightarrow> u64 \<Rightarrow> 'k machine \<Rightarrow> 'k outcome" where
  "fault_halt kind esr far elr m =
     Halted (say (uart_puts [] @ uart_puts (str ''*** KERNEL FAULT ***'')
       @ uart_puts_nolf (str ''  Class: '') @ uart_puts kind
       @ uart_puts_nolf (str ''  ESR_EL1: '') @ uart_hex esr @ uart_puts []
       @ uart_puts_nolf (str ''  FAR_EL1: '') @ uart_hex far @ uart_puts []
       @ uart_puts_nolf (str ''  ELR_EL1: '') @ uart_hex elr @ uart_puts []
       @ uart_puts (str ''System halted.'')) m)"

definition sync_handler_c :: "u64 \<Rightarrow> u64 \<Rightarrow> u64 \<Rightarrow> 'k machine \<Rightarrow> 'k outcome" where
  "sync_handler_c esr far elr m = fault_halt (str ''Synchronous exception'') esr far elr m"

definition sync_lower_handler_c ::
    "('k machine \<Rightarrow> 'k machine) \<Rightarrow> u64 \<Rightarrow> u32 \<Rightarrow> bytes \<Rightarrow> 'k machine \<Rightarrow> 'k outcome" where
  "sync_lower_handler_c syscall_dispatch esr index name m =
     (let ec = drop_bit 26 esr AND 0x3F in
      if ec = 0x15 then Resume (syscall_dispatch m)
      else
        fault_halt (str ''User-mode synchronous exception'') esr 0 0
          (say (uart_puts_nolf (str ''[fault] task idx='') @ uart_dec (ucast index)
             @ uart_puts_nolf (str '' name='' @ [39]) @ uart_puts_nolf name @ uart_puts [39]) m))"

definition fiq_handler_c :: "'k machine \<Rightarrow> 'k outcome" where
  "fiq_handler_c m = Resume m"

definition serror_handler_c :: "u64 \<Rightarrow> 'k machine \<Rightarrow> 'k outcome" where
  "serror_handler_c esr m = fault_halt (str ''System Error (SError)'') esr 0 0 m"

section \<open>Facts\<close>

lemma timer_set_hz_range: "10 \<le> timer_hz (timer_set_hz hz t) \<and> timer_hz (timer_set_hz hz t) \<le> 500"
  by (auto simp: timer_set_hz_def timer_arm_def Let_def not_less)

lemma timer_set_hz_ticks [simp]: "timer_ticks (timer_set_hz hz t) = timer_ticks t"
  by (simp add: timer_set_hz_def timer_arm_def Let_def)

lemma timer_handler_hz [simp]: "timer_hz (fst (timer_handler t)) = timer_hz t"
  by (simp add: timer_handler_def timer_arm_def Let_def)

lemma timer_set_hz_id: "10 \<le> hz \<Longrightarrow> hz \<le> 500 \<Longrightarrow> timer_hz (timer_set_hz hz t) = hz"
  by (auto simp: timer_set_hz_def timer_arm_def Let_def)

lemma tick_subscribe_bound:
  "length (tick_tasks m) \<le> MAX_TICK_TASKS \<Longrightarrow> length (tick_tasks (snd (tick_subscribe f m))) \<le> MAX_TICK_TASKS"
  by (auto simp: tick_subscribe_def split: option.splits)

text \<open>When no task changes the registry, the dispatch runs every registered task once, in registration order.\<close>

lemma dispatch_prefix:
  assumes "\<And>f m. tick_tasks (run f m) = tick_tasks m"
  shows "foldl (\<lambda>m i. if i < length (tick_tasks m) then run (tick_tasks m ! i) m else m) m [0..<n]
      = foldl (\<lambda>m f. run f m) m (take n (tick_tasks m))
    \<and> tick_tasks (foldl (\<lambda>m f. run f m) m (take n (tick_tasks m))) = tick_tasks m"
proof -
  have keep: "tick_tasks (foldl (\<lambda>m f. run f m) m fs) = tick_tasks m" for fs m
    by (induction fs arbitrary: m) (simp_all add: assms)
  have "foldl (\<lambda>m i. if i < length (tick_tasks m) then run (tick_tasks m ! i) m else m) m [0..<n]
      = foldl (\<lambda>m f. run f m) m (take n (tick_tasks m))"
    by (induction n) (simp_all add: keep take_Suc_conv_app_nth)
  with keep show ?thesis by blast
qed

lemma tick_dispatch_all:
  assumes "\<And>f m. tick_tasks (run f m) = tick_tasks m" "length (tick_tasks m) \<le> MAX_TICK_TASKS"
  shows "tick_dispatch run m = foldl (\<lambda>m f. run f m) m (tick_tasks m)"
  using dispatch_prefix [of run m MAX_TICK_TASKS, OF assms(1)] assms(2) by (simp add: tick_dispatch_def)

end
