(* ===== verification/AiState.thy ===== *)
theory AiState
  imports Prelude
begin

text \<open>
  The state of the AI engine, the fail-safe latch, the accessors and the ring of decisions of
  \<^verbatim>\<open>src/kernel/ai_api.c\<close>.  The ring is an instance of the overwriting history of the prelude.
\<close>

section \<open>State\<close>

record ai_hist_entry =
  ah_tick :: u32
  ah_action :: u8

record ai_state =
  ai_magic :: u32
  ticks_total :: u32
  ticks_since_infer :: u32
  inferences :: u32
  errors :: u32
  ai_hz :: u32
  ai_action :: u8
  ai_disabled :: bool
  ai_verbose :: bool
  in_tick :: bool
  ai_hist :: "ai_hist_entry list"
  ai_hist_count :: u32

abbreviation (input) AI_MAGIC :: u32 where "AI_MAGIC \<equiv> 0x41493130"

section \<open>Fail-safe and accessors\<close>

definition ai_healthy :: "ai_state \<Rightarrow> bool \<times> ai_state" where
  "ai_healthy a =
     (if ai_magic a \<noteq> AI_MAGIC \<or> ai_disabled a
      then (False, (if ai_magic a = AI_MAGIC then a\<lparr>errors := errors a + 1\<rparr> else a)\<lparr>ai_disabled := True\<rparr>)
      else (True, a))"

definition ai_set_verbose :: "int \<Rightarrow> ai_state \<Rightarrow> ai_state" where
  "ai_set_verbose e a = a\<lparr>ai_verbose := (e \<noteq> 0)\<rparr>"

definition ai_inference_count :: "ai_state \<Rightarrow> u32" where
  "ai_inference_count a = inferences a"

definition ai_error_count :: "ai_state \<Rightarrow> u32" where
  "ai_error_count a = errors a"

definition ai_last_action :: "ai_state \<Rightarrow> int" where
  "ai_last_action a = uint (ai_action a)"

definition ai_current_hz :: "ai_state \<Rightarrow> u32" where
  "ai_current_hz a = ai_hz a"

definition ai_is_healthy :: "ai_state \<Rightarrow> bool" where
  "ai_is_healthy a \<longleftrightarrow> ai_magic a = AI_MAGIC \<and> \<not> ai_disabled a"

definition ai_disable :: "ai_state \<Rightarrow> ai_state" where
  "ai_disable a = a\<lparr>ai_disabled := True\<rparr>"

definition ai_enable :: "ai_state \<Rightarrow> ai_state" where
  "ai_enable a = a\<lparr>ai_disabled := False, ai_magic := AI_MAGIC\<rparr>"

section \<open>History\<close>

definition ai_hist_push :: "ai_hist_entry \<Rightarrow> ai_state \<Rightarrow> ai_state" where
  "ai_hist_push e a =
     a\<lparr>ai_hist := (ai_hist a)[unat (ai_hist_count a mod 16) := e], ai_hist_count := ai_hist_count a + 1\<rparr>"

definition ai_history_count :: "ai_state \<Rightarrow> int" where
  "ai_history_count a = (if ai_hist_count a < 16 then i32 (uint (ai_hist_count a)) else 16)"

definition ai_hist_start :: "ai_state \<Rightarrow> u32" where
  "ai_hist_start a = (if ai_hist_count a < 16 then 0 else ai_hist_count a - 16)"

definition ai_hist_nth :: "int \<Rightarrow> ai_state \<Rightarrow> ai_hist_entry" where
  "ai_hist_nth idx a = ai_hist a ! unat ((ai_hist_start a + word_of_int idx) mod 16)"

definition ai_history_tick :: "int \<Rightarrow> ai_state \<Rightarrow> u32" where
  "ai_history_tick idx a = (if idx < 0 \<or> ai_history_count a \<le> idx then 0 else ah_tick (ai_hist_nth idx a))"

definition ai_history_action :: "int \<Rightarrow> ai_state \<Rightarrow> int" where
  "ai_history_action idx a =
     (if idx < 0 \<or> ai_history_count a \<le> idx then - 1 else uint (ah_action (ai_hist_nth idx a)))"

definition hist_view :: "ai_state \<Rightarrow> ai_hist_entry list" where
  "hist_view a = ring_view (ai_hist a) (unat (ai_hist_count a))"

definition hist_wf :: "ai_state \<Rightarrow> bool" where
  "hist_wf a \<longleftrightarrow> length (ai_hist a) = 16"

lemma hist_push_view:
  assumes "hist_wf a" "Suc (unat (ai_hist_count a)) < 2 ^ 32"
  shows "hist_view (ai_hist_push e a) = last_n 16 (hist_view a @ [e])"
proof -
  have "unat (ai_hist_count a mod 16) = unat (ai_hist_count a) mod length (ai_hist a)"
    using assms(1) by (simp add: hist_wf_def unat_mod)
  moreover have "unat (ai_hist_count a + 1) = Suc (unat (ai_hist_count a))" using assms(2) by (simp add: unat_Suc_word)
  moreover have "ai_hist a \<noteq> []" using assms(1) by (auto simp: hist_wf_def)
  ultimately show ?thesis
    using ring_view_push [of "ai_hist a" "unat (ai_hist_count a)" e] assms(1)
    by (simp add: hist_view_def ai_hist_push_def hist_wf_def)
qed

interpretation ai_ring: history_ring ai_hist_push hist_view 16 hist_wf "\<lambda>a. unat (ai_hist_count a)" "2 ^ 32"
proof
  fix a x
  assume wf: "hist_wf a" and c: "Suc (unat (ai_hist_count a)) < 2 ^ 32"
  show "hist_view (ai_hist_push x a) = last_n 16 (hist_view a @ [x])" by (rule hist_push_view [OF wf c])
  show "hist_wf (ai_hist_push x a)" using wf by (simp add: hist_wf_def ai_hist_push_def)
  show "unat (ai_hist_count (ai_hist_push x a)) \<le> Suc (unat (ai_hist_count a))"
    using c by (simp add: ai_hist_push_def unat_Suc_word)
qed

text \<open>What the accessors return is the view of the ring.\<close>

lemma history_count_view: "hist_wf a \<Longrightarrow> ai_history_count a = int (length (hist_view a))"
proof -
  assume "hist_wf a"
  moreover have "i32 (uint (ai_hist_count a)) = uint (ai_hist_count a)" if "ai_hist_count a < 16"
    using that by (intro i32_uint) (simp add: word_less_def)
  ultimately show ?thesis
    by (auto simp: ai_history_count_def hist_view_def ring_view_def hist_wf_def word_less_nat_alt min_def)
qed

lemma hist_nth_view:
  assumes "hist_wf a" "i < length (hist_view a)"
  shows "ai_hist_nth (int i) a = hist_view a ! i"
proof -
  let ?c = "unat (ai_hist_count a)"
  have i: "i < 16" "i < ?c" using assms by (auto simp: hist_view_def ring_view_def hist_wf_def)
  have s: "unat (ai_hist_start a) = ?c - 16"
    by (auto simp: ai_hist_start_def word_less_nat_alt unat_sub word_le_nat_alt)
  have "?c - 16 + i < 2 ^ 32" using i unsigned_less [of "ai_hist_count a", where ?'a = nat] by simp
  then have "unat (ai_hist_start a + word_of_int (int i)) = ?c - 16 + i"
    using i(1) s by (simp add: unat_word_ariths unsigned_of_nat take_bit_nat_eq_self)
  then have n: "unat ((ai_hist_start a + word_of_int (int i)) mod 16) = (?c - 16 + i) mod 16"
    by (simp only: unat_mod) simp
  have l: "length (ai_hist a) = 16" using assms(1) by (simp add: hist_wf_def)
  have "hist_view a ! i = ai_hist a ! ((?c - 16 + i) mod 16)"
    unfolding hist_view_def ring_view_def l using i by (subst nth_ring_items) (simp_all only: l min_less_iff_conj)
  then show ?thesis unfolding ai_hist_nth_def n by (rule sym)
qed

lemma history_accessors:
  assumes "hist_wf a"
  shows "map (\<lambda>i. (ai_history_tick (int i) a, ai_history_action (int i) a)) [0..<nat (ai_history_count a)]
    = map (\<lambda>e. (ah_tick e, uint (ah_action e))) (hist_view a)"
  using assms
  by (intro nth_equalityI)
    (simp_all add: history_count_view ai_history_tick_def ai_history_action_def hist_nth_view)

section \<open>Properties\<close>

text \<open>
  C24. The decision history keeps the last sixteen decisions: after any sequence of fewer than \<open>2 ^ 32\<close> recorded
  decisions, the accessors \<open>ai_history_count\<close>, \<open>ai_history_tick\<close> and \<open>ai_history_action\<close> enumerate exactly the last
  sixteen of them, oldest first.
\<close>

theorem ai_history_last_16:
  assumes "hist_wf a" "ai_hist_count a = 0" "length es < 2 ^ 32" "a' = foldl (\<lambda>a e. ai_hist_push e a) a es"
  shows "map (\<lambda>i. (ai_history_tick (int i) a', ai_history_action (int i) a')) [0..<nat (ai_history_count a')]
    = map (\<lambda>e. (ah_tick e, uint (ah_action e))) (last_n 16 es)"
proof -
  have v: "hist_view a = []" using assms(2) by (simp add: hist_view_def ring_view_def)
  have "hist_view a' = last_n 16 es"
    using ai_ring.pushes_view [OF assms(1), of es] assms(2,3,4) v by simp
  moreover have "hist_wf a'"
    unfolding assms(4) using assms(1) by (induction es arbitrary: a) (simp_all add: hist_wf_def ai_hist_push_def)
  ultimately show ?thesis by (simp only: history_accessors)
qed

definition ai_statics :: ai_state where
  "ai_statics =
     \<lparr>ai_magic = 0, ticks_total = 0, ticks_since_infer = 0, inferences = 0, errors = 0, ai_hz = 0, ai_action = 0,
      ai_disabled = False, ai_verbose = False, in_tick = False, ai_hist = replicate 16 \<lparr>ah_tick = 0, ah_action = 0\<rparr>,
      ai_hist_count = 0\<rparr>"

definition rest_at :: "nat \<Rightarrow> ai_hist_entry" where
  "rest_at i = \<lparr>ah_tick = of_nat i, ah_action = 2\<rparr>"

theorem ai_history_last_16_witness:
  "(let a' = foldl (\<lambda>a e. ai_hist_push e a) ai_statics (map rest_at [0..<20])
    in map (\<lambda>i. (ai_history_tick (int i) a', ai_history_action (int i) a')) [0..<nat (ai_history_count a')]
     = map (\<lambda>i. (of_nat i, 2)) [4..<20])"
proof -
  have l: "last_n 16 (map rest_at [0..<20]) = map rest_at [4..<20]"
    by (simp add: last_n_def drop_map drop_upt del: upt_rec_numeral)
  have "hist_wf ai_statics" "ai_hist_count ai_statics = 0" "length (map rest_at [0..<20]) < 2 ^ 32"
    by (simp_all add: hist_wf_def ai_statics_def del: upt_rec_numeral)
  from ai_history_last_16 [OF this refl] show ?thesis
    unfolding Let_def l by (simp add: rest_at_def comp_def del: upt_rec_numeral)
qed

end
