(* ===== verification/Cmt.thy ===== *)
theory Cmt
  imports Uart AiCore
begin

text \<open>
  The CMT engine, \<^verbatim>\<open>src/kernel/cmt_core.c\<close> and \<^verbatim>\<open>src/kernel/cmt_api.c\<close>: a 6-12-3 network over the metrics of the
  system, its activation energy, the level derived from it, and the decision history.  The values that the engine
  reads from the heap, the page allocator and the AI engine are arguments of the operations that read them.
\<close>

section \<open>State\<close>

record metrics =
  heap_used_now :: u32
  heap_cap_now :: u32
  pages_free_now :: u32
  pages_total_now :: u32

record ai_counters =
  ctr_inferences :: u32
  ctr_errors :: u32
  ctr_action :: int

record cmt_input =
  in_p :: int
  in_m :: int
  in_b :: int
  in_s :: int
  in_a :: int
  in_x :: int

record cmt_experience =
  dims :: "int list"
  energy :: int
  coherence :: int

record cmt_state =
  cmt_level :: u8
  cmt_act :: u8
  cmt_inferences :: u32
  cmt_errors :: u32
  cmt_hz :: u32
  cmt_uptime :: u32
  cmt_disabled :: bool
  cmt_verbose :: u8

record cmt_hist =
  ch_tick :: u32
  ch_action :: u8
  ch_level :: u8
  ch_energy :: int

record cmt_engine =
  cmt_magic :: u32
  cst :: cmt_state
  cexp :: cmt_experience
  last_input :: cmt_input
  cmt_history :: "cmt_hist list"
  cmt_hist_count :: u32
  cmt_since :: u32
  cmt_ticks :: u32

section \<open>Weights\<close>

definition cmt_w1 :: "int list list" where
  "cmt_w1 =
     [[131072, 32768, 0, 0, 0, 0],
      [- 131072, - 32768, 0, 0, 0, 0],
      [32768, 131072, 0, 0, 0, 0],
      [0, 0, 131072, 0, 0, 0],
      [0, 0, 0, 131072, 0, 0],
      [0, 0, 0, 0, 131072, 0],
      [0, 0, 0, 0, 0, 131072],
      [32768, 32768, 0, 0, 0, 0],
      [0, 0, 32768, 32768, 0, 0],
      [0, 0, 0, 0, 32768, 32768],
      [- 65536, - 65536, - 65536, 0, 0, 0],
      [0, 0, 0, 0, 0, 0]]"

definition cmt_b1 :: "int list" where
  "cmt_b1 = [0, 0, - 65536, 0, 0, 0, 0, 32768, 0, 0, 32768, 0]"

definition cmt_w2 :: "int list list" where
  "cmt_w2 =
     [[- 16384, - 16384, - 16384, - 16384, - 16384, - 16384, - 16384, 32768, 32768, 32768, 32768, 32768],
      [131072, - 131072, 0, 131072, 0, 0, 0, - 32768, - 32768, 0, - 65536, 0],
      [0, 131072, 131072, - 131072, - 131072, - 131072, - 131072, 0, 0, - 32768, 131072, 0]]"

definition cmt_b2 :: "int list" where
  "cmt_b2 = [0, 0, 0]"

section \<open>Perceive, transform, derive\<close>

definition cmt_perceive :: "metrics \<Rightarrow> ai_counters \<Rightarrow> cmt_engine \<Rightarrow> cmt_input" where
  "cmt_perceive v k c =
     (let ph = fp_from_ratio (heap_used_now v) (heap_cap_now v);
          pp = fp_from_ratio (pages_total_now v - pages_free_now v) (pages_total_now v);
          ai_tot = ctr_inferences k + ctr_errors k
      in \<lparr>in_p = i32 (ph + pp) sdiv 2,
          in_m = fp_clamp (i32 (FP_ONE - fp_from_ratio (pages_free_now v) (pages_total_now v))) 0 FP_ONE,
          in_b = fp_clamp (i32 (fp_from_ratio (cmt_since c) 50 - FP_ONE)) (- (2 * FP_ONE)) (2 * FP_ONE),
          in_s = (if 0 < ai_tot then fp_from_ratio (ctr_inferences k) ai_tot else FP_ONE),
          in_a = i32 (ctr_action k * 65536),
          in_x = fp_clamp (fp_from_ratio (cmt_uptime (cst c) mod 1000) 1000) 0 FP_ONE\<rparr>)"

definition inputs_of :: "cmt_input \<Rightarrow> int list" where
  "inputs_of i = [in_p i, in_m i, in_b i, in_s i, in_a i, in_x i]"

definition cmt_transform :: "cmt_input \<Rightarrow> int \<times> cmt_experience" where
  "cmt_transform i =
     (let hidden = map2 (\<lambda>ws b. fp_softsign (mac b ws (inputs_of i))) cmt_w1 cmt_b1;
          te = foldl (\<lambda>t h. i32 (t + fp_abs h)) 0 hidden;
          out = map2 (\<lambda>ws b. mac b ws hidden) cmt_w2 cmt_b2
      in (int (pick_best out),
          \<lparr>dims = hidden, energy = te sdiv 12,
           coherence = (if 0 < te then fp_clamp (te sdiv i32 (fp_abs (hidden ! 0) + 1)) 0 FP_ONE else 0)\<rparr>))"

definition cmt_derive_level :: "cmt_experience \<Rightarrow> u8" where
  "cmt_derive_level e =
     (if energy e \<le> 0 then 0
      else if energy e < 32768 then 1
      else if energy e < 65536 \<or> coherence e < 32768 then 2
      else 3)"

definition cmt_record :: "u32 \<Rightarrow> int \<Rightarrow> u8 \<Rightarrow> int \<Rightarrow> cmt_engine \<Rightarrow> cmt_engine" where
  "cmt_record tick action level en c =
     (if cmt_hist_count c < 32 then
        c\<lparr>cmt_history := (cmt_history c)[unat (cmt_hist_count c) :=
             \<lparr>ch_tick = tick, ch_action = word_of_int action, ch_level = level, ch_energy = en\<rparr>],
          cmt_hist_count := cmt_hist_count c + 1\<rparr>
      else c)"

definition cmt_core_action_name :: "int \<Rightarrow> bytes" where
  "cmt_core_action_name action =
     (if 0 \<le> action \<and> action < 3 then [str ''SUSTAIN'', str ''BOOST'', str ''REST''] ! nat action
      else str ''UNKNOWN'')"

definition cmt_verbose_line :: "int \<Rightarrow> cmt_engine \<Rightarrow> bytes" where
  "cmt_verbose_line action c =
     uart_puts_nolf (str ''  CMT: C='') @ uart_dec (ucast (cmt_level (cst c)))
     @ uart_puts_nolf (str '' E='') @ uart_dec (word_of_int (energy (cexp c)))
     @ uart_puts_nolf (str '' A='') @ uart_puts_nolf (cmt_core_action_name action)
     @ uart_puts_nolf (str '' H='') @ uart_dec (word_of_int (coherence (cexp c))) @ uart_puts []"

definition cmt_infer :: "metrics \<Rightarrow> ai_counters \<Rightarrow> cmt_engine \<Rightarrow> cmt_engine \<times> bytes" where
  "cmt_infer v k c =
     (let c = c\<lparr>cmt_since := 0, cst := (cst c)\<lparr>cmt_inferences := cmt_inferences (cst c) + 1\<rparr>\<rparr>;
          i = cmt_perceive v k c;
          (action, e) = cmt_transform i;
          level = cmt_derive_level e;
          c = c\<lparr>last_input := i, cexp := e,
               cst := (cst c)\<lparr>cmt_level := level, cmt_act := word_of_int action\<rparr>\<rparr>;
          c = cmt_record (cmt_ticks c) action level (energy e) c
      in (c, if cmt_verbose (cst c) \<noteq> 0 then cmt_verbose_line action c else []))"

definition cmt_on_tick :: "metrics \<Rightarrow> ai_counters \<Rightarrow> cmt_engine \<Rightarrow> cmt_engine \<times> bytes" where
  "cmt_on_tick v k c =
     (if cmt_disabled (cst c) then (c, [])
      else
        (let c = c\<lparr>cst := (cst c)\<lparr>cmt_uptime := cmt_uptime (cst c) + 1\<rparr>, cmt_ticks := cmt_ticks c + 1,
                   cmt_since := cmt_since c + 1\<rparr>
         in if cmt_since c < 50 then (c, []) else cmt_infer v k c))"

definition cmt_force_inference :: "cmt_engine \<Rightarrow> cmt_engine" where
  "cmt_force_inference c = c\<lparr>cmt_since := 50\<rparr>"

section \<open>API\<close>

definition cmt_init :: "cmt_engine \<Rightarrow> cmt_engine \<times> bytes" where
  "cmt_init c =
     (c\<lparr>cmt_magic := 0x434D5430,
        cst := \<lparr>cmt_level = 0, cmt_act = 0, cmt_inferences = 0, cmt_errors = 0, cmt_hz = 0, cmt_uptime = 0,
                cmt_disabled = False, cmt_verbose = 0\<rparr>,
        cexp := \<lparr>dims = replicate 12 0, energy = 0, coherence = 0\<rparr>,
        last_input := \<lparr>in_p = 0, in_m = 0, in_b = 0, in_s = 0, in_a = 0, in_x = 0\<rparr>,
        cmt_history := replicate 32 \<lparr>ch_tick = 0, ch_action = 0, ch_level = 0, ch_energy = 0\<rparr>,
        cmt_hist_count := 0, cmt_since := 0, cmt_ticks := 0\<rparr>,
      uart_puts (str ''  CMT engine initialized''))"

definition cmt_set_verbose :: "int \<Rightarrow> cmt_engine \<Rightarrow> cmt_engine" where
  "cmt_set_verbose e c = c\<lparr>cst := (cst c)\<lparr>cmt_verbose := word_of_int e\<rparr>\<rparr>"

definition cmt_is_healthy :: "cmt_engine \<Rightarrow> bool" where
  "cmt_is_healthy c \<longleftrightarrow> cmt_magic c = 0x434D5430 \<and> \<not> cmt_disabled (cst c)"

definition cmt_disable :: "cmt_engine \<Rightarrow> cmt_engine" where
  "cmt_disable c = c\<lparr>cst := (cst c)\<lparr>cmt_disabled := True\<rparr>\<rparr>"

definition cmt_enable :: "cmt_engine \<Rightarrow> cmt_engine" where
  "cmt_enable c = c\<lparr>cst := (cst c)\<lparr>cmt_disabled := False\<rparr>\<rparr>"

definition cmt_inference_count :: "cmt_engine \<Rightarrow> u32" where
  "cmt_inference_count c = cmt_inferences (cst c)"

definition cmt_error_count :: "cmt_engine \<Rightarrow> u32" where
  "cmt_error_count c = cmt_errors (cst c)"

definition cmt_last_action :: "cmt_engine \<Rightarrow> int" where
  "cmt_last_action c = uint (cmt_act (cst c))"

definition cmt_action_name :: "int \<Rightarrow> bytes" where
  "cmt_action_name a = cmt_core_action_name a"

definition cmt_current_hz :: "cmt_engine \<Rightarrow> u32" where
  "cmt_current_hz c = cmt_hz (cst c)"

definition cmt_consciousness_level :: "cmt_engine \<Rightarrow> int" where
  "cmt_consciousness_level c = uint (cmt_level (cst c))"

definition cmt_history_count :: "cmt_engine \<Rightarrow> int" where
  "cmt_history_count c = i32 (uint (cmt_hist_count c))"

definition cmt_hist_at :: "int \<Rightarrow> 'a \<Rightarrow> (cmt_hist \<Rightarrow> 'a) \<Rightarrow> cmt_engine \<Rightarrow> 'a" where
  "cmt_hist_at idx none f c = (if idx < 0 \<or> cmt_history_count c \<le> idx then none else f (cmt_history c ! nat idx))"

definition cmt_history_tick :: "int \<Rightarrow> cmt_engine \<Rightarrow> u32" where
  "cmt_history_tick idx c = cmt_hist_at idx 0 ch_tick c"

definition cmt_history_action :: "int \<Rightarrow> cmt_engine \<Rightarrow> int" where
  "cmt_history_action idx c = cmt_hist_at idx (- 1) (\<lambda>e. uint (ch_action e)) c"

definition cmt_history_level :: "int \<Rightarrow> cmt_engine \<Rightarrow> int" where
  "cmt_history_level idx c = cmt_hist_at idx (- 1) (\<lambda>e. uint (ch_level e)) c"

definition cmt_history_energy :: "int \<Rightarrow> cmt_engine \<Rightarrow> int" where
  "cmt_history_energy idx c = cmt_hist_at idx 0 ch_energy c"

definition cmt_level_name :: "u8 \<Rightarrow> bytes" where
  "cmt_level_name l =
     [str ''unconscious'', str ''minimal'', str ''aware'', str ''focused''] ! unat (if 4 \<le> l then 3 else l)"

definition cmt_report :: "cmt_engine \<Rightarrow> bytes" where
  "cmt_report c =
     uart_puts (str ''=== CMT Engine Report ==='')
     @ uart_puts_nolf (str ''  Consciousness: Level '') @ uart_dec (ucast (cmt_level (cst c)))
     @ uart_puts_nolf (str '' ('') @ uart_puts_nolf (cmt_level_name (cmt_level (cst c))) @ uart_puts (str '')'')
     @ uart_puts_nolf (str ''  Action: '') @ uart_puts (cmt_core_action_name (uint (cmt_act (cst c))))
     @ uart_puts_nolf (str ''  Energy: '') @ uart_dec (word_of_int (energy (cexp c)))
     @ uart_puts_nolf (str ''  Coherence: '') @ uart_dec (word_of_int (coherence (cexp c))) @ uart_puts []
     @ uart_puts_nolf (str ''  Inferences: '') @ uart_dec (ucast (cmt_inferences (cst c)))
     @ uart_puts_nolf (str ''  History: '') @ uart_dec (ucast (cmt_hist_count c))
     @ uart_puts_nolf (str ''/'') @ uart_dec 32 @ uart_puts []
     @ uart_puts_nolf (str ''  Uptime: '') @ uart_dec (ucast (cmt_uptime (cst c))) @ uart_puts (str '' ticks'')"

section \<open>Ranges\<close>

definition metrics_ok :: "metrics \<Rightarrow> bool" where
  "metrics_ok v \<longleftrightarrow> heap_used_now v \<le> heap_cap_now v \<and> pages_free_now v \<le> pages_total_now v"

definition counters_ok :: "ai_counters \<Rightarrow> bool" where
  "counters_ok k \<longleftrightarrow> uint (ctr_inferences k) + uint (ctr_errors k) < 2 ^ 32 \<and> ctr_action k \<in> {0, 1, 2}"

lemma sdiv_2_range: "0 \<le> x \<Longrightarrow> 0 \<le> x sdiv 2 \<and> x sdiv 2 \<le> (x :: int)"
  by (auto simp: signed_divide_int_def sgn_if)

lemma cmt_inputs_small:
  assumes "metrics_ok v" "counters_ok k"
  shows "list_all (\<lambda>x. \<bar>x\<bar> \<le> 2 ^ 18) (inputs_of (cmt_perceive v k c))"
proof -
  have m: "heap_used_now v \<le> heap_cap_now v" "pages_total_now v - pages_free_now v \<le> pages_total_now v"
    using assms(1) word_sub_le by (auto simp: metrics_ok_def)
  have "uint (ctr_inferences k + ctr_errors k) = uint (ctr_inferences k) + uint (ctr_errors k)"
    using assms(2) by (simp add: counters_ok_def uint_word_ariths)
  then have s: "ctr_inferences k \<le> ctr_inferences k + ctr_errors k" by (simp add: word_le_def)
  define ph where "ph = fp_from_ratio (heap_used_now v) (heap_cap_now v)"
  define pp where "pp = fp_from_ratio (pages_total_now v - pages_free_now v) (pages_total_now v)"
  have r: "0 \<le> ph" "ph \<le> 65536" "0 \<le> pp" "pp \<le> 65536"
    using fp_from_ratio_range [OF m(1)] fp_from_ratio_range [OF m(2)] by (simp_all add: ph_def pp_def)
  then have i: "i32 (ph + pp) = ph + pp" by (simp add: i32_id)
  have "\<bar>i32 (ph + pp) sdiv 2\<bar> \<le> 2 ^ 18" unfolding i using r sdiv_2_range [of "ph + pp"] by simp
  moreover have "\<bar>if 0 < ctr_inferences k + ctr_errors k then fp_from_ratio (ctr_inferences k) (ctr_inferences k + ctr_errors k)
      else FP_ONE\<bar> \<le> 2 ^ 18"
    using fp_from_ratio_range [OF s] by (simp add: FP_ONE_def)
  moreover have "\<bar>i32 (ctr_action k * 65536)\<bar> \<le> 2 ^ 18" using assms(2) by (auto simp: counters_ok_def i32_id)
  moreover have "\<bar>fp_clamp x lo hi\<bar> \<le> 2 ^ 18" if "lo \<le> hi" "- (2 ^ 18) \<le> lo" "hi \<le> 2 ^ 18" for x lo hi
    using fp_clamp_range [OF that(1), of x] that by (simp add: abs_le_iff)
  ultimately show ?thesis
    by (simp add: inputs_of_def cmt_perceive_def Let_def ph_def [symmetric] pp_def [symmetric] FP_ONE_def del: word_neq_0_conv)
qed

lemma cmt_weights_small:
  "list_all (\<lambda>ws. length ws = 6 \<and> list_all (\<lambda>w. \<bar>w\<bar> \<le> 2 ^ 17) ws) cmt_w1"
  "list_all (\<lambda>ws. length ws = 12 \<and> list_all (\<lambda>w. \<bar>w\<bar> \<le> 2 ^ 17) ws) cmt_w2"
  "list_all (\<lambda>b. \<bar>b\<bar> \<le> 2 ^ 16) cmt_b1" "list_all (\<lambda>b. \<bar>b\<bar> \<le> 2 ^ 16) cmt_b2"
  by (simp_all add: cmt_w1_def cmt_w2_def cmt_b1_def cmt_b2_def)

text \<open>The energy is the mean of twelve activations below 1.0.\<close>

lemma activation_sum:
  "list_all (\<lambda>h. \<bar>h\<bar> < 65536) hs \<Longrightarrow> 0 \<le> t \<Longrightarrow> t + 65535 * int (length hs) \<le> 1048576 \<Longrightarrow>
     foldl (\<lambda>t h. i32 (t + fp_abs h)) t hs = t + sum_list (map abs hs)
     \<and> sum_list (map abs hs) \<le> 65535 * int (length hs)"
proof (induction hs arbitrary: t)
  case (Cons h hs)
  have "fp_abs h = \<bar>h\<bar>" using Cons.prems(1) by (auto simp: fp_abs_def)
  moreover have "i32 (t + \<bar>h\<bar>) = t + \<bar>h\<bar>" using Cons.prems by (simp add: i32_id)
  ultimately show ?case using Cons.IH [of "t + \<bar>h\<bar>"] Cons.prems by simp
qed simp

lemma cmt_energy:
  assumes "list_all (\<lambda>x. \<bar>x\<bar> \<le> 2 ^ 18) (inputs_of i)"
  shows "0 \<le> energy (snd (cmt_transform i)) \<and> energy (snd (cmt_transform i)) < 65536"
proof -
  define h where "h = map2 (\<lambda>ws b. softsign (lin b ws (inputs_of i))) cmt_w1 cmt_b1"
  have h: "map2 (\<lambda>ws b. fp_softsign (mac b ws (inputs_of i))) cmt_w1 cmt_b1 = h"
    unfolding h_def by (rule layer_exact [OF cmt_weights_small(1,3) assms]) simp
  have "length h = 12" by (simp add: h_def cmt_w1_def cmt_b1_def)
  moreover have "list_all (\<lambda>h. \<bar>h\<bar> < 65536) h" using softsign_bound by (auto simp: h_def list_all_iff)
  ultimately have s: "foldl (\<lambda>t h. i32 (t + fp_abs h)) 0 h = sum_list (map abs h)" "sum_list (map abs h) \<le> 65535 * 12"
    using activation_sum [of h 0] by simp_all
  have "0 \<le> sum_list (map abs h)" by (intro sum_list_nonneg) auto
  then have "sum_list (map abs h) sdiv 12 = sum_list (map abs h) div 12" "0 \<le> sum_list (map abs h) div 12"
    by (auto simp: signed_divide_int_def sgn_if pos_imp_zdiv_nonneg_iff)
  moreover have "sum_list (map abs h) div 12 < 65536" using s(2) by (intro zdiv_lessI) simp_all
  ultimately show ?thesis by (simp add: cmt_transform_def Let_def h s(1))
qed

lemma cmt_transform_range: "fst (cmt_transform i) \<in> {0, 1, 2}"
proof -
  let ?o = "map2 (\<lambda>ws b. mac b ws (dims (snd (cmt_transform i)))) cmt_w2 cmt_b2"
  have l: "length ?o = 3" by (simp add: cmt_w2_def cmt_b2_def)
  then have "?o \<noteq> []" by (metis list.size(3) zero_neq_numeral)
  from pick_best(1) [OF this] have "pick_best ?o < 3" unfolding l .
  moreover have "fst (cmt_transform i) = int (pick_best ?o)" by (simp add: cmt_transform_def Let_def)
  ultimately show ?thesis by auto
qed

definition cmt_inv :: "cmt_engine \<Rightarrow> bool" where
  "cmt_inv c \<longleftrightarrow> cmt_level (cst c) \<le> 2 \<and> cmt_act (cst c) \<le> 2 \<and> length (cmt_history c) = 32 \<and> cmt_hist_count c \<le> 32"

lemma cmt_record_keeps:
  "cst (cmt_record t a l e c) = cst c"
  "length (cmt_history (cmt_record t a l e c)) = length (cmt_history c)"
  "cmt_hist_count c \<le> 32 \<Longrightarrow> cmt_hist_count (cmt_record t a l e c) \<le> 32"
  by (auto simp: cmt_record_def inc_le)

lemma cmt_infer_inv:
  assumes "cmt_inv c" "metrics_ok v" "counters_ok k"
  shows "cmt_inv (fst (cmt_infer v k c))"
proof -
  define c1 where "c1 = c\<lparr>cmt_since := 0, cst := (cst c)\<lparr>cmt_inferences := cmt_inferences (cst c) + 1\<rparr>\<rparr>"
  define i where "i = cmt_perceive v k c1"
  have "energy (snd (cmt_transform i)) < 65536"
    using cmt_energy [OF cmt_inputs_small [OF assms(2,3)]] by (simp add: i_def)
  then have "cmt_derive_level (snd (cmt_transform i)) \<le> 2" by (simp add: cmt_derive_level_def)
  moreover have "(word_of_int (fst (cmt_transform i)) :: u8) \<le> 2" using cmt_transform_range [of i] by auto
  ultimately show ?thesis
    using assms(1)
    by (simp add: cmt_infer_def c1_def [symmetric] i_def [symmetric] Let_def case_prod_beta cmt_inv_def cmt_record_keeps)
      (simp add: c1_def cmt_record_keeps)
qed

lemma cmt_on_tick_inv:
  assumes "cmt_inv c" "metrics_ok v" "counters_ok k"
  shows "cmt_inv (fst (cmt_on_tick v k c))"
  using assms cmt_infer_inv [of _ v k] by (simp add: cmt_on_tick_def Let_def) (simp add: cmt_inv_def)

lemma cmt_init_inv: "cmt_inv (fst (cmt_init c))"
  by (simp add: cmt_init_def cmt_inv_def)

section \<open>Properties\<close>

text \<open>
  C25. The level "focused" is out of reach: on consistent metrics the mean activation of the twelve neurons stays below
  1.0, so the level derived by one inference is at most 2 and the branch of \<open>ai_act\<close> for level 3 is never taken.
\<close>

theorem cmt_never_focused:
  assumes "metrics_ok v" "counters_ok k"
  shows "cmt_derive_level (snd (cmt_transform (cmt_perceive v k c))) \<le> 2"
  using cmt_energy [OF cmt_inputs_small [OF assms, of c]] by (simp add: cmt_derive_level_def)

definition cmt_statics :: cmt_engine where
  "cmt_statics =
     \<lparr>cmt_magic = 0,
      cst = \<lparr>cmt_level = 0, cmt_act = 0, cmt_inferences = 0, cmt_errors = 0, cmt_hz = 0, cmt_uptime = 0,
             cmt_disabled = False, cmt_verbose = 0\<rparr>,
      cexp = \<lparr>dims = replicate 12 0, energy = 0, coherence = 0\<rparr>,
      last_input = \<lparr>in_p = 0, in_m = 0, in_b = 0, in_s = 0, in_a = 0, in_x = 0\<rparr>,
      cmt_history = replicate 32 \<lparr>ch_tick = 0, ch_action = 0, ch_level = 0, ch_energy = 0\<rparr>,
      cmt_hist_count = 0, cmt_since = 0, cmt_ticks = 0\<rparr>"

theorem cmt_never_focused_witness:
  "cmt_derive_level (snd (cmt_transform (cmt_perceive
      \<lparr>heap_used_now = 90, heap_cap_now = 100, pages_free_now = 1, pages_total_now = 100\<rparr>
      \<lparr>ctr_inferences = 1, ctr_errors = 0, ctr_action = 2\<rparr> cmt_statics))) \<le> 2"
  by (rule cmt_never_focused) (simp_all add: metrics_ok_def counters_ok_def)

end
