(* ===== verification/AiDebug.thy ===== *)
theory AiDebug
  imports Irq AiState
begin

text \<open>
  The AI debugger, \<^verbatim>\<open>src/kernel/ai_debug.c\<close>: a table of issues filled by a scan of the system metrics, and the automatic
  fixes.  The values that a scan reads from other components are its arguments; a fix may set the timer rate or disable
  the AI engine, so the fixes act on the timer and the engine state.
\<close>

section \<open>State\<close>

record debug_issue =
  is_type :: u8
  is_severity :: u8
  is_timestamp :: u32
  is_count :: u32
  is_details :: "u32 list"

record debug_fix =
  fx_issue :: u8
  fx_type :: u8
  fx_success :: u8
  fx_timestamp :: u32

record ai_debug =
  issues :: "debug_issue list"
  dbg_fixes :: "debug_fix list"
  issue_count :: u32
  fix_count :: u32
  scan_count :: u32
  total_issues :: u32
  total_fixes :: u32
  dbg_enabled :: bool
  auto_fix :: bool

abbreviation (input) ISSUE_NONE :: u8 where "ISSUE_NONE \<equiv> 0"
abbreviation (input) ISSUE_MEM_LEAK :: u8 where "ISSUE_MEM_LEAK \<equiv> 1"
abbreviation (input) ISSUE_HIGH_ERRORS :: u8 where "ISSUE_HIGH_ERRORS \<equiv> 2"
abbreviation (input) ISSUE_SLOW_PERF :: u8 where "ISSUE_SLOW_PERF \<equiv> 3"
abbreviation (input) ISSUE_HUNG_TASK :: u8 where "ISSUE_HUNG_TASK \<equiv> 4"
abbreviation (input) ISSUE_STACK_OVERFLOW :: u8 where "ISSUE_STACK_OVERFLOW \<equiv> 5"
abbreviation (input) ISSUE_DIV_ZERO :: u8 where "ISSUE_DIV_ZERO \<equiv> 6"
abbreviation (input) ISSUE_NULL_PTR :: u8 where "ISSUE_NULL_PTR \<equiv> 7"
abbreviation (input) FIX_NONE :: u8 where "FIX_NONE \<equiv> 0"
abbreviation (input) FIX_CLEAR_MEMORY :: u8 where "FIX_CLEAR_MEMORY \<equiv> 2"
abbreviation (input) FIX_KILL_TASK :: u8 where "FIX_KILL_TASK \<equiv> 3"
abbreviation (input) FIX_RESET_TIMER :: u8 where "FIX_RESET_TIMER \<equiv> 4"
abbreviation (input) FIX_DISABLE_AI :: u8 where "FIX_DISABLE_AI \<equiv> 5"
abbreviation (input) FIX_REBOOT :: u8 where "FIX_REBOOT \<equiv> 6"
abbreviation (input) FIX_ADJUST_HZ :: u8 where "FIX_ADJUST_HZ \<equiv> 7"

definition issue_names :: "bytes list" where
  "issue_names = [str ''none'', str ''mem_leak'', str ''high_errors'', str ''slow_perf'',
     str ''hung_task'', str ''stack_overflow'', str ''div_zero'', str ''null_ptr'']"

definition fix_names :: "bytes list" where
  "fix_names = [str ''none'', str ''reset_device'', str ''clear_memory'', str ''kill_task'',
     str ''reset_timer'', str ''disable_ai'', str ''reboot'', str ''adjust_hz'']"

section \<open>Issues and fixes\<close>

definition ai_debug_init :: "ai_debug \<Rightarrow> ai_debug \<times> bytes" where
  "ai_debug_init d =
     (d\<lparr>issues := map (\<lambda>i. i\<lparr>is_type := ISSUE_NONE, is_severity := 0, is_timestamp := 0, is_count := 0\<rparr>) (issues d),
        dbg_fixes := map (\<lambda>f. f\<lparr>fx_issue := ISSUE_NONE, fx_type := FIX_NONE, fx_success := 0, fx_timestamp := 0\<rparr>) (dbg_fixes d),
        issue_count := 0, fix_count := 0, scan_count := 0, total_issues := 0, total_fixes := 0,
        dbg_enabled := True, auto_fix := True\<rparr>,
      uart_puts (str ''  AI Debugger initialized''))"

definition add_issue :: "u8 \<Rightarrow> u8 \<Rightarrow> u32 list \<Rightarrow> u64 \<Rightarrow> ai_debug \<Rightarrow> ai_debug" where
  "add_issue ty severity ds now d =
     (case first_slot (\<lambda>i. is_type i = ty) (take (unat (issue_count d)) (issues d)) of
        Some i \<Rightarrow>
          d\<lparr>issues := (issues d)[i := (issues d ! i)\<lparr>is_count := is_count (issues d ! i) + 1, is_details := ds\<rparr>]\<rparr>
      | None \<Rightarrow>
          if issue_count d < 16 then
            d\<lparr>issues := (issues d)[unat (issue_count d) :=
                \<lparr>is_type = ty, is_severity = severity, is_timestamp = ucast now, is_count = 1, is_details = ds\<rparr>],
              issue_count := issue_count d + 1, total_issues := total_issues d + 1\<rparr>
          else d)"

definition add_fix :: "u8 \<Rightarrow> u8 \<Rightarrow> u8 \<Rightarrow> u64 \<Rightarrow> ai_debug \<Rightarrow> ai_debug" where
  "add_fix issue fix_ty success now d =
     (let d = (if 8 \<le> fix_count d then
                 d\<lparr>dbg_fixes := foldl (\<lambda>fs i. fs[i := fs ! Suc i]) (dbg_fixes d) [0..<7], fix_count := 7\<rparr>
               else d)
      in d\<lparr>dbg_fixes := (dbg_fixes d)[unat (fix_count d) :=
             \<lparr>fx_issue = issue, fx_type = fix_ty, fx_success = success, fx_timestamp = ucast now\<rparr>],
           fix_count := fix_count d + 1, total_fixes := total_fixes d + 1\<rparr>)"

record scan_input =
  sc_heap_used :: u32
  sc_heap_cap :: u32
  sc_errors :: u32
  sc_inferences :: u32
  sc_hz :: u32
  sc_cmt_level :: u32
  sc_cmt_errors :: u32
  sc_now :: u64

definition scan_memory :: "scan_input \<Rightarrow> ai_debug \<Rightarrow> ai_debug" where
  "scan_memory v d =
     (let heap_pct = (if 0 < sc_heap_cap v then (sc_heap_used v * 100) div sc_heap_cap v else 0) in
      if 90 < heap_pct then add_issue ISSUE_MEM_LEAK 2 [heap_pct, sc_heap_used v, sc_heap_cap v, 0] (sc_now v) d
      else if 75 < heap_pct then add_issue ISSUE_MEM_LEAK 1 [heap_pct, sc_heap_used v, sc_heap_cap v, 0] (sc_now v) d
      else d)"

definition scan_errors :: "scan_input \<Rightarrow> ai_debug \<Rightarrow> ai_debug" where
  "scan_errors v d =
     (if 10 < sc_inferences v then
        (let error_rate = (sc_errors v * 100) div sc_inferences v in
         if 20 < error_rate then add_issue ISSUE_HIGH_ERRORS 2 [error_rate, sc_errors v, sc_inferences v, 0] (sc_now v) d
         else if 10 < error_rate then add_issue ISSUE_HIGH_ERRORS 1 [error_rate, sc_errors v, sc_inferences v, 0] (sc_now v) d
         else d)
      else d)"

definition ai_debug_scan :: "scan_input \<Rightarrow> ai_debug \<Rightarrow> ai_debug" where
  "ai_debug_scan v d =
     (if \<not> dbg_enabled d then d
      else
        (let d = d\<lparr>scan_count := scan_count d + 1\<rparr>;
             d = scan_memory v d;
             d = scan_errors v d;
             d = (if sc_hz v < 50 then add_issue ISSUE_SLOW_PERF 1 [sc_hz v, 0, 0, 0] (sc_now v) d else d)
         in if sc_cmt_level v = 0 \<and> 20 < sc_inferences v
            then add_issue ISSUE_HUNG_TASK 1 [sc_cmt_level v, sc_cmt_errors v, 0, 0] (sc_now v) d else d))"

definition find_issue_to_fix :: "ai_debug \<Rightarrow> nat" where
  "find_issue_to_fix d =
     snd (foldl (\<lambda>(highest, best) i. if highest < is_severity (issues d ! i) then (is_severity (issues d ! i), i) else (highest, best))
            (0, 0) [0..<unat (issue_count d)])"

definition determine_fix :: "u8 \<Rightarrow> u8" where
  "determine_fix ty =
     (if ty = ISSUE_MEM_LEAK then FIX_CLEAR_MEMORY
      else if ty = ISSUE_HIGH_ERRORS then FIX_RESET_TIMER
      else if ty = ISSUE_SLOW_PERF then FIX_ADJUST_HZ
      else if ty = ISSUE_HUNG_TASK then FIX_RESET_TIMER
      else if ty = ISSUE_STACK_OVERFLOW then FIX_KILL_TASK
      else if ty = ISSUE_DIV_ZERO then FIX_DISABLE_AI
      else if ty = ISSUE_NULL_PTR then FIX_REBOOT
      else FIX_NONE)"

definition apply_fix :: "u8 \<Rightarrow> timer \<Rightarrow> ai_state \<Rightarrow> u8 \<times> timer \<times> ai_state" where
  "apply_fix fix_ty t a =
     (if fix_ty = FIX_CLEAR_MEMORY then (1, t, a)
      else if fix_ty = FIX_RESET_TIMER then (1, timer_set_hz 100 t, a)
      else if fix_ty = FIX_ADJUST_HZ then (1, timer_set_hz 150 t, a)
      else if fix_ty = FIX_KILL_TASK then (1, t, a)
      else if fix_ty = FIX_DISABLE_AI then (1, t, ai_disable a)
      else (0, t, a))"

definition fix_log :: "u8 \<Rightarrow> u8 \<Rightarrow> u8 \<Rightarrow> bytes" where
  "fix_log fix_ty issue success =
     uart_puts_nolf (str ''  [AI Debug] Auto-fix: '') @ uart_puts_nolf (fix_names ! unat fix_ty)
     @ uart_puts_nolf (str '' for '') @ uart_puts_nolf (issue_names ! unat issue)
     @ uart_puts (if success \<noteq> 0 then str '' (success)'' else str '' (failed)'')"

definition ai_debug_autofix :: "ai_debug \<Rightarrow> timer \<Rightarrow> ai_state \<Rightarrow> ai_debug \<times> timer \<times> ai_state \<times> bytes" where
  "ai_debug_autofix d t a =
     (if \<not> dbg_enabled d \<or> \<not> auto_fix d \<or> issue_count d = 0 then (d, t, a, [])
      else
        (let idx = find_issue_to_fix d; ty = is_type (issues d ! idx); fix_ty = determine_fix ty in
         if ty = ISSUE_NONE \<or> fix_ty = FIX_NONE then (d, t, a, [])
         else
           (case apply_fix fix_ty t a of (success, t1, a1) \<Rightarrow>
              (let d1 = add_fix ty fix_ty success (timer_get_ticks t1) d;
                   out = (if 1 \<le> is_severity (issues d1 ! idx) then fix_log fix_ty ty success else []);
                   d2 = (if success \<noteq> 0
                         then d1\<lparr>issues := (issues d1)[idx := (issues d1 ! idx)\<lparr>is_type := ISSUE_NONE, is_severity := 0\<rparr>]\<rparr>
                         else d1)
               in (d2, t1, a1, out)))))"

section \<open>Report and settings\<close>

definition issue_line :: "debug_issue \<Rightarrow> bytes" where
  "issue_line i =
     (if is_type i = ISSUE_NONE then []
      else
        uart_puts_nolf (str ''    ['')
        @ uart_puts_nolf (if 2 \<le> is_severity i then str ''CRIT'' else if 1 \<le> is_severity i then str ''WARN'' else str ''INFO'')
        @ uart_puts_nolf (str ''] '') @ uart_puts_nolf (issue_names ! unat (is_type i))
        @ uart_puts_nolf (str '' x'') @ uart_dec (ucast (is_count i)))"

definition fix_line :: "debug_fix \<Rightarrow> bytes" where
  "fix_line f =
     uart_puts_nolf (str ''    '') @ uart_puts_nolf (fix_names ! unat (fx_type f))
     @ uart_puts_nolf (str '' -> '') @ uart_puts_nolf (issue_names ! unat (fx_issue f))
     @ uart_puts (if fx_success f \<noteq> 0 then str '' [OK]'' else str '' [FAIL]'')"

definition ai_debug_report :: "ai_debug \<Rightarrow> bytes" where
  "ai_debug_report d =
     uart_puts (str ''=== AI Debug Report ==='')
     @ uart_puts_nolf (str ''  Scans: '') @ uart_dec (ucast (scan_count d))
     @ uart_puts_nolf (str ''  Issues found: '') @ uart_dec (ucast (total_issues d)) @ uart_puts []
     @ uart_puts_nolf (str ''  Fixes applied: '') @ uart_dec (ucast (total_fixes d))
     @ uart_puts_nolf (str ''  Enabled: '') @ uart_puts (if dbg_enabled d then str ''yes'' else str ''no'')
     @ uart_puts_nolf (str ''  Auto-fix: '') @ uart_puts (if auto_fix d then str ''yes'' else str ''no'')
     @ (if 0 < issue_count d
        then uart_puts (str ''  Active Issues:'') @ concat (map issue_line (take (unat (issue_count d)) (issues d)))
        else [])
     @ (if 0 < fix_count d
        then uart_puts (str ''  Recent Fixes:'')
          @ (let start = (if 5 < fix_count d then unat (fix_count d) - 5 else 0)
             in concat (map fix_line (drop start (take (unat (fix_count d)) (dbg_fixes d)))))
        else [])"

definition ai_debug_get_issue_count :: "ai_debug \<Rightarrow> u32" where
  "ai_debug_get_issue_count d = total_issues d"

definition ai_debug_get_fix_count :: "ai_debug \<Rightarrow> u32" where
  "ai_debug_get_fix_count d = total_fixes d"

definition ai_debug_set_enabled :: "int \<Rightarrow> ai_debug \<Rightarrow> ai_debug" where
  "ai_debug_set_enabled e d = d\<lparr>dbg_enabled := (e \<noteq> 0)\<rparr>"

definition ai_debug_set_autofix :: "int \<Rightarrow> ai_debug \<Rightarrow> ai_debug" where
  "ai_debug_set_autofix e d = d\<lparr>auto_fix := (e \<noteq> 0)\<rparr>"

section \<open>The table fills up\<close>

text \<open>
  Issues are only ever appended; a fixed issue leaves a slot of type \<open>ISSUE_NONE\<close> behind that no later issue reuses.
  \<open>cleared n\<close> is the table whose first \<open>n\<close> slots are such slots.
\<close>

definition cleared :: "nat \<Rightarrow> ai_debug \<Rightarrow> bool" where
  "cleared n d \<longleftrightarrow> dbg_enabled d \<and> auto_fix d \<and> length (issues d) = 16 \<and> unat (issue_count d) = n
     \<and> (\<forall>i<n. is_type (issues d ! i) = ISSUE_NONE \<and> is_severity (issues d ! i) = 0)"

lemma first_slot_cleared:
  assumes "cleared n d" "n \<le> 16" "ty \<noteq> ISSUE_NONE"
  shows "first_slot (\<lambda>i. is_type i = ty) (take (unat (issue_count d)) (issues d)) = None"
  using assms by (auto simp: first_slot_None cleared_def)

lemma add_issue_full:
  assumes "cleared 16 d" "ty \<noteq> ISSUE_NONE"
  shows "add_issue ty sev ds now d = d"
  using first_slot_cleared [OF assms(1) _ assms(2)] assms(1)
  by (simp add: add_issue_def cleared_def word_less_nat_alt)

lemma scan_full:
  assumes "cleared 16 d"
  shows "ai_debug_scan v d = d\<lparr>scan_count := scan_count d + 1\<rparr>"
proof -
  have "cleared 16 (d\<lparr>scan_count := scan_count d + 1\<rparr>)" using assms by (simp add: cleared_def)
  note add_issue_full [OF this, simp]
  show ?thesis using assms by (simp add: ai_debug_scan_def scan_memory_def scan_errors_def Let_def cleared_def)
qed

lemma find_cleared: "cleared n d \<Longrightarrow> find_issue_to_fix d = 0"
proof -
  assume c: "cleared n d"
  have "k \<le> n \<Longrightarrow> foldl (\<lambda>(highest, best) i. if highest < is_severity (issues d ! i) then (is_severity (issues d ! i), i)
      else (highest, best)) (0, 0) [0..<k] = (0, 0)" for k
    by (induction k) (use c in \<open>auto simp: cleared_def\<close>)
  with c show ?thesis by (simp add: find_issue_to_fix_def cleared_def)
qed

lemma autofix_cleared:
  assumes "cleared n d"
  shows "ai_debug_autofix d t a = (d, t, a, [])"
proof (cases "issue_count d = 0")
  case False
  then have "0 < n" using assms by (auto simp: cleared_def unat_gt_0)
  then have "is_type (issues d ! 0) = ISSUE_NONE" using assms by (simp add: cleared_def)
  then show ?thesis using find_cleared [OF assms] by (simp add: ai_debug_autofix_def Let_def)
qed (simp add: ai_debug_autofix_def)

text \<open>One scan that finds the heap nearly full, and the fix that follows it.\<close>

lemma round_cleared:
  assumes c: "cleared n d" and n: "n < 16"
    and v: "75 < (sc_heap_used v * 100) div sc_heap_cap v" "0 < sc_heap_cap v" "sc_inferences v \<le> 10" "50 \<le> sc_hz v"
  shows "cleared (Suc n) (fst (ai_debug_autofix (ai_debug_scan v d) t a))"
proof -
  let ?pct = "(sc_heap_used v * 100) div sc_heap_cap v"
  define sev where "sev = (if 90 < ?pct then 2 else 1 :: u8)"
  let ?i = "\<lparr>is_type = ISSUE_MEM_LEAK, is_severity = sev, is_timestamp = ucast (sc_now v), is_count = 1,
     is_details = [?pct, sc_heap_used v, sc_heap_cap v, 0]\<rparr>"
  define d0 where "d0 = d\<lparr>scan_count := scan_count d + 1\<rparr>"
  define d1 where "d1 = d0\<lparr>issues := (issues d0)[n := ?i], issue_count := issue_count d0 + 1, total_issues := total_issues d0 + 1\<rparr>"
  have c0: "cleared n d0" using c by (simp add: d0_def cleared_def)
  have u: "unat (issue_count d0) = n" "length (issues d0) = 16" "dbg_enabled d0" "auto_fix d0" using c0 by (simp_all add: cleared_def)
  have lt: "issue_count d0 < 16" using u(1) n by (simp add: word_less_nat_alt)
  have "add_issue ISSUE_MEM_LEAK sev [?pct, sc_heap_used v, sc_heap_cap v, 0] (sc_now v) d0 = d1"
    using first_slot_cleared [OF c0, of ISSUE_MEM_LEAK] n lt u(1) by (simp add: add_issue_def d1_def)
  moreover have "\<not> 10 < sc_inferences v" "\<not> 20 < sc_inferences v" "\<not> sc_hz v < 50"
    using v(3,4) by (auto simp: word_le_nat_alt word_less_nat_alt)
  ultimately have scan: "ai_debug_scan v d = d1"
    using v(1,2) u(3)
    by (auto simp: ai_debug_scan_def d0_def scan_memory_def scan_errors_def sev_def Let_def split: if_splits)
  have u1: "unat (issue_count d1) = Suc n" using u(1) n by (simp add: d1_def unat_Suc_word)
  have "k \<le> n \<Longrightarrow> foldl (\<lambda>(highest, best) i. if highest < is_severity (issues d1 ! i) then (is_severity (issues d1 ! i), i)
      else (highest, best)) (0, 0) [0..<k] = (0, 0)" for k
    by (induction k) (use c0 n u in \<open>auto simp: cleared_def d1_def\<close>)
  then have idx: "find_issue_to_fix d1 = n"
    using u n by (simp add: find_issue_to_fix_def u1) (simp add: d1_def sev_def)
  have ty: "is_type (issues d1 ! n) = ISSUE_MEM_LEAK" using n u(2) by (simp add: d1_def)
  have nz: "issue_count d1 \<noteq> 0" using u1 by auto
  have keep: "issues (add_fix p q r w e) = issues e" "issue_count (add_fix p q r w e) = issue_count e"
      "dbg_enabled (add_fix p q r w e) = dbg_enabled e" "auto_fix (add_fix p q r w e) = auto_fix e" for p q r w e
    by (simp_all add: add_fix_def Let_def)
  have "dbg_enabled d1" "auto_fix d1" using u by (simp_all add: d1_def)
  then have "fst (ai_debug_autofix d1 t a) = (add_fix 1 2 1 (timer_get_ticks t) d1)
      \<lparr>issues := (issues d1)[n := (issues d1 ! n)\<lparr>is_type := ISSUE_NONE, is_severity := 0\<rparr>]\<rparr>"
    using nz by (simp add: ai_debug_autofix_def idx ty determine_fix_def apply_fix_def Let_def keep)
  then show ?thesis
    using c0 u n u1 \<open>dbg_enabled d1\<close> \<open>auto_fix d1\<close>
    by (auto simp: scan cleared_def keep less_Suc_eq) (simp_all add: d1_def)
qed

section \<open>Properties\<close>

definition debug_rounds :: "(scan_input \<times> timer \<times> ai_state) list \<Rightarrow> ai_debug \<Rightarrow> ai_debug" where
  "debug_rounds rs d = foldl (\<lambda>d (v, t, a). fst (ai_debug_autofix (ai_debug_scan v d) t a)) d rs"

definition heap_alarm :: "scan_input \<Rightarrow> bool" where
  "heap_alarm v \<longleftrightarrow> 75 < (sc_heap_used v * 100) div sc_heap_cap v \<and> 0 < sc_heap_cap v \<and> sc_inferences v \<le> 10 \<and> 50 \<le> sc_hz v"

lemma rounds_cleared:
  "cleared n d \<Longrightarrow> n + length rs \<le> 16 \<Longrightarrow> list_all (\<lambda>(v, t, a). heap_alarm v) rs \<Longrightarrow>
     cleared (n + length rs) (debug_rounds rs d)"
proof (induction rs arbitrary: n d)
  case (Cons r rs)
  obtain v t a where r: "r = (v, t, a)" by (cases r)
  have "cleared (Suc n) (fst (ai_debug_autofix (ai_debug_scan v d) t a))"
    using Cons.prems by (intro round_cleared) (simp_all add: r heap_alarm_def)
  from Cons.IH [OF this] Cons.prems show ?case by (simp add: debug_rounds_def r)
qed (simp add: debug_rounds_def)

text \<open>
  The debugger goes blind: after sixteen scans that each find the heap nearly full and fix it, the issue table is
  full of cleared slots; from then on no scan, whatever it finds, records an issue and no fix is applied.
\<close>

theorem debug_table_exhausted:
  assumes "length (issues d) = 16" "length rs = 16" "list_all (\<lambda>(v, t, a). heap_alarm v) rs"
    and "d' = debug_rounds rs (fst (ai_debug_init d))"
  shows "\<forall>v t a. issues (ai_debug_scan v d') = issues d' \<and> total_issues (ai_debug_scan v d') = total_issues d'
    \<and> ai_debug_autofix (ai_debug_scan v d') t a = (ai_debug_scan v d', t, a, [])"
proof -
  have "cleared 0 (fst (ai_debug_init d))" using assms(1) by (simp add: cleared_def ai_debug_init_def)
  from rounds_cleared [OF this _ assms(3)] have c: "cleared 16 d'" using assms(2,4) by simp
  then have "cleared 16 (ai_debug_scan v d')" for v using scan_full [OF c, of v] by (simp add: cleared_def)
  from autofix_cleared [OF this] show ?thesis using scan_full [OF c] by simp
qed

definition debug_statics :: ai_debug where
  "debug_statics =
     \<lparr>issues = replicate 16 \<lparr>is_type = 0, is_severity = 0, is_timestamp = 0, is_count = 0, is_details = [0, 0, 0, 0]\<rparr>,
      dbg_fixes = replicate 8 \<lparr>fx_issue = 0, fx_type = 0, fx_success = 0, fx_timestamp = 0\<rparr>,
      issue_count = 0, fix_count = 0, scan_count = 0, total_issues = 0, total_fixes = 0, dbg_enabled = False, auto_fix = False\<rparr>"

definition alarm_example :: scan_input where
  "alarm_example = \<lparr>sc_heap_used = 95, sc_heap_cap = 100, sc_errors = 0, sc_inferences = 5, sc_hz = 100,
     sc_cmt_level = 1, sc_cmt_errors = 0, sc_now = 7\<rparr>"

definition timer_statics :: timer where
  "timer_statics = \<lparr>timer_ticks = 0, timer_callback = None, timer_hz = 100, cntfrq = 62500000, cntv_tval = 0, cntv_ctl = 0\<rparr>"

theorem debug_table_exhausted_witness:
  "issues (ai_debug_scan alarm_example (debug_rounds (replicate 16 (alarm_example, timer_statics, ai_statics)) (fst (ai_debug_init debug_statics))))
   = issues (debug_rounds (replicate 16 (alarm_example, timer_statics, ai_statics)) (fst (ai_debug_init debug_statics)))"
proof -
  have "length (issues debug_statics) = 16" "heap_alarm alarm_example" by (simp_all add: debug_statics_def heap_alarm_def alarm_example_def)
  then show ?thesis
    using debug_table_exhausted [of debug_statics "replicate 16 (alarm_example, timer_statics, ai_statics)", OF _ _ _ refl]
    by (auto simp: list_all_iff)
qed

end
