(* ===== verification/Ai.thy ===== *)
theory Ai
  imports AiLearn AiDebug Cmt Sched Heap Pmm
begin

text \<open>
  The AI engine at work, \<^verbatim>\<open>src/kernel/ai_api.c\<close>: initialisation, the tick entry point with one
  perceive-decide-act-learn cycle every 50 ticks, and the report, composed with the timer interrupt, the CMT engine, the
  learning engine, the debugger, the heap, the page allocator and the scheduler's tick.
\<close>

section \<open>The kernel state the engine works on\<close>

record ai_sys =
  ai :: ai_state
  learn :: ai_learn
  dbg :: ai_debug
  cmt :: cmt_engine
  sys_heap :: heap
  sys_pmm :: pmm
  sys_sched :: sched
  sched_out :: "hw_effect list"
  timer_fired :: int

type_synonym kernel = "ai_sys machine"

definition upd_ai :: "(ai_state \<Rightarrow> ai_state) \<Rightarrow> kernel \<Rightarrow> kernel" where
  "upd_ai f m = m\<lparr>sub := (sub m)\<lparr>ai := f (ai (sub m))\<rparr>\<rparr>"

definition metrics_of :: "ai_sys \<Rightarrow> metrics" where
  "metrics_of s =
     \<lparr>heap_used_now = ucast (heap_get_used (sys_heap s)), heap_cap_now = ucast heap_get_capacity,
      pages_free_now = ucast (pmm_get_free_pages (sys_pmm s)), pages_total_now = ucast (pmm_get_total_pages (sys_pmm s))\<rparr>"

definition counters_of :: "ai_state \<Rightarrow> ai_counters" where
  "counters_of a = \<lparr>ctr_inferences = ai_inference_count a, ctr_errors = ai_error_count a, ctr_action = ai_last_action a\<rparr>"

section \<open>One cycle\<close>

definition heap_pct :: "metrics \<Rightarrow> u32" where
  "heap_pct v = (if 0 < heap_cap_now v then (heap_used_now v * 100) div heap_cap_now v else 0)"

definition page_pct :: "metrics \<Rightarrow> u32" where
  "page_pct v =
     (if 0 < pages_total_now v then ((pages_total_now v - pages_free_now v) * 100) div pages_total_now v else 0)"

definition ai_select :: "metrics \<Rightarrow> ai_state \<Rightarrow> ai_learn \<Rightarrow> u8 \<times> int" where
  "ai_select v a l =
     (let state = ai_learn_get_state (heap_pct v) (page_pct v) (errors a);
          action = uint (ai_learn_choose_action state l);
          x = ai_perceive (ticks_since_infer a) (heap_used_now v) (heap_cap_now v) (pages_free_now v) (pages_total_now v);
          nn_action = ai_decide x
      in (state, if action = AI_ACT_SUSTAIN \<and> nn_action \<noteq> AI_ACT_SUSTAIN then nn_action else action))"

definition ai_commit :: "int \<Rightarrow> int \<Rightarrow> ai_state \<Rightarrow> ai_state" where
  "ai_commit action level a =
     (let a = a\<lparr>ai_hz := ai_act action level (ai_hz a), ai_action := word_of_int action, inferences := inferences a + 1\<rparr>
      in ai_hist_push \<lparr>ah_tick = ticks_total a, ah_action = word_of_int action\<rparr> a)"

definition ai_teach :: "metrics \<Rightarrow> u8 \<Rightarrow> int \<Rightarrow> ai_state \<Rightarrow> ai_learn \<Rightarrow> ai_learn" where
  "ai_teach v state action a l =
     (let reward = ai_learn_calculate_reward (heap_pct v) (page_pct v) (errors a) (inferences a);
          next_state = ai_learn_get_state (heap_pct v) (page_pct v) (errors a);
          l = ai_learn_store state (word_of_int action) reward next_state l
      in if inferences a mod 10 = 0 then ai_learn_update l else l)"

definition scan_of :: "kernel \<Rightarrow> scan_input" where
  "scan_of m =
     (let s = sub m in
      \<lparr>sc_heap_used = ucast (heap_get_used (sys_heap s)), sc_heap_cap = ucast heap_get_capacity,
       sc_errors = ai_error_count (ai s), sc_inferences = ai_inference_count (ai s), sc_hz = ai_current_hz (ai s),
       sc_cmt_level = word_of_int (cmt_consciousness_level (cmt s)), sc_cmt_errors = cmt_error_count (cmt s),
       sc_now = timer_get_ticks (tmr m)\<rparr>)"

definition ai_selfcheck :: "kernel \<Rightarrow> kernel" where
  "ai_selfcheck m =
     (let d = ai_debug_scan (scan_of m) (dbg (sub m)) in
      case ai_debug_autofix d (tmr m) (ai (sub m)) of (d, t, a, out) \<Rightarrow>
        say out (m\<lparr>tmr := t, sub := (sub m)\<lparr>ai := a, dbg := d\<rparr>\<rparr>))"

definition ai_trace :: "int \<Rightarrow> int \<Rightarrow> ai_state \<Rightarrow> bytes" where
  "ai_trace level action a =
     uart_puts_nolf (str ''[ai] t='') @ uart_dec (ucast (ticks_total a))
     @ uart_puts_nolf (str '' C='') @ uart_dec (word_of_int level)
     @ uart_puts_nolf (str '' L='') @ uart_dec (word_of_int action)
     @ uart_puts_nolf (str '' -> '') @ uart_puts (ai_core_action_name action)
     @ uart_puts_nolf (str ''[ai] policy '') @ uart_dec (ucast (ai_hz a)) @ uart_puts (str '' Hz'')"

definition ai_infer :: "kernel \<Rightarrow> kernel" where
  "ai_infer m =
     (let m = upd_ai (\<lambda>a. a\<lparr>ticks_since_infer := 0\<rparr>) m;
          v = metrics_of (sub m);
          (state, action) = ai_select v (ai (sub m)) (learn (sub m));
          level = cmt_consciousness_level (cmt (sub m));
          m = upd_ai (ai_commit action level) m;
          m = m\<lparr>tmr := timer_set_hz (ai_hz (ai (sub m))) (tmr m),
                sub := (sub m)\<lparr>learn := ai_teach v state action (ai (sub m)) (learn (sub m))\<rparr>\<rparr>;
          m = (if inferences (ai (sub m)) mod 20 = 0 then ai_selfcheck m else m)
      in if ai_verbose (ai (sub m)) then say (ai_trace level action (ai (sub m))) m else m)"

section \<open>Entry points\<close>

definition ai_init :: "kernel \<Rightarrow> kernel" where
  "ai_init m =
     (let m = upd_ai (\<lambda>a. a\<lparr>ai_magic := AI_MAGIC, ticks_total := 0, ticks_since_infer := 0, inferences := 0, errors := 0,
                              ai_hz := 100, ai_action := 0, ai_disabled := False, ai_verbose := False, in_tick := False,
                              ai_hist_count := 0\<rparr>) m;
          (l, out1) = ai_learn_init (learn (sub m));
          (d, out2) = ai_debug_init (dbg (sub m));
          m = say (out1 @ out2) (m\<lparr>sub := (sub m)\<lparr>learn := l, dbg := d\<rparr>\<rparr>)
      in snd (tick_subscribe (Some Ai_on_tick) m))"

definition ai_on_tick :: "kernel \<Rightarrow> kernel" where
  "ai_on_tick m =
     (let (ok, a) = ai_healthy (ai (sub m)); m = upd_ai (\<lambda>_. a) m in
      if \<not> ok then m
      else if in_tick a then m
      else
        (let m = upd_ai (\<lambda>a. a\<lparr>in_tick := True, ticks_total := ticks_total a + 1,
                                 ticks_since_infer := ticks_since_infer a + 1\<rparr>) m;
             (c, out) = cmt_on_tick (metrics_of (sub m)) (counters_of (ai (sub m))) (cmt (sub m));
             m = say out (m\<lparr>sub := (sub m)\<lparr>cmt := c\<rparr>\<rparr>);
             m = (if AI_PERIOD_TICKS \<le> ticks_since_infer (ai (sub m)) then ai_infer m else m)
         in upd_ai (\<lambda>a. a\<lparr>in_tick := False\<rparr>) m))"

definition ai_reset :: "kernel \<Rightarrow> kernel" where
  "ai_reset m = (let v = ai_verbose (ai (sub m)) in upd_ai (\<lambda>a. a\<lparr>ai_verbose := v\<rparr>) (ai_init m))"

definition ai_action_name :: "int \<Rightarrow> bytes" where
  "ai_action_name a = ai_core_action_name a"

definition ai_report_history :: "ai_state \<Rightarrow> bytes" where
  "ai_report_history a =
     (let n = (if ai_hist_count a < 16 then ai_hist_count a else 16); start = ai_hist_count a - n in
      if 0 < n then
        uart_puts (str ''  AI decisions:'')
        @ concat (map (\<lambda>i. (let e = ai_hist a ! unat ((start + of_nat i) mod 16) in
             uart_puts_nolf (str ''    t='') @ uart_dec (ucast (ah_tick e))
             @ uart_puts_nolf (str ''  '') @ uart_puts (ai_core_action_name (uint (ah_action e))))) [0..<unat n])
      else [])"

definition ai_report :: "ai_sys \<Rightarrow> bytes" where
  "ai_report s =
     (let a = ai s in
      uart_puts_nolf (str ''  AI healthy: '') @ uart_puts (if ai_is_healthy a then str ''yes'' else str ''NO (fail-safe latched)'')
      @ uart_puts_nolf (str ''  AI inferences: '') @ uart_dec (ucast (inferences a)) @ uart_puts []
      @ uart_puts_nolf (str ''  AI errors: '') @ uart_dec (ucast (errors a)) @ uart_puts []
      @ uart_puts_nolf (str ''  AI last action: '') @ uart_puts (ai_core_action_name (uint (ai_action a)))
      @ uart_puts_nolf (str ''  AI timer policy: '') @ uart_dec (ucast (ai_hz a)) @ uart_puts (str '' Hz'')
      @ ai_report_history a @ ai_learn_report (learn s) @ ai_debug_report (dbg s))"

text \<open>The functions behind the pointers of the tick registry and of the timer callback.\<close>

fun run_fn :: "kernel_fn \<Rightarrow> kernel \<Rightarrow> kernel" where
  "run_fn Ai_on_tick m = ai_on_tick m"
| "run_fn Sched_on_tick m =
     (case sched_on_tick (sys_sched (sub m)) of (s, es) \<Rightarrow>
        m\<lparr>sub := (sub m)\<lparr>sys_sched := s, sched_out := sched_out (sub m) @ es\<rparr>\<rparr>)"
| "run_fn Test_timer_callback m = m\<lparr>sub := (sub m)\<lparr>timer_fired := i32 (timer_fired (sub m) + 1)\<rparr>\<rparr>"

definition timer_irq :: "kernel \<Rightarrow> kernel" where
  "timer_irq m = irq_handler_c run_fn 30 m"

section \<open>Invariant\<close>

definition policy_ok :: "ai_state \<Rightarrow> bool" where
  "policy_ok a \<longleftrightarrow> AI_HZ_MIN \<le> ai_hz a \<and> ai_hz a \<le> AI_HZ_MAX \<and> ai_action a \<le> 2 \<and> hist_wf a"

definition ctr :: "ai_state \<Rightarrow> int" where
  "ctr a = uint (inferences a) + uint (errors a)"

definition memory_ok :: "ai_sys \<Rightarrow> bool" where
  "memory_ok s \<longleftrightarrow> heap_inv (sys_heap s) \<and> pmm_inv (sys_pmm s) \<and> pmm_total_pages (sys_pmm s) = 32768"

definition kernel_inv :: "int \<Rightarrow> kernel \<Rightarrow> bool" where
  "kernel_inv n m \<longleftrightarrow> policy_ok (ai (sub m)) \<and> ctr (ai (sub m)) \<le> n \<and> learn_inv (learn (sub m)) \<and> cmt_inv (cmt (sub m))
     \<and> memory_ok (sub m) \<and> 10 \<le> timer_hz (tmr m) \<and> timer_hz (tmr m) \<le> 500 \<and> length (tick_tasks m) \<le> MAX_TICK_TASKS"

lemma upd_ai_simps [simp]:
  "sub (upd_ai f m) = (sub m)\<lparr>ai := f (ai (sub m))\<rparr>" "tmr (upd_ai f m) = tmr m"
  "tick_tasks (upd_ai f m) = tick_tasks m" "con (upd_ai f m) = con m"
  by (simp_all add: upd_ai_def)

lemma say_simps [simp]:
  "sub (say b m) = sub m" "tmr (say b m) = tmr m" "tick_tasks (say b m) = tick_tasks m"
  by (simp_all add: say_def)

lemma metrics_of_ok:
  assumes "memory_ok s"
  shows "metrics_ok (metrics_of s)"
proof -
  have "unat (heap_used (sys_heap s)) \<le> 0x1000000" using assms by (auto simp: memory_ok_def heap_inv_def)
  then have "(ucast (heap_used (sys_heap s)) :: u32) \<le> ucast heap_get_capacity"
    by (simp add: word_le_nat_alt unsigned_ucast_eq take_bit_nat_eq_self heap_get_capacity_def)
  moreover have "card (free_frames (pmm_bitmap (sys_pmm s))) \<le> card {..<FRAMES}"
    by (intro card_mono) (auto simp: free_frames_def)
  then have "unat (pmm_free_count (sys_pmm s)) \<le> 32768" using assms by (simp add: memory_ok_def pmm_inv_def)
  then have "(ucast (pmm_free_count (sys_pmm s)) :: u32) \<le> 32768"
    by (simp add: word_le_nat_alt unsigned_ucast_eq take_bit_nat_eq_self)
  ultimately show ?thesis
    using assms by (simp add: metrics_ok_def metrics_of_def heap_get_used_def pmm_get_free_pages_def pmm_get_total_pages_def memory_ok_def)
qed

lemma ctr_step: "uint (x + 1 :: u32) \<le> uint x + 1"
  by (simp add: uint_word_ariths zmod_le_nonneg_dividend)

lemma action_cases: "w \<le> (2 :: u8) \<Longrightarrow> uint w \<in> {0, 1, 2}"
proof -
  assume "w \<le> 2"
  then obtain x where x: "uint w = x" "0 \<le> x" "x \<le> 2" by (auto simp: word_le_def)
  have "x \<in> {0, 1, 2}" using x(2,3) by auto
  then show ?thesis by (simp only: x(1))
qed

lemma ai_select_range:
  assumes "ai_select v a l = (state, action)"
  shows "state < 8 \<and> action \<in> {0, 1, 2}"
proof -
  define x where "x = ai_perceive (ticks_since_infer a) (heap_used_now v) (heap_cap_now v) (pages_free_now v) (pages_total_now v)"
  define c where "c = ai_learn_choose_action state l"
  have s: "state = ai_learn_get_state (heap_pct v) (page_pct v) (errors a)"
    and act: "action = (if uint c = 0 \<and> ai_decide x \<noteq> 0 then ai_decide x else uint c)"
    using assms by (auto simp: ai_select_def Let_def x_def c_def)
  have "c \<le> 2" using ai_learn_choose_range [of state l] by (simp add: c_def word_less_nat_alt word_le_nat_alt)
  then have "uint c \<in> {0, 1, 2}" by (rule action_cases)
  then show ?thesis
    using act ai_decide_range [of x] ai_learn_get_state_range by (auto simp: s split: if_splits)
qed

lemma ai_commit_ok:
  assumes "policy_ok a" "action \<in> {0, 1, 2}"
  shows "policy_ok (ai_commit action level a) \<and> ctr (ai_commit action level a) \<le> ctr a + 1"
proof -
  have "(word_of_int action :: u8) \<le> 2" using assms(2) by auto
  then show ?thesis
    using assms(1) ai_act_range [of "ai_hz a" action level] ctr_step [of "inferences a"]
    by (simp add: policy_ok_def ai_commit_def ai_hist_push_def hist_wf_def ctr_def Let_def)
qed

lemma ai_teach_ok:
  assumes "learn_inv l" "state < 8" "action \<in> {0, 1, 2}"
  shows "learn_inv (ai_teach v state action a l)"
proof -
  have "(word_of_int action :: u8) < 3" using assms(3) by auto
  then have "learn_inv (ai_learn_store state (word_of_int action) r (ai_learn_get_state h p e) l)" if "\<bar>r\<bar> \<le> 32768" for r h p e
    using assms(1,2) ai_learn_get_state_range that by (intro learn_store_inv)
  then show ?thesis using learn_update_inv ai_learn_reward_range by (simp add: ai_teach_def Let_def)
qed

text \<open>A fix leaves the engine as it is or disables it, and leaves the timer as it is or sets a fixed rate.\<close>

lemma autofix_effect:
  assumes "ai_debug_autofix d t a = (d', t', a', out)"
  shows "(a' = a \<or> a' = ai_disable a) \<and> (t' = t \<or> t' = timer_set_hz 100 t \<or> t' = timer_set_hz 150 t)"
  using assms by (auto simp: ai_debug_autofix_def apply_fix_def Let_def split: if_splits)

lemma ai_selfcheck_inv:
  assumes "kernel_inv n m"
  shows "kernel_inv n (ai_selfcheck m) \<and> tick_tasks (ai_selfcheck m) = tick_tasks m"
proof -
  obtain d t a out where f: "ai_debug_autofix (ai_debug_scan (scan_of m) (dbg (sub m))) (tmr m) (ai (sub m)) = (d, t, a, out)"
    by (metis prod_cases4)
  have m: "ai_selfcheck m = say out (m\<lparr>tmr := t, sub := (sub m)\<lparr>ai := a, dbg := d\<rparr>\<rparr>)"
    by (simp add: ai_selfcheck_def f Let_def)
  have "10 \<le> timer_hz t \<and> timer_hz t \<le> 500" "policy_ok a" "ctr a = ctr (ai (sub m))"
    using autofix_effect [OF f] assms timer_set_hz_range [of _ "tmr m"]
    by (auto simp: kernel_inv_def ai_disable_def policy_ok_def hist_wf_def ctr_def)
  then show ?thesis using assms by (simp add: m kernel_inv_def memory_ok_def)
qed

lemma ai_infer_inv:
  assumes inv: "kernel_inv n m"
  shows "kernel_inv (n + 1) (ai_infer m) \<and> tick_tasks (ai_infer m) = tick_tasks m"
proof -
  define m0 where "m0 = upd_ai (\<lambda>a. a\<lparr>ticks_since_infer := 0\<rparr>) m"
  define v where "v = metrics_of (sub m0)"
  obtain state action where sel: "ai_select v (ai (sub m0)) (learn (sub m0)) = (state, action)"
    by (cases "ai_select v (ai (sub m0)) (learn (sub m0))")
  define level where "level = cmt_consciousness_level (cmt (sub m0))"
  define m1 where "m1 = upd_ai (ai_commit action level) m0"
  define m2 where "m2 = m1\<lparr>tmr := timer_set_hz (ai_hz (ai (sub m1))) (tmr m1),
      sub := (sub m1)\<lparr>learn := ai_teach v state action (ai (sub m1)) (learn (sub m1))\<rparr>\<rparr>"
  define m3 where "m3 = (if inferences (ai (sub m2)) mod 20 = 0 then ai_selfcheck m2 else m2)"
  have r: "state < 8" "action \<in> {0, 1, 2}" using ai_select_range [OF sel] by auto
  have i0: "kernel_inv n m0" using inv by (simp add: m0_def kernel_inv_def policy_ok_def hist_wf_def ctr_def memory_ok_def)
  then have "policy_ok (ai (sub m1)) \<and> ctr (ai (sub m1)) \<le> n + 1"
    using ai_commit_ok [OF _ r(2), of "ai (sub m0)" level] by (auto simp: m1_def kernel_inv_def)
  then have "kernel_inv (n + 1) m2"
    using i0 ai_teach_ok [OF _ r] timer_set_hz_range by (simp add: m2_def m1_def kernel_inv_def memory_ok_def)
  then have "kernel_inv (n + 1) m3 \<and> tick_tasks m3 = tick_tasks m"
    using ai_selfcheck_inv [of "n + 1" m2] by (auto simp: m3_def m2_def m1_def m0_def)
  moreover have "ai_infer m = (if ai_verbose (ai (sub m3)) then say (ai_trace level action (ai (sub m3))) m3 else m3)"
    unfolding ai_infer_def Let_def m0_def [symmetric] v_def [symmetric] sel level_def [symmetric] case_prod_conv
      m1_def [symmetric] m2_def [symmetric] m3_def [symmetric] ..
  ultimately show ?thesis by (auto simp: kernel_inv_def memory_ok_def)
qed

lemma ai_healthy_keeps:
  assumes "ai_healthy a = (ok, a')"
  shows "policy_ok a' = policy_ok a" "ctr a' \<le> ctr a + 1" "ok \<Longrightarrow> a' = a" "ok = ai_is_healthy a"
  using assms ctr_step [of "errors a"]
  by (auto simp: ai_healthy_def policy_ok_def hist_wf_def ctr_def ai_is_healthy_def split: if_splits)

lemma kernel_inv_mono: "kernel_inv n m \<Longrightarrow> n \<le> k \<Longrightarrow> kernel_inv k m"
  by (simp add: kernel_inv_def)

lemma kernel_inv_ai:
  assumes "kernel_inv n m" "policy_ok (f (ai (sub m)))" "ctr (f (ai (sub m))) \<le> k"
  shows "kernel_inv k (upd_ai f m)"
  using assms by (simp add: kernel_inv_def memory_ok_def)

lemma ai_on_tick_inv:
  assumes inv: "kernel_inv n m" and n: "n < 2 ^ 32"
  shows "kernel_inv (n + 1) (ai_on_tick m) \<and> tick_tasks (ai_on_tick m) = tick_tasks m"
proof -
  obtain ok a where h: "ai_healthy (ai (sub m)) = (ok, a)" by (cases "ai_healthy (ai (sub m))")
  note k = ai_healthy_keeps [OF h]
  define m0 where "m0 = upd_ai (\<lambda>_. a) m"
  have i0: "kernel_inv (n + 1) m0"
    unfolding m0_def using inv k(1,2) by (intro kernel_inv_ai [OF inv]) (auto simp: kernel_inv_def)
  show ?thesis
  proof (cases "ok \<and> \<not> in_tick a")
    case False
    then show ?thesis using i0 by (auto simp: ai_on_tick_def h m0_def Let_def)
  next
    case True
    then have a: "a = ai (sub m)" using k(3) by simp
    define m1 where "m1 = upd_ai (\<lambda>a. a\<lparr>in_tick := True, ticks_total := ticks_total a + 1,
        ticks_since_infer := ticks_since_infer a + 1\<rparr>) m0"
    obtain c out where c: "cmt_on_tick (metrics_of (sub m1)) (counters_of (ai (sub m1))) (cmt (sub m1)) = (c, out)"
      by (cases "cmt_on_tick (metrics_of (sub m1)) (counters_of (ai (sub m1))) (cmt (sub m1))")
    define m2 where "m2 = say out (m1\<lparr>sub := (sub m1)\<lparr>cmt := c\<rparr>\<rparr>)"
    define m3 where "m3 = (if AI_PERIOD_TICKS \<le> ticks_since_infer (ai (sub m2)) then ai_infer m2 else m2)"
    have i1: "kernel_inv n m1"
      using inv a by (simp add: m1_def m0_def kernel_inv_def policy_ok_def hist_wf_def ctr_def memory_ok_def)
    have "uint (ai_action (ai (sub m1))) \<in> {0, 1, 2}"
      using i1 by (intro action_cases) (simp add: kernel_inv_def policy_ok_def)
    then have "counters_ok (counters_of (ai (sub m1)))"
      using i1 n by (simp add: counters_ok_def counters_of_def ai_inference_count_def ai_error_count_def ai_last_action_def kernel_inv_def ctr_def)
    then have "cmt_inv c"
      using cmt_on_tick_inv [of "cmt (sub m1)" "metrics_of (sub m1)" "counters_of (ai (sub m1))"] i1 metrics_of_ok [of "sub m1"] c
      by (simp add: kernel_inv_def)
    then have i2: "kernel_inv n m2" using i1 by (simp add: m2_def kernel_inv_def memory_ok_def)
    then have "kernel_inv (n + 1) m3 \<and> tick_tasks m3 = tick_tasks m"
      using ai_infer_inv [OF i2] kernel_inv_mono [OF i2] by (auto simp: m3_def m2_def m1_def m0_def)
    moreover have "ai_on_tick m = upd_ai (\<lambda>a. a\<lparr>in_tick := False\<rparr>) m3"
      using True unfolding ai_on_tick_def Let_def h case_prod_conv m0_def [symmetric]
      by (simp only: simp_thms if_False m1_def [symmetric] c case_prod_conv m2_def [symmetric] m3_def [symmetric])
    ultimately show ?thesis
      by (auto simp: kernel_inv_def policy_ok_def hist_wf_def ctr_def memory_ok_def)
  qed
qed

section \<open>Interrupts and calls\<close>

lemma run_fn_inv:
  assumes "kernel_inv n m" "n < 2 ^ 32"
  shows "kernel_inv (n + 1) (run_fn f m)"
proof (cases f)
  case Ai_on_tick
  then show ?thesis using ai_on_tick_inv [OF assms] by simp
next
  case Sched_on_tick
  then show ?thesis using assms by (cases "sched_on_tick (sys_sched (sub m))") (simp add: kernel_inv_def memory_ok_def)
next
  case Test_timer_callback
  then show ?thesis using assms by (simp add: kernel_inv_def memory_ok_def)
qed

lemma dispatch_inv:
  "kernel_inv n m \<Longrightarrow> n + int k \<le> 2 ^ 32 \<Longrightarrow>
     kernel_inv (n + int k) (foldl (\<lambda>m i. if i < length (tick_tasks m) then run_fn (tick_tasks m ! i) m else m) m [0..<k])"
proof (induction k)
  case (Suc k)
  let ?m = "foldl (\<lambda>m i. if i < length (tick_tasks m) then run_fn (tick_tasks m ! i) m else m) m [0..<k]"
  have "kernel_inv (n + int k) ?m" using Suc by simp
  with run_fn_inv [OF this] Suc.prems(2) kernel_inv_mono [OF this, of "n + int (Suc k)"] show ?case
    by (simp add: add_ac)
qed simp

lemma timer_irq_eq:
  "timer_irq m = gic_end_of_interrupt 30
     (case timer_handler (tmr m) of (t, cb) \<Rightarrow>
        tick_dispatch run_fn (case cb of None \<Rightarrow> m\<lparr>tmr := t\<rparr> | Some f \<Rightarrow> run_fn f (m\<lparr>tmr := t\<rparr>)))"
  by (simp add: timer_irq_def irq_handler_c_def gic_acknowledge_irq_def Let_def split: prod.splits option.splits)

lemma timer_irq_inv:
  assumes "kernel_inv n m" "n + 5 \<le> 2 ^ 32"
  shows "kernel_inv (n + 5) (timer_irq m)"
proof -
  obtain t cb where h: "timer_handler (tmr m) = (t, cb)" by (cases "timer_handler (tmr m)")
  define m1 where "m1 = (case cb of None \<Rightarrow> m\<lparr>tmr := t\<rparr> | Some f \<Rightarrow> run_fn f (m\<lparr>tmr := t\<rparr>))"
  have "timer_hz t = timer_hz (tmr m)" using timer_handler_hz [of "tmr m"] by (simp add: h)
  then have "kernel_inv n (m\<lparr>tmr := t\<rparr>)" using assms(1) by (simp add: kernel_inv_def memory_ok_def)
  from run_fn_inv [OF this] kernel_inv_mono [OF this] have "kernel_inv (n + 1) m1"
    using assms(2) by (auto simp: m1_def split: option.splits)
  from dispatch_inv [OF this, of MAX_TICK_TASKS] have "kernel_inv (n + 5) (tick_dispatch run_fn m1)"
    using assms(2) by (simp add: tick_dispatch_def add.commute)
  moreover have "timer_irq m = gic_end_of_interrupt 30 (tick_dispatch run_fn m1)" by (simp add: timer_irq_eq h m1_def)
  ultimately show ?thesis by (simp add: gic_end_of_interrupt_def wr_reg_def kernel_inv_def memory_ok_def)
qed

datatype kernel_event =
    Ev_timer
  | Ev_ai_reset
  | Ev_ai_disable
  | Ev_ai_enable
  | Ev_ai_verbose int
  | Ev_kmalloc u64
  | Ev_pmm pmm_event

fun kernel_call :: "kernel \<Rightarrow> kernel_event \<Rightarrow> kernel" where
  "kernel_call m Ev_timer = timer_irq m"
| "kernel_call m Ev_ai_reset = ai_reset m"
| "kernel_call m Ev_ai_disable = upd_ai ai_disable m"
| "kernel_call m Ev_ai_enable = upd_ai ai_enable m"
| "kernel_call m (Ev_ai_verbose v) = upd_ai (ai_set_verbose v) m"
| "kernel_call m (Ev_kmalloc sz) = m\<lparr>sub := (sub m)\<lparr>sys_heap := fst (kmalloc sz (sys_heap (sub m)))\<rparr>\<rparr>"
| "kernel_call m (Ev_pmm e) = m\<lparr>sub := (sub m)\<lparr>sys_pmm := pmm_call (sys_pmm (sub m)) e\<rparr>\<rparr>"

fun event_ok :: "kernel_event \<Rightarrow> bool" where
  "event_ok (Ev_kmalloc sz) \<longleftrightarrow> sz \<le> 2 ^ 62"
| "event_ok _ \<longleftrightarrow> True"

lemma pmm_call_total: "pmm_total_pages (pmm_call s e) = pmm_total_pages s"
proof (cases e)
  case (Pmm_free_n a n)
  have "pmm_total_pages (foldl (\<lambda>s i. pmm_free_page (a + of_nat i * 4096) s) s is) = pmm_total_pages s" for s "is"
    by (induction "is" arbitrary: s) (simp_all add: pmm_free_page_def pmm_clear_frame_def Let_def)
  then show ?thesis using Pmm_free_n by (simp add: pmm_free_pages_def)
qed (auto simp: pmm_alloc_page_def pmm_alloc_pages_def pmm_free_page_def pmm_clear_frame_def Let_def split: option.splits)

lemma ai_init_inv:
  assumes "hist_wf (ai (sub m))" "cmt_inv (cmt (sub m))" "memory_ok (sub m)" "10 \<le> timer_hz (tmr m)" "timer_hz (tmr m) \<le> 500"
    and "length (tick_tasks m) \<le> MAX_TICK_TASKS"
  shows "kernel_inv 0 (ai_init m)"
proof -
  have "length (tick_tasks (snd (tick_subscribe f x))) \<le> 4" "sub (snd (tick_subscribe f x)) = sub x"
      "tmr (snd (tick_subscribe f x)) = tmr x" if "tick_tasks x = tick_tasks m" for f and x :: kernel
    using that assms(6) by (auto simp: tick_subscribe_def split: option.splits)
  then show ?thesis
    using assms learn_init_inv [of "learn (sub m)"]
    by (simp add: ai_init_def Let_def case_prod_beta kernel_inv_def policy_ok_def hist_wf_def ctr_def memory_ok_def)
qed

lemma kernel_call_inv:
  assumes "kernel_inv n m" "event_ok e" "0 \<le> n" "n + 5 \<le> 2 ^ 32"
  shows "kernel_inv (n + 5) (kernel_call m e)"
proof (cases e)
  case Ev_timer
  then show ?thesis using timer_irq_inv [OF assms(1,4)] by simp
next
  case Ev_ai_reset
  have "kernel_inv 0 (ai_init m)" using assms(1) by (intro ai_init_inv) (auto simp: kernel_inv_def policy_ok_def)
  then have "kernel_inv 0 (ai_reset m)"
    unfolding ai_reset_def Let_def by (intro kernel_inv_ai) (auto simp: kernel_inv_def policy_ok_def hist_wf_def ctr_def)
  then show ?thesis using kernel_inv_mono assms(3) Ev_ai_reset by simp
next
  case (Ev_kmalloc sz)
  obtain h p where k: "kmalloc sz (sys_heap (sub m)) = (h, p)" by (cases "kmalloc sz (sys_heap (sub m))")
  have "heap_inv h"
  proof (cases "sz = 0")
    case True
    then show ?thesis using k assms(1) by (simp add: kmalloc_def kernel_inv_def memory_ok_def)
  next
    case False
    then have "0 < unat sz" "unat sz \<le> 2 ^ 62" using assms(2) Ev_kmalloc by (simp_all add: unat_gt_0 word_le_nat_alt)
    then show ?thesis using kmalloc_spec [OF _ _ _ k] assms(1) by (auto simp: kernel_inv_def memory_ok_def)
  qed
  then show ?thesis using assms(1) Ev_kmalloc k by (simp add: kernel_inv_def memory_ok_def)
next
  case (Ev_pmm e)
  then show ?thesis
    using assms(1) pmm_call_inv [of "sys_pmm (sub m)"] by (simp add: kernel_inv_def memory_ok_def pmm_call_total)
qed (use assms in \<open>auto simp: kernel_inv_def policy_ok_def hist_wf_def ctr_def memory_ok_def ai_disable_def ai_enable_def ai_set_verbose_def\<close>)

lemma kernel_run_inv:
  "kernel_inv n m \<Longrightarrow> list_all event_ok es \<Longrightarrow> 0 \<le> n \<Longrightarrow> n + 5 * int (length es) \<le> 2 ^ 32 \<Longrightarrow>
     kernel_inv (n + 5 * int (length es)) (foldl kernel_call m es)"
proof (induction es arbitrary: n m)
  case (Cons e es)
  have "kernel_inv (n + 5) (kernel_call m e)" using Cons.prems by (intro kernel_call_inv) simp_all
  from Cons.IH [OF this] Cons.prems show ?case by (simp add: algebra_simps)
qed simp

section \<open>Ticks per interrupt\<close>

lemma run_fn_tasks: "tick_tasks (run_fn f m) = tick_tasks m"
proof -
  have check: "tick_tasks (ai_selfcheck m) = tick_tasks m" for m
    by (simp add: ai_selfcheck_def Let_def split: prod.splits)
  have infer: "tick_tasks (ai_infer m) = tick_tasks m" for m
    by (simp add: ai_infer_def Let_def case_prod_beta check)
  have "tick_tasks (ai_on_tick m) = tick_tasks m"
    by (simp add: ai_on_tick_def Let_def case_prod_beta infer)
  then show ?thesis by (cases f) (simp_all split: prod.splits)
qed

definition between :: "nat \<Rightarrow> kernel \<Rightarrow> bool" where
  "between k m \<longleftrightarrow> ai_is_healthy (ai (sub m)) \<and> \<not> in_tick (ai (sub m)) \<and> unat (ticks_since_infer (ai (sub m))) + k < 50"

lemma run_fn_between:
  assumes "between (Suc k) m"
  shows "between k (run_fn f m)
    \<and> ticks_total (ai (sub (run_fn f m))) = ticks_total (ai (sub m)) + (if f = Ai_on_tick then 1 else 0)"
proof (cases f)
  case Ai_on_tick
  let ?a = "ai (sub m)"
  have h: "ai_healthy ?a = (True, ?a)" using assms by (auto simp: between_def ai_is_healthy_def ai_healthy_def)
  have s: "unat (ticks_since_infer ?a + 1) = Suc (unat (ticks_since_infer ?a))"
    using assms by (intro unat_Suc_word) (simp add: between_def)
  then have n: "\<not> 50 \<le> ticks_since_infer ?a + 1" using assms by (simp add: between_def word_le_nat_alt)
  have "ai (sub (ai_on_tick m)) = ?a\<lparr>in_tick := False, ticks_total := ticks_total ?a + 1,
      ticks_since_infer := ticks_since_infer ?a + 1\<rparr>"
    using assms n by (simp add: ai_on_tick_def h Let_def case_prod_beta between_def)
  then show ?thesis using Ai_on_tick assms s by (simp add: between_def ai_is_healthy_def)
qed (use assms in \<open>auto simp: between_def split: prod.splits\<close>)

lemma fold_between:
  "between (k + length fs) m \<Longrightarrow> ticks_total (ai (sub (foldl (\<lambda>m f. run_fn f m) m fs)))
     = ticks_total (ai (sub m)) + of_nat (count_list fs Ai_on_tick)"
proof (induction fs arbitrary: m)
  case (Cons f fs)
  note r = run_fn_between [of "k + length fs" m f]
  have "between (k + length fs) (run_fn f m)" using r Cons.prems by simp
  from Cons.IH [OF this] show ?case using r Cons.prems by simp
qed simp

section \<open>The fail-safe\<close>

definition frozen :: "kernel \<Rightarrow> kernel \<Rightarrow> bool" where
  "frozen m m' \<longleftrightarrow> \<not> ai_is_healthy (ai (sub m')) \<and> learn (sub m') = learn (sub m) \<and> cmt (sub m') = cmt (sub m)
     \<and> dbg (sub m') = dbg (sub m) \<and> ai_hz (ai (sub m')) = ai_hz (ai (sub m)) \<and> inferences (ai (sub m')) = inferences (ai (sub m))
     \<and> hist_view (ai (sub m')) = hist_view (ai (sub m)) \<and> timer_hz (tmr m') = timer_hz (tmr m)"

lemma frozen_trans: "frozen a b \<Longrightarrow> frozen b c \<Longrightarrow> frozen a c"
  by (simp add: frozen_def)

lemma frozen_refl: "\<not> ai_is_healthy (ai (sub m)) \<Longrightarrow> frozen m m"
  by (simp add: frozen_def)

lemma run_fn_frozen: "\<not> ai_is_healthy (ai (sub m)) \<Longrightarrow> frozen m (run_fn f m)"
proof (cases f)
  case Ai_on_tick
  assume "\<not> ai_is_healthy (ai (sub m))"
  then show ?thesis
    using Ai_on_tick by (auto simp: frozen_def ai_on_tick_def ai_healthy_def ai_is_healthy_def hist_view_def Let_def)
qed (auto simp: frozen_def split: prod.splits)

lemma dispatch_frozen:
  "\<not> ai_is_healthy (ai (sub m)) \<Longrightarrow>
     frozen m (foldl (\<lambda>m i. if i < length (tick_tasks m) then run_fn (tick_tasks m ! i) m else m) m is)"
proof (induction "is" rule: rev_induct)
  case (snoc i "is")
  then show ?case using run_fn_frozen frozen_trans by (auto simp: frozen_def)
qed (simp add: frozen_refl)

lemma timer_irq_frozen:
  assumes "\<not> ai_is_healthy (ai (sub m))"
  shows "frozen m (timer_irq m)"
proof -
  obtain t cb where h: "timer_handler (tmr m) = (t, cb)" by (cases "timer_handler (tmr m)")
  define m1 where "m1 = (case cb of None \<Rightarrow> m\<lparr>tmr := t\<rparr> | Some f \<Rightarrow> run_fn f (m\<lparr>tmr := t\<rparr>))"
  have "timer_hz t = timer_hz (tmr m)" using timer_handler_hz [of "tmr m"] by (simp add: h)
  then have "frozen m (m\<lparr>tmr := t\<rparr>)" using assms by (simp add: frozen_def)
  moreover have "\<not> ai_is_healthy (ai (sub (m\<lparr>tmr := t\<rparr>)))" using assms by simp
  note run_fn_frozen [OF this]
  ultimately have f1: "frozen m m1" using frozen_trans by (auto simp: m1_def split: option.splits)
  then have "frozen m1 (tick_dispatch run_fn m1)"
    unfolding tick_dispatch_def by (intro dispatch_frozen) (simp add: frozen_def)
  from frozen_trans [OF f1 this] show ?thesis
    by (simp add: timer_irq_eq h m1_def frozen_def gic_end_of_interrupt_def wr_reg_def)
qed

section \<open>Properties\<close>

text \<open>The AI and CMT part of the boot sequence in \<^verbatim>\<open>kernel.c\<close>.\<close>

definition ai_boot :: "kernel \<Rightarrow> kernel" where
  "ai_boot m =
     (let m = say (uart_puts [] @ uart_puts (str ''[1/5] Initializing AI engine...'')) m;
          m = ai_init m;
          m = say (uart_puts (str ''  Fixed-point MLP ready (3-8-3, Q16.16)'')
                @ uart_puts (str ''  Subscribed to timer ticks (perceive-decide-act)'')
                @ uart_puts [] @ uart_puts (str ''[2/5] Initializing CMT engine...'')) m;
          (c, out) = cmt_init (cmt (sub m));
          m = say out (m\<lparr>sub := (sub m)\<lparr>cmt := c\<rparr>\<rparr>)
      in say (uart_puts (str ''  Consciousness Manifold Theory (6-12-3, Q16.16)'')
           @ uart_puts (str ''  C = E_f : 6 inputs -> IM -> T -> E_f -> C'')
           @ uart_puts (str ''  Subscribed to timer ticks (perceive-transform-experience-consciously)'')) m)"

definition kernel_start :: "kernel \<Rightarrow> bool" where
  "kernel_start m \<longleftrightarrow> hist_wf (ai (sub m)) \<and> cmt_inv (cmt (sub m)) \<and> memory_ok (sub m) \<and> timer_hz (tmr m) = 100
     \<and> length (tick_tasks m) \<le> MAX_TICK_TASKS"

lemma ai_boot_inv:
  assumes "kernel_start m"
  shows "kernel_inv 0 (ai_boot m)"
proof -
  have "kernel_inv 0 (ai_init (say b m))" for b using assms by (intro ai_init_inv) (simp_all add: kernel_start_def)
  then show ?thesis
    using cmt_init_inv by (simp add: ai_boot_def Let_def case_prod_beta kernel_inv_def memory_ok_def)
qed

text \<open>
  C10. The policy engine stays inside its bounds: after the boot of the AI and CMT engines and any sequence of timer
  interrupts, engine resets, enables and disables, heap allocations and page allocations and frees, the policy rate is
  between 20 and 200 Hz, the timer rate between 10 and 500 Hz, the last action is one of the three actions, the
  consciousness level is at most 2 and every Q-value lies between -1.0 and 1.0.
\<close>

theorem ai_policy_bounds:
  assumes "kernel_start m" "list_all event_ok es" "5 * int (length es) \<le> 2 ^ 32" "m' = foldl kernel_call (ai_boot m) es"
  shows "AI_HZ_MIN \<le> ai_current_hz (ai (sub m')) \<and> ai_current_hz (ai (sub m')) \<le> AI_HZ_MAX
    \<and> 10 \<le> timer_get_hz (tmr m') \<and> timer_get_hz (tmr m') \<le> 500
    \<and> (ai_last_action (ai (sub m')) = 0 \<or> ai_last_action (ai (sub m')) = 1 \<or> ai_last_action (ai (sub m')) = 2)
    \<and> cmt_consciousness_level (cmt (sub m')) \<le> 2
    \<and> \<bar>ai_learn_get_q_value state action (learn (sub m'))\<bar> \<le> 65536"
proof -
  have i: "kernel_inv (5 * int (length es)) m'"
    using kernel_run_inv [OF ai_boot_inv [OF assms(1)] assms(2)] assms(3,4) by simp
  then have "ai_last_action (ai (sub m')) \<in> {0, 1, 2}"
    unfolding ai_last_action_def by (intro action_cases) (simp add: kernel_inv_def policy_ok_def)
  moreover have "cmt_consciousness_level (cmt (sub m')) \<le> 2"
    using i by (simp add: kernel_inv_def cmt_inv_def cmt_consciousness_level_def word_le_def)
  moreover have "\<bar>ai_learn_get_q_value state action (learn (sub m'))\<bar> \<le> 65536"
    using i q_okD(1) [of "q_table (learn (sub m'))" "unat state" "unat action"]
    by (auto simp: ai_learn_get_q_value_def kernel_inv_def learn_inv_def word_le_nat_alt not_le)
  ultimately show ?thesis
    using i by (simp add: kernel_inv_def policy_ok_def ai_current_hz_def timer_get_hz_def)
qed

definition kernel_statics :: kernel where
  "kernel_statics =
     \<lparr>tmr = timer_statics, tick_tasks = [Sched_on_tick], regs_out = [], con = [],
      sub = \<lparr>ai = ai_statics, learn = learn_example, dbg = debug_statics, cmt = cmt_statics,
             sys_heap = fst (heap_init \<lparr>heap_ptr = 0, heap_used = 0\<rparr>), sys_pmm = pmm_init pmm_statics,
             sys_sched = \<lparr>tasks = [], current = - 1, uptime = 0, watchdog_limit = 0\<rparr>, sched_out = [], timer_fired = 0\<rparr>\<rparr>"

lemma kernel_statics_start: "kernel_start kernel_statics"
proof -
  have "pmm_inv (pmm_init pmm_statics)" by (rule pmm_init_free) (simp add: pmm_statics_def)
  moreover have "pmm_total_pages (foldl pmm_clear_frame s fs) = pmm_total_pages s" for s fs
    by (induction fs arbitrary: s) (simp_all add: pmm_clear_frame_def)
  then have "pmm_total_pages (pmm_init s) = 32768" for s by (simp add: pmm_init_def Let_def)
  ultimately show ?thesis
    by (simp add: kernel_start_def kernel_statics_def hist_wf_def ai_statics_def cmt_inv_def cmt_statics_def memory_ok_def
        heap_init_def heap_inv_def timer_statics_def)
qed

theorem ai_policy_bounds_witness:
  "ai_current_hz (ai (sub (foldl kernel_call (ai_boot kernel_statics) [Ev_timer, Ev_kmalloc 64, Ev_ai_reset, Ev_timer]))) \<le> 200"
  using ai_policy_bounds [OF kernel_statics_start, of "[Ev_timer, Ev_kmalloc 64, Ev_ai_reset, Ev_timer]", OF _ _ refl, of 0 0]
  by (simp add: word_le_nat_alt)

text \<open>
  C15. The fail-safe holds: once the engine is disabled or its magic word is corrupted, no number of timer interrupts
  runs it; the policy rate, the timer rate, the Q-table, the CMT engine, the debugger and the decision history stay as
  they are, and the engine stays unhealthy until it is enabled or reset.
\<close>

theorem ai_failsafe_latched:
  assumes "\<not> ai_is_healthy (ai (sub m))" "m' = (timer_irq ^^ k) m"
  shows "\<not> ai_is_healthy (ai (sub m')) \<and> ai_current_hz (ai (sub m')) = ai_current_hz (ai (sub m))
    \<and> timer_get_hz (tmr m') = timer_get_hz (tmr m) \<and> ai_inference_count (ai (sub m')) = ai_inference_count (ai (sub m))
    \<and> learn (sub m') = learn (sub m) \<and> cmt (sub m') = cmt (sub m) \<and> dbg (sub m') = dbg (sub m)
    \<and> hist_view (ai (sub m')) = hist_view (ai (sub m))"
proof -
  have "frozen m ((timer_irq ^^ k) m)"
  proof (induction k)
    case (Suc k)
    then have "frozen ((timer_irq ^^ k) m) (timer_irq ((timer_irq ^^ k) m))"
      by (intro timer_irq_frozen) (simp add: frozen_def)
    from frozen_trans [OF Suc this] show ?case by simp
  qed (simp add: frozen_refl assms(1))
  then show ?thesis using assms(2) by (simp add: frozen_def ai_current_hz_def timer_get_hz_def ai_inference_count_def)
qed

theorem ai_failsafe_latched_witness:
  "timer_get_hz (tmr ((timer_irq ^^ 100) (upd_ai ai_disable kernel_statics))) = 100
   \<and> \<not> ai_is_healthy (ai (sub ((timer_irq ^^ 100) (upd_ai ai_disable kernel_statics))))"
proof -
  have "\<not> ai_is_healthy (ai (sub (upd_ai ai_disable kernel_statics)))" by (simp add: ai_is_healthy_def ai_disable_def)
  from ai_failsafe_latched [OF this refl, of 100] show ?thesis
    by (simp add: timer_get_hz_def kernel_statics_def timer_statics_def)
qed

text \<open>
  Every reset of the engine subscribes its tick function once more: \<open>ai_reset\<close> appends another entry to the tick
  registry while it has room, and one timer interrupt advances the tick count of a healthy engine by the number of its
  entries, so after resets the engine runs at a multiple of the timer rate.
\<close>

theorem ai_reset_resubscribes:
  assumes "ai_is_healthy (ai (sub m))" "\<not> in_tick (ai (sub m))" "unat (ticks_since_infer (ai (sub m))) < 45"
    and "length (tick_tasks m) \<le> MAX_TICK_TASKS" "timer_callback (tmr m) = None"
  shows "ticks_total (ai (sub (timer_irq m))) = ticks_total (ai (sub m)) + of_nat (count_list (tick_tasks m) Ai_on_tick)
    \<and> (length (tick_tasks m) < MAX_TICK_TASKS \<longrightarrow> tick_tasks (ai_reset m) = tick_tasks m @ [Ai_on_tick])"
proof -
  obtain t where h: "timer_handler (tmr m) = (t, None)"
    using assms(5) by (simp add: timer_handler_def timer_arm_def Let_def)
  have b: "between (0 + length (tick_tasks (m\<lparr>tmr := t\<rparr>))) (m\<lparr>tmr := t\<rparr>)" using assms by (simp add: between_def)
  have "tick_dispatch run_fn (m\<lparr>tmr := t\<rparr>) = foldl (\<lambda>m f. run_fn f m) (m\<lparr>tmr := t\<rparr>) (tick_tasks m)"
    using tick_dispatch_all [OF run_fn_tasks, of "m\<lparr>tmr := t\<rparr>"] assms(4) by simp
  then have "ticks_total (ai (sub (timer_irq m))) = ticks_total (ai (sub m)) + of_nat (count_list (tick_tasks m) Ai_on_tick)"
    using fold_between [OF b] by (simp add: timer_irq_eq h gic_end_of_interrupt_def wr_reg_def)
  moreover have "length (tick_tasks m) < MAX_TICK_TASKS \<longrightarrow> tick_tasks (ai_reset m) = tick_tasks m @ [Ai_on_tick]"
    by (simp add: ai_reset_def ai_init_def tick_subscribe_def Let_def case_prod_beta)
  ultimately show ?thesis by blast
qed

theorem ai_reset_resubscribes_witness:
  "ticks_total (ai (sub (timer_irq (ai_reset (ai_init kernel_statics))))) = 2"
proof -
  let ?m = "ai_reset (ai_init kernel_statics)"
  have m: "ai_is_healthy (ai (sub ?m))" "\<not> in_tick (ai (sub ?m))" "unat (ticks_since_infer (ai (sub ?m))) < 45"
      "tick_tasks ?m = [Sched_on_tick, Ai_on_tick, Ai_on_tick]" "timer_callback (tmr ?m) = None" "ticks_total (ai (sub ?m)) = 0"
    by (simp_all add: ai_reset_def ai_init_def tick_subscribe_def Let_def case_prod_beta kernel_statics_def
        timer_statics_def ai_is_healthy_def)
  then show ?thesis using ai_reset_resubscribes [of ?m] by simp
qed

end
