(* ===== verification/Sdk.thy ===== *)
theory Sdk
  imports AiCore
begin

text \<open>
  The host-side mirror of the kernel for the Python SDK, \<^verbatim>\<open>src/sdk/bindings/src/aeos_kernel.c\<close>: its own copy of the
  fixed-point helpers and of the policy network, the simulated timer and page accounting, and the exported calls.
\<close>

section \<open>State\<close>

record sdk_hist =
  sh_tick :: u64
  sh_action :: u8

record sdk =
  k_total_pages :: u32
  k_free_pages :: u32
  k_ticks :: u64
  k_hz :: u32
  k_inferences :: u32
  k_reads_since_inference :: u32
  k_last_action :: bytes
  sdk_history :: "sdk_hist list"
  sdk_hist_count :: u32
  ai_disabled_flag :: bool

section \<open>Fixed-point helpers and network\<close>

definition sdk_fp_mul :: "int \<Rightarrow> int \<Rightarrow> int" where
  "sdk_fp_mul a b = i32 (a * b div 65536)"

definition sdk_fp_from_ratio :: "u32 \<Rightarrow> u32 \<Rightarrow> int" where
  "sdk_fp_from_ratio num den = (if den = 0 then 0 else i32 (uint num * 65536 div uint den))"

definition sdk_fp_softsign :: "int \<Rightarrow> int" where
  "sdk_fp_softsign x =
     (let denom = i32 (65536 + (if x < 0 then i32 (- x) else x)) in i32 (x * 65536 sdiv denom))"

definition sdk_fp_clamp :: "int \<Rightarrow> int \<Rightarrow> int \<Rightarrow> int" where
  "sdk_fp_clamp x lo hi = (if x < lo then lo else if hi < x then hi else x)"

definition sdk_w1 :: "int list list" where
  "sdk_w1 =
     [[0, 0, 131072],
      [0, 0, - 131072],
      [131072, 0, 0],
      [0, 131072, 0],
      [32768, 32768, 0],
      [- 65536, - 65536, - 65536],
      [65536, 0, 65536],
      [0, 0, 0]]"

definition sdk_b1 :: "int list" where
  "sdk_b1 = [0, 0, - 65536, - 65536, 0, 32768, 0, 0]"

definition sdk_w2 :: "int list list" where
  "sdk_w2 =
     [[- 16384, - 16384, - 16384, - 16384, 32768, 32768, - 16384, 32768],
      [131072, - 131072, 0, 0, - 32768, - 32768, 131072, 0],
      [0, 131072, 131072, 131072, 32768, 0, - 32768, 0]]"

definition sdk_b2 :: "int list" where
  "sdk_b2 = [0, 0, 0]"

definition sdk_ai_perceive :: "sdk \<Rightarrow> int list" where
  "sdk_ai_perceive s =
     (let window = 50 in
      [sdk_fp_from_ratio (k_total_pages s - k_free_pages s) (k_total_pages s),
       sdk_fp_from_ratio (k_total_pages s - k_free_pages s) (k_total_pages s),
       sdk_fp_clamp (i32 (sdk_fp_from_ratio window 50 - 65536)) (- (2 * 65536)) (2 * 65536)])"

definition sdk_hidden :: "int list \<Rightarrow> int list" where
  "sdk_hidden x =
     map2 (\<lambda>w b. (let s = b;
                      s = i32 (s + sdk_fp_mul (w ! 0) (x ! 0));
                      s = i32 (s + sdk_fp_mul (w ! 1) (x ! 1));
                      s = i32 (s + sdk_fp_mul (w ! 2) (x ! 2))
                  in sdk_fp_softsign s)) sdk_w1 sdk_b1"

definition sdk_ai_decide :: "int list \<Rightarrow> nat" where
  "sdk_ai_decide x =
     (let hidden = sdk_hidden x;
          out = map2 (\<lambda>w b. sdk_fp_clamp (foldl (\<lambda>o' i. i32 (o' + sdk_fp_mul (w ! i) (hidden ! i))) b [0..<8])
                             (- (4 * 65536)) (4 * 65536)) sdk_w2 sdk_b2
      in foldl (\<lambda>best j. if out ! best < out ! j then j else best) 0 [0..<3])"

definition sdk_action_names :: "bytes list" where
  "sdk_action_names = [str ''SUSTAIN'', str ''BOOST'', str ''REST'']"

definition sdk_ai_act :: "nat \<Rightarrow> u32 \<Rightarrow> u32" where
  "sdk_ai_act action hz =
     (if action = 1 then (if hz + 25 \<le> 500 then hz + 25 else hz)
      else if action = 2 then (if 25 + 10 \<le> hz then hz - 25 else hz)
      else hz)"

definition sdk_ai_step :: "sdk \<Rightarrow> sdk" where
  "sdk_ai_step s =
     (let action = sdk_ai_decide (sdk_ai_perceive s) in
      s\<lparr>k_hz := sdk_ai_act action (k_hz s), k_last_action := sdk_action_names ! action, k_inferences := k_inferences s + 1\<rparr>)"

section \<open>Exported calls\<close>

definition aeos_memory_total_pages :: "sdk \<Rightarrow> u32" where
  "aeos_memory_total_pages s = k_total_pages s"

definition aeos_memory_free_pages :: "sdk \<Rightarrow> u32" where
  "aeos_memory_free_pages s = k_free_pages s"

definition aeos_timer_ticks :: "sdk \<Rightarrow> u64 \<times> sdk" where
  "aeos_timer_ticks s =
     (let s = s\<lparr>k_ticks := k_ticks s + ucast (k_hz s), k_reads_since_inference := k_reads_since_inference s + 1\<rparr>;
          s = (if 50 \<le> k_reads_since_inference s then sdk_ai_step (s\<lparr>k_reads_since_inference := 0\<rparr>) else s)
      in (k_ticks s, s))"

definition aeos_timer_hz :: "sdk \<Rightarrow> u32" where
  "aeos_timer_hz s = k_hz s"

definition aeos_ai_inference_count :: "sdk \<Rightarrow> u32" where
  "aeos_ai_inference_count s = k_inferences s"

definition aeos_ai_last_action :: "sdk \<Rightarrow> bytes" where
  "aeos_ai_last_action s = k_last_action s"

definition aeos_set_timer_hz :: "u32 \<Rightarrow> sdk \<Rightarrow> sdk" where
  "aeos_set_timer_hz hz s =
     (let hz = (if hz < 10 then 10 else hz); hz = (if 500 < hz then 500 else hz) in s\<lparr>k_hz := hz\<rparr>)"

definition aeos_sim_allocate_pages :: "u32 \<Rightarrow> sdk \<Rightarrow> sdk" where
  "aeos_sim_allocate_pages count s =
     (if count \<le> k_free_pages s then s\<lparr>k_free_pages := k_free_pages s - count\<rparr> else s)"

definition aeos_sim_reset :: "sdk \<Rightarrow> sdk" where
  "aeos_sim_reset s =
     s\<lparr>k_free_pages := k_total_pages s - 4608, k_ticks := 0, k_hz := 100, k_inferences := 0, k_reads_since_inference := 0,
       k_last_action := str ''SUSTAIN''\<rparr>"

definition aeos_ai_force_inference :: "sdk \<Rightarrow> sdk" where
  "aeos_ai_force_inference s =
     (if ai_disabled_flag s then s
      else
        (let r = sdk_fp_from_ratio (k_total_pages s - k_free_pages s) (k_total_pages s);
             action = sdk_ai_decide [r, r, 2 * 65536]
         in s\<lparr>k_hz := sdk_ai_act action (k_hz s), k_last_action := sdk_action_names ! action,
              k_inferences := k_inferences s + 1,
              sdk_history := (sdk_history s)[unat (sdk_hist_count s mod 16) := \<lparr>sh_tick = k_ticks s, sh_action = of_nat action\<rparr>],
              sdk_hist_count := sdk_hist_count s + 1\<rparr>))"

definition aeos_ai_get_history_count :: "sdk \<Rightarrow> int" where
  "aeos_ai_get_history_count s = (if sdk_hist_count s < 16 then i32 (uint (sdk_hist_count s)) else 16)"

definition sdk_hist_nth :: "int \<Rightarrow> sdk \<Rightarrow> sdk_hist" where
  "sdk_hist_nth idx s =
     (let start = (if sdk_hist_count s < 16 then 0 else sdk_hist_count s - 16)
      in sdk_history s ! unat ((start + word_of_int idx) mod 16))"

definition aeos_ai_get_history_tick :: "int \<Rightarrow> sdk \<Rightarrow> u64" where
  "aeos_ai_get_history_tick idx s =
     (if idx < 0 \<or> aeos_ai_get_history_count s \<le> idx then 0 else sh_tick (sdk_hist_nth idx s))"

definition aeos_ai_get_history_action :: "int \<Rightarrow> sdk \<Rightarrow> int" where
  "aeos_ai_get_history_action idx s =
     (if idx < 0 \<or> aeos_ai_get_history_count s \<le> idx then - 1 else uint (sh_action (sdk_hist_nth idx s)))"

definition aeos_ai_is_healthy :: "sdk \<Rightarrow> bool" where
  "aeos_ai_is_healthy s \<longleftrightarrow> \<not> ai_disabled_flag s"

definition aeos_ai_disable :: "sdk \<Rightarrow> sdk" where
  "aeos_ai_disable s = s\<lparr>ai_disabled_flag := True\<rparr>"

definition aeos_ai_enable :: "sdk \<Rightarrow> sdk" where
  "aeos_ai_enable s = s\<lparr>ai_disabled_flag := False\<rparr>"

section \<open>The mirror and the kernel\<close>

lemma sdk_helpers:
  "sdk_fp_mul = fp_mul" "sdk_fp_from_ratio = fp_from_ratio" "sdk_fp_clamp = fp_clamp"
  "sdk_w1 = ai_w1" "sdk_b1 = ai_b1" "sdk_w2 = ai_w2" "sdk_b2 = ai_b2"
  by (simp_all add: fun_eq_iff sdk_fp_mul_def fp_mul_def sdk_fp_from_ratio_def fp_from_ratio_def sdk_fp_clamp_def fp_clamp_def
      sdk_w1_def ai_w1_def sdk_b1_def ai_b1_def sdk_w2_def ai_w2_def sdk_b2_def ai_b2_def)

text \<open>The two forms of softsign differ in the magnitude they take of the smallest integer, and agree on every value.\<close>

lemma sdk_softsign:
  assumes "- 2147483648 \<le> x" "x < 2147483648"
  shows "sdk_fp_softsign x = fp_softsign x"
proof (cases "x < 0")
  case True
  have u: "uint (word_of_int (- x) :: u32) = - x" using assms True by (simp only: uint_word_of_int) simp
  have w: "word_of_int (- (x + 1)) + 1 = (word_of_int (- x) :: u32)" by simp
  show ?thesis unfolding sdk_fp_softsign_def fp_softsign_def Let_def FP_ONE_def using True by (simp only: if_True w u)
next
  case False
  have u: "uint (word_of_int x :: u32) = x" using assms False by (simp only: uint_word_of_int) simp
  have i: "i32 x = x" using assms by (rule i32_id)
  show ?thesis unfolding sdk_fp_softsign_def fp_softsign_def Let_def FP_ONE_def using False by (simp only: if_False u i)
qed

lemma mac_3: "length w = 3 \<Longrightarrow> mac b w [x, y, z] =
    i32 (i32 (i32 (b + fp_mul (w ! 0) x) + fp_mul (w ! 1) y) + fp_mul (w ! 2) z)"
  by (auto simp: length_Suc_conv numeral_3_eq_3)

lemma mac_fold:
  "length w = length h \<Longrightarrow> foldl (\<lambda>o' i. i32 (o' + fp_mul (w ! i) (h ! i))) b [0..<length h] = mac b w h"
proof (induction b w h rule: mac.induct)
  case (1 s w ws x xs)
  have "[0..<length (x # xs)] = 0 # map Suc [0..<length xs]" by (simp add: upt_conv_Cons map_Suc_upt del: upt_Suc)
  then show ?case using 1 by (simp add: foldl_map del: upt_Suc)
qed auto

lemma sdk_hidden_eq: "sdk_hidden [x, y, z] = map2 (\<lambda>ws b. fp_softsign (mac b ws [x, y, z])) ai_w1 ai_b1"
proof -
  have "sdk_fp_softsign (i32 v) = fp_softsign (i32 v)" for v using i32_range [of v] by (intro sdk_softsign) simp_all
  moreover have "length ws = 3" if "(ws, b) \<in> set (zip ai_w1 ai_b1)" for ws b
    using set_zip_leftD [OF that] ai_weights_small(1) by (auto simp: list_all_iff)
  ultimately show ?thesis
    by (auto simp: sdk_hidden_def sdk_helpers mac_3 Let_def intro!: map_cong)
qed

lemma sdk_decide_eq: "int (sdk_ai_decide [x, y, z]) = ai_decide [x, y, z]"
proof -
  define h where "h = map2 (\<lambda>ws b. fp_softsign (mac b ws [x, y, z])) ai_w1 ai_b1"
  define out where "out = map2 (\<lambda>ws b. fp_clamp (mac b ws h) (- (4 * FP_ONE)) (4 * FP_ONE)) ai_w2 ai_b2"
  have h: "length h = 8" by (simp add: h_def ai_w1_def ai_b1_def)
  have mf: "foldl (\<lambda>o' i. i32 (o' + fp_mul (ws ! i) (h ! i))) b [0..<8] = mac b ws h"
    if "(ws, b) \<in> set (zip ai_w2 ai_b2)" for ws b
  proof -
    have "length ws = 8" using set_zip_leftD [OF that] ai_weights_small(2) by (auto simp: list_all_iff)
    then show ?thesis using mac_fold [of ws h b] unfolding h by blast
  qed
  have o: "map2 (\<lambda>w b. fp_clamp (foldl (\<lambda>o' i. i32 (o' + fp_mul (w ! i) (h ! i))) b [0..<8]) (- (4 * 65536)) (4 * 65536)) ai_w2 ai_b2
      = out"
    unfolding out_def FP_ONE_def
    by (rule map_cong [OF refl]) (use mf in \<open>auto simp del: upt_rec_numeral\<close>)
  have l: "length out = 3" by (simp add: out_def ai_w2_def ai_b2_def)
  show ?thesis
    unfolding sdk_ai_decide_def ai_decide_def sdk_helpers sdk_hidden_eq Let_def h_def [symmetric] o out_def [symmetric]
      pick_best_def l ..
qed

section \<open>Properties\<close>

text \<open>
  C19. The SDK mirror decides as the kernel's network does: the action that \<open>ai_step\<close> of the mirror reports is the name
  of the action that the kernel's \<open>ai_decide\<close> chooses on the same page usage (as heap and as page pressure) and a full
  period of ticks.
\<close>

theorem sdk_decides_as_kernel:
  "aeos_ai_last_action (sdk_ai_step s) =
     ai_core_action_name (ai_decide (ai_perceive AI_PERIOD_TICKS
       (k_total_pages s - k_free_pages s) (k_total_pages s) (k_free_pages s) (k_total_pages s)))"
proof -
  let ?x = "ai_perceive AI_PERIOD_TICKS (k_total_pages s - k_free_pages s) (k_total_pages s) (k_free_pages s) (k_total_pages s)"
  have x: "sdk_ai_perceive s = ?x"
    by (simp only: sdk_ai_perceive_def ai_perceive_def sdk_helpers FP_ONE_def Let_def)
  have d: "int (sdk_ai_decide ?x) = ai_decide ?x" unfolding ai_perceive_def by (rule sdk_decide_eq)
  have names: "sdk_action_names ! nat a = ai_core_action_name a" if "a \<in> {0, 1, 2}" for a
    using that by (auto simp: ai_core_action_name_def sdk_action_names_def)
  have "sdk_action_names ! sdk_ai_decide ?x = ai_core_action_name (ai_decide ?x)"
    using names [OF ai_decide_range [of ?x]] unfolding d [symmetric] nat_int .
  moreover have "aeos_ai_last_action (sdk_ai_step s) = sdk_action_names ! sdk_ai_decide (sdk_ai_perceive s)"
    by (simp add: aeos_ai_last_action_def sdk_ai_step_def Let_def)
  ultimately show ?thesis by (simp only: x)
qed

end
