(* ===== verification/Log.thy ===== *)
theory Log
  imports Uart
begin

text \<open>
  The kernel log, \<^verbatim>\<open>src/kernel/log.c\<close>: the small \<^verbatim>\<open>vsnprintf\<close>, the ring of 64 entries, and the lines printed on the
  console.  A variadic argument is a value with its type; taking an argument at another type, taking one that is not
  there, and reading past the terminator of a format is undefined behaviour in C and gives \<open>None\<close>.
\<close>

section \<open>Levels\<close>

datatype log_level = LOG_TRACE | LOG_DEBUG | LOG_INFO | LOG_WARN | LOG_ERROR | LOG_FATAL | LOG_NONE

fun level_rank :: "log_level \<Rightarrow> nat" where
  "level_rank LOG_TRACE = 0"
| "level_rank LOG_DEBUG = 1"
| "level_rank LOG_INFO = 2"
| "level_rank LOG_WARN = 3"
| "level_rank LOG_ERROR = 4"
| "level_rank LOG_FATAL = 5"
| "level_rank LOG_NONE = 6"

lemma level_rank_inj: "level_rank a = level_rank b \<Longrightarrow> a = b"
  by (cases a; cases b) simp_all

instantiation log_level :: linorder
begin

definition less_eq_log_level :: "log_level \<Rightarrow> log_level \<Rightarrow> bool" where
  "less_eq_log_level a b \<longleftrightarrow> level_rank a \<le> level_rank b"

definition less_log_level :: "log_level \<Rightarrow> log_level \<Rightarrow> bool" where
  "less_log_level a b \<longleftrightarrow> level_rank a < level_rank b"

instance
  by standard (auto simp: less_eq_log_level_def less_log_level_def intro: level_rank_inj)

end

definition level_names :: "log_level \<Rightarrow> bytes" where
  "level_names l = [str ''TRACE'', str ''DEBUG'', str ''INFO'', str ''WARN'', str ''ERROR'', str ''FATAL'', str ''NONE''] ! level_rank l"

definition level_colors :: "log_level \<Rightarrow> bytes" where
  "level_colors l =
     [27 # str ''[90m'', 27 # str ''[36m'', 27 # str ''[32m'', 27 # str ''[33m'', 27 # str ''[31m'', 27 # str ''[35m'', []]
       ! level_rank l"

definition COLOR_RESET :: bytes where
  "COLOR_RESET = 27 # str ''[0m''"

section \<open>Formatting\<close>

datatype va_arg = Arg_int int | Arg_uint u32 | Arg_str "bytes option"

fun dec_rev :: "nat \<Rightarrow> nat \<Rightarrow> bytes" where
  "dec_rev 0 v = []"
| "dec_rev (Suc k) v = (if 0 < v then of_nat (48 + v mod 10) # dec_rev k (v div 10) else [])"

fun hex_rev :: "bytes \<Rightarrow> nat \<Rightarrow> nat \<Rightarrow> bytes" where
  "hex_rev hex 0 v = []"
| "hex_rev hex (Suc k) v = (if 0 < v then hex ! (v mod 16) # hex_rev hex k (v div 16) else [])"

definition fmt_d :: "int \<Rightarrow> bytes" where
  "fmt_d v =
     (let neg = v < 0; v = (if neg then i32 (- v) else v);
          tmp = (if v = 0 then [48] else dec_rev 10 (nat v));
          tmp = (if neg then tmp @ [45] else tmp)
      in rev tmp)"

definition fmt_u :: "u32 \<Rightarrow> bytes" where
  "fmt_u v = rev (if v = 0 then [48] else dec_rev 10 (unat v))"

definition fmt_x :: "bool \<Rightarrow> u32 \<Rightarrow> bytes" where
  "fmt_x lower v =
     (let hex = (if lower then str ''0123456789abcdef'' else str ''0123456789ABCDEF'')
      in rev (if v = 0 then [48] else hex_rev hex 8 (unat v)))"

text \<open>
  \<^verbatim>\<open>va_arg\<close> at \<^verbatim>\<open>int\<close> and at \<^verbatim>\<open>unsigned\<close>: an argument of the other signedness is read when its value is representable in
  both types; any other mismatch is undefined.
\<close>

fun va_int :: "va_arg list \<Rightarrow> (int \<times> va_arg list) option" where
  "va_int (Arg_int v # as) = Some (v, as)"
| "va_int (Arg_uint v # as) = (if uint v < 2 ^ 31 then Some (uint v, as) else None)"
| "va_int _ = None"

fun va_uint :: "va_arg list \<Rightarrow> (u32 \<times> va_arg list) option" where
  "va_uint (Arg_uint v # as) = Some (v, as)"
| "va_uint (Arg_int v # as) = (if 0 \<le> v then Some (word_of_int v, as) else None)"
| "va_uint _ = None"

text \<open>The text that one conversion produces and the arguments it leaves.\<close>

fun conv :: "u8 \<Rightarrow> va_arg list \<Rightarrow> (bytes \<times> va_arg list) option" where
  "conv c args =
     (if c = 100 \<or> c = 105 then map_option (\<lambda>(v, as). (fmt_d v, as)) (va_int args)
      else if c = 117 then map_option (\<lambda>(v, as). (fmt_u v, as)) (va_uint args)
      else if c = 120 \<or> c = 88 then map_option (\<lambda>(v, as). (fmt_x (c = 120) v, as)) (va_uint args)
      else if c = 115 then
        (case args of Arg_str s # as \<Rightarrow> Some (case s of None \<Rightarrow> str ''(null)'' | Some s \<Rightarrow> cstr s, as) | _ \<Rightarrow> None)
      else if c = 99 then map_option (\<lambda>(v, as). ([word_of_int v], as)) (va_int args)
      else if c = 37 then Some ([37], args)
      else Some ([], args))"

text \<open>The loop, with \<open>lim\<close> for \<^verbatim>\<open>bufsize - 1\<close> and the bytes of the buffer written so far.\<close>

fun vsnprintf_loop :: "nat \<Rightarrow> bytes \<Rightarrow> va_arg list \<Rightarrow> bytes \<Rightarrow> bytes option" where
  "vsnprintf_loop lim [] args buf = Some buf"
| "vsnprintf_loop lim [f] args buf =
     (if f = 0 \<or> lim \<le> length buf then Some buf
      else if f = 37 then None
      else Some (buf @ [f]))"
| "vsnprintf_loop lim (f # g # fmt) args buf =
     (if f = 0 \<or> lim \<le> length buf then Some buf
      else if f = 37 then
        (case conv g args of None \<Rightarrow> None
         | Some (t, as) \<Rightarrow> vsnprintf_loop lim fmt as (buf @ take (lim - length buf) t))
      else vsnprintf_loop lim (g # fmt) args (buf @ [f]))"

definition vsnprintf_simple :: "nat \<Rightarrow> bytes \<Rightarrow> va_arg list \<Rightarrow> bytes option" where
  "vsnprintf_simple bufsize fmt args = vsnprintf_loop (bufsize - 1) fmt args []"

definition kernel_printf :: "bytes \<Rightarrow> va_arg list \<Rightarrow> bytes option" where
  "kernel_printf fmt args = map_option uart_puts (vsnprintf_simple 256 fmt args)"

section \<open>Log\<close>

record log_entry =
  le_timestamp :: u64
  le_level :: log_level
  le_source :: bytes
  le_message :: bytes

record log =
  current_level :: log_level
  log_buffer :: "log_entry list"
  log_head :: u32
  log_total_count :: u32
  log_error_total :: u32

definition log_set_level :: "log_level \<Rightarrow> log \<Rightarrow> log" where
  "log_set_level level l = (if level \<le> LOG_NONE then l\<lparr>current_level := level\<rparr> else l)"

definition log_get_level :: "log \<Rightarrow> log_level" where
  "log_get_level l = current_level l"

text \<open>The bytes of the old entry after a terminator stay as they were.\<close>

definition log_fill :: "u64 \<Rightarrow> log_level \<Rightarrow> bytes \<Rightarrow> bytes \<Rightarrow> log_entry \<Rightarrow> log_entry" where
  "log_fill now level source text e =
     e\<lparr>le_timestamp := now, le_level := level, le_source := copy_name 7 source (le_source e),
       le_message := text @ 0 # drop (Suc (length text)) (le_message e)\<rparr>"

definition log_push :: "(log_entry \<Rightarrow> log_entry) \<Rightarrow> log \<Rightarrow> log" where
  "log_push f l =
     l\<lparr>log_buffer := (log_buffer l)[unat (log_head l) := f (log_buffer l ! unat (log_head l))],
       log_head := (log_head l + 1) mod 64, log_total_count := log_total_count l + 1\<rparr>"

definition log_line :: "log_level \<Rightarrow> bytes \<Rightarrow> bytes \<Rightarrow> bytes option" where
  "log_line level source message =
     kernel_printf (str ''%s[%5s]%s [%s] %s'')
       [Arg_str (Some (level_colors level)), Arg_str (Some (level_names level)), Arg_str (Some COLOR_RESET),
        Arg_str (Some source), Arg_str (Some message)]"

definition log_write :: "u64 \<Rightarrow> log_level \<Rightarrow> bytes \<Rightarrow> bytes \<Rightarrow> va_arg list \<Rightarrow> log \<Rightarrow> (bytes \<times> log) option" where
  "log_write now level source fmt args l =
     (if level < current_level l then Some ([], l)
      else
        (case vsnprintf_simple 128 fmt args of None \<Rightarrow> None
         | Some text \<Rightarrow>
             (let h = unat (log_head l);
                  l1 = log_push (log_fill now level source text) l;
                  l2 = (if LOG_ERROR \<le> level then l1\<lparr>log_error_total := log_error_total l1 + 1\<rparr> else l1);
                  e = log_buffer l2 ! h
              in map_option (\<lambda>out. (out, l2)) (log_line level (le_source e) (le_message e)))))"

definition log_init :: "u64 \<Rightarrow> log \<Rightarrow> (bytes \<times> log) option" where
  "log_init now l =
     (let l = l\<lparr>log_head := 0, log_total_count := 0, log_error_total := 0, current_level := LOG_INFO,
                log_buffer := map (\<lambda>e. e\<lparr>le_timestamp := 0, le_level := LOG_NONE, le_source := (le_source e)[0 := 0],
                                         le_message := (le_message e)[0 := 0]\<rparr>) (log_buffer l)\<rparr>
      in log_write now LOG_INFO (str ''LOG'') (str ''Logging initialized (level=%s)'')
           [Arg_str (Some (level_names (current_level l)))] l)"

definition log_dump_count :: "log \<Rightarrow> u32" where
  "log_dump_count l = (if log_total_count l < 64 then log_total_count l else 64)"

definition log_dump_start :: "log \<Rightarrow> u32" where
  "log_dump_start l = (if log_total_count l < 64 then 0 else log_total_count l - 64)"

definition log_dump_nth :: "log \<Rightarrow> nat \<Rightarrow> log_entry" where
  "log_dump_nth l i = log_buffer l ! unat ((log_dump_start l + of_nat i) mod 64)"

definition log_dump_line :: "log_entry \<Rightarrow> bytes option" where
  "log_dump_line e =
     kernel_printf (str ''  [%5s] t=%d [%s] %s'')
       [Arg_str (Some (level_names (le_level e))), Arg_int (i32 (uint (le_timestamp e))),
        Arg_str (Some (le_source e)), Arg_str (Some (le_message e))]"

fun join_lines :: "bytes option list \<Rightarrow> bytes option" where
  "join_lines [] = Some []"
| "join_lines (x # xs) = (case x of None \<Rightarrow> None | Some a \<Rightarrow> map_option (\<lambda>b. a @ b) (join_lines xs))"

definition log_dump :: "log \<Rightarrow> bytes option" where
  "log_dump l =
     join_lines
       (kernel_printf (str ''=== Log Buffer (%d entries) ==='') [Arg_uint (log_dump_count l)]
        # map (\<lambda>i. log_dump_line (log_dump_nth l i)) [0..<unat (log_dump_count l)])"

definition log_count :: "log \<Rightarrow> u32" where
  "log_count l = log_total_count l"

definition log_error_count :: "log \<Rightarrow> u32" where
  "log_error_count l = log_error_total l"

section \<open>Formatting without a limit\<close>

fun fmt_all :: "bytes \<Rightarrow> va_arg list \<Rightarrow> bytes option" where
  "fmt_all [] args = Some []"
| "fmt_all [f] args = (if f = 0 then Some [] else if f = 37 then None else Some [f])"
| "fmt_all (f # g # fmt) args =
     (if f = 0 then Some []
      else if f = 37 then
        (case conv g args of None \<Rightarrow> None | Some (t, as) \<Rightarrow> map_option (\<lambda>r. t @ r) (fmt_all fmt as))
      else map_option (\<lambda>r. f # r) (fmt_all (g # fmt) args))"

lemma vsnprintf_loop_take:
  "length buf \<le> lim \<Longrightarrow> fmt_all fmt args = Some s \<Longrightarrow> vsnprintf_loop lim fmt args buf = Some (take lim (buf @ s))"
proof (induction lim fmt args buf arbitrary: s rule: vsnprintf_loop.induct)
  case (3 lim f g fmt args buf)
  show ?case
  proof (cases "f = 0 \<or> lim \<le> length buf")
    case True
    then show ?thesis using "3.prems" by auto
  next
    case False
    show ?thesis
    proof (cases "f = 37")
      case True
      then obtain t as r where c: "conv g args = Some (t, as)" "fmt_all fmt as = Some r" "s = t @ r"
        using "3.prems"(2) False by (auto split: option.splits simp del: conv.simps)
      have "length (buf @ take (lim - length buf) t) \<le> lim" using "3.prems"(1) by auto
      then have "vsnprintf_loop lim fmt as (buf @ take (lim - length buf) t)
          = Some (take lim ((buf @ take (lim - length buf) t) @ r))"
        using "3.IH"(1) [of "(t, as)" t as] False True c by blast
      moreover have "take lim ((buf @ take (lim - length buf) t) @ r) = take lim (buf @ t @ r)"
        by (cases "length t \<le> lim - length buf") simp_all
      ultimately show ?thesis using False True c by (simp del: conv.simps)
    next
      case f: False
      then obtain r where r: "fmt_all (g # fmt) args = Some r" "s = f # r" using "3.prems"(2) False by auto
      have "length (buf @ [f]) \<le> lim" using False by simp
      from "3.IH"(2) [OF False f this r(1)] show ?thesis using False f r(2) by simp
    qed
  qed
qed (auto split: if_splits)

lemma vsnprintf_loop_length:
  "vsnprintf_loop lim fmt args buf = Some s \<Longrightarrow> length buf \<le> lim \<Longrightarrow> length s \<le> lim"
proof (induction lim fmt args buf rule: vsnprintf_loop.induct)
  case (3 lim f g fmt args buf)
  then show ?case by (auto split: if_splits option.splits simp del: conv.simps)
qed (auto split: if_splits)

section \<open>The ring\<close>

definition entry_wf :: "log_entry \<Rightarrow> bool" where
  "entry_wf e \<longleftrightarrow> length (le_source e) = 8 \<and> length (le_message e) = 128"

definition ring_ok :: "log \<Rightarrow> bool" where
  "ring_ok l \<longleftrightarrow> length (log_buffer l) = 64 \<and> unat (log_head l) = unat (log_total_count l) mod 64"

definition log_wf :: "log \<Rightarrow> bool" where
  "log_wf l \<longleftrightarrow> ring_ok l \<and> list_all entry_wf (log_buffer l)"

definition log_put :: "log_entry \<Rightarrow> log \<Rightarrow> log" where
  "log_put e l = log_push (\<lambda>_. e) l"

definition log_view :: "log \<Rightarrow> log_entry list" where
  "log_view l = ring_view (log_buffer l) (unat (log_total_count l))"

interpretation log_ring: history_ring log_put log_view 64 ring_ok "\<lambda>l. unat (log_total_count l)" "2 ^ 32"
proof
  fix l x
  assume wf: "ring_ok l" and c: "Suc (unat (log_total_count l)) < 2 ^ 32"
  have u: "unat (log_total_count l + 1) = Suc (unat (log_total_count l))" using c by (simp add: unat_Suc_word)
  have "log_buffer l \<noteq> []" using wf by (auto simp: ring_ok_def)
  then show "log_view (log_put x l) = last_n 64 (log_view l @ [x])"
    using ring_view_push [of "log_buffer l" "unat (log_total_count l)" x] wf u
    by (simp add: log_view_def log_put_def log_push_def ring_ok_def)
  have "unat (log_head l) < 64" using wf by (simp add: ring_ok_def)
  then have "unat (log_head l + 1) = Suc (unat (log_head l))" by (intro unat_Suc_word) simp
  then have "unat ((log_head l + 1) mod 64) = Suc (unat (log_head l)) mod 64" by (simp add: unat_mod)
  then show "ring_ok (log_put x l)"
    using wf u by (simp add: ring_ok_def log_put_def log_push_def mod_Suc_eq)
  show "unat (log_total_count (log_put x l)) \<le> Suc (unat (log_total_count l))" by (simp add: log_put_def log_push_def u)
qed

lemma log_put_wf:
  assumes "log_wf l" "entry_wf e" "Suc (unat (log_total_count l)) < 2 ^ 32"
  shows "log_wf (log_put e l)"
  using log_ring.push_wf [of l e] assms by (simp add: log_wf_def log_put_def log_push_def list_all_update)

text \<open>The order in which \<open>log_dump\<close> visits the buffer is that of the view.\<close>

lemma log_dump_view:
  assumes "length (log_buffer l) = 64"
  shows "map (log_dump_nth l) [0..<unat (log_dump_count l)] = log_view l"
proof (rule nth_equalityI)
  have c: "unat (log_dump_count l) = min 64 (unat (log_total_count l))"
    by (auto simp: log_dump_count_def word_less_nat_alt)
  then show "length (map (log_dump_nth l) [0..<unat (log_dump_count l)]) = length (log_view l)"
    using assms by (simp add: log_view_def ring_view_def)
  fix i
  assume "i < length (map (log_dump_nth l) [0..<unat (log_dump_count l)])"
  then have i: "i < min 64 (unat (log_total_count l))" using c by simp
  let ?c = "unat (log_total_count l)"
  have s: "unat (log_dump_start l) = ?c - 64" by (auto simp: log_dump_start_def word_less_nat_alt unat_sub word_le_nat_alt)
  have "?c - 64 + i < 2 ^ 32" using i unsigned_less [of "log_total_count l", where ?'a = nat] by (simp; linarith)
  then have "unat (log_dump_start l + of_nat i) = ?c - 64 + i"
    using i s by (simp add: unat_word_ariths unsigned_of_nat take_bit_nat_eq_self)
  then have n: "unat ((log_dump_start l + of_nat i) mod 64) = (?c - 64 + i) mod 64" by (simp only: unat_mod) simp
  have "log_view l ! i = log_buffer l ! ((?c - 64 + i) mod 64)"
    unfolding log_view_def ring_view_def assms using i by (subst nth_ring_items) (simp_all only: assms)
  then show "map (log_dump_nth l) [0..<unat (log_dump_count l)] ! i = log_view l ! i"
    using i by (simp only: nth_map length_upt nth_upt c minus_nat.diff_0 add_0 log_dump_nth_def n)
qed

section \<open>What a call stores and prints\<close>

definition entry_of :: "log_entry \<Rightarrow> u64 \<times> log_level \<times> bytes \<times> bytes" where
  "entry_of e = (le_timestamp e, le_level e, cstr (le_source e), cstr (le_message e))"

lemma cstr_append_NUL: "cstr (t @ 0 # r) = cstr t"
  by (induction t) (simp_all add: cstr_def)

lemma cstr_take_cstr: "cstr (take n (cstr s)) = take n (cstr s)"
  using cstr_no_NUL [of _ s] by (subst cstr_def, subst takeWhile_eq_all_conv) (auto dest: in_set_takeD)

lemma log_fill_wf: "entry_wf e \<Longrightarrow> length text \<le> 127 \<Longrightarrow> entry_wf (log_fill now level source text e)"
  by (simp add: entry_wf_def log_fill_def)

lemma entry_of_fill:
  assumes "entry_wf e"
  shows "entry_of (log_fill now level source text e) = (now, level, take 7 (cstr source), cstr text)"
  using assms by (simp add: entry_of_def log_fill_def entry_wf_def cstr_copy_name cstr_append_NUL)

lemma log_line_eq:
  "log_line level source message = Some (uart_puts (take 255
     (cstr (level_colors level) @ str ''[s]'' @ cstr (level_names level) @ str '' ['' @ cstr COLOR_RESET @ str ''] '' @ cstr source)))"
proof -
  have "fmt_all (str ''%s[%5s]%s [%s] %s'')
      [Arg_str (Some (level_colors level)), Arg_str (Some (level_names level)), Arg_str (Some COLOR_RESET),
       Arg_str (Some source), Arg_str (Some message)]
    = Some (cstr (level_colors level) @ str ''[s]'' @ cstr (level_names level) @ str '' ['' @ cstr COLOR_RESET @ str ''] '' @ cstr source)"
    by (simp add: str_def)
  from vsnprintf_loop_take [OF _ this, of "[]" 255] show ?thesis
    by (simp add: log_line_def kernel_printf_def vsnprintf_simple_def)
qed

lemma log_dump_line_undefined: "log_dump_line e = None"
  by (simp add: log_dump_line_def kernel_printf_def vsnprintf_simple_def str_def)

lemma log_write_spec:
  assumes wf: "log_wf l" and c: "Suc (unat (log_total_count l)) < 2 ^ 32" and lv: "\<not> level < current_level l"
    and w: "log_write now level source fmt args l = Some (out, l')"
  obtains tx where "vsnprintf_simple 128 fmt args = Some tx" "log_wf l'" "current_level l' = current_level l"
    "unat (log_total_count l') = Suc (unat (log_total_count l))"
    "map entry_of (log_view l') = last_n 64 (map entry_of (log_view l) @ [(now, level, take 7 (cstr source), cstr tx)])"
    "Some out = log_line level (take 7 (cstr source)) []"
proof -
  obtain tx where t: "vsnprintf_simple 128 fmt args = Some tx"
    using w lv by (auto simp: log_write_def split: option.splits)
  then have tl: "length tx \<le> 127" using vsnprintf_loop_length [of 127 fmt args "[]"] by (simp add: vsnprintf_simple_def)
  define e where "e = log_fill now level source tx (log_buffer l ! unat (log_head l))"
  define l1 where "l1 = log_put e l"
  have h: "unat (log_head l) < length (log_buffer l)" using wf by (simp add: log_wf_def ring_ok_def)
  then have old: "entry_wf (log_buffer l ! unat (log_head l))" using wf by (simp add: log_wf_def list_all_length)
  then have ew: "entry_wf e" using log_fill_wf tl by (simp add: e_def)
  have wf1: "log_wf l1" unfolding l1_def by (rule log_put_wf [OF wf ew c])
  have v1: "log_view l1 = last_n 64 (log_view l @ [e])"
    unfolding l1_def using wf log_ring.push_view [OF _ c] by (simp add: log_wf_def)
  have p: "log_push (log_fill now level source tx) l = l1" by (simp add: l1_def log_put_def log_push_def e_def)
  have b: "log_buffer l1 ! unat (log_head l) = e" using h by (simp add: l1_def log_put_def log_push_def)
  have "cstr (le_source e) = take 7 (cstr source)" using entry_of_fill [OF old] by (simp add: entry_of_def e_def)
  then have src: "cstr (le_source e) = cstr (take 7 (cstr source))"
    by (simp add: cstr_take_cstr)
  have l': "l' = (if LOG_ERROR \<le> level then l1\<lparr>log_error_total := log_error_total l1 + 1\<rparr> else l1)"
      "Some out = log_line level (le_source e) (le_message e)"
    using w lv t b by (auto simp: log_write_def p Let_def split: if_splits)
  have "map entry_of (last_n 64 xs) = last_n 64 (map entry_of xs)" for xs by (simp add: last_n_def drop_map)
  then have "map entry_of (log_view l') = last_n 64 (map entry_of (log_view l) @ [(now, level, take 7 (cstr source), cstr tx)])"
    using v1 entry_of_fill [OF old] by (simp add: l'(1) log_view_def e_def)
  moreover have "Some out = log_line level (take 7 (cstr source)) []" using l'(2) by (simp only: log_line_eq src)
  moreover have "log_wf l'" "current_level l' = current_level l"
    using wf1 by (simp_all add: l'(1) log_wf_def ring_ok_def) (simp add: l1_def log_put_def log_push_def)
  moreover have "unat (log_total_count l') = Suc (unat (log_total_count l))"
    using c by (simp add: l'(1) l1_def log_put_def log_push_def unat_Suc_word)
  ultimately show thesis using that t by blast
qed

type_synonym log_call = "u64 \<times> log_level \<times> bytes \<times> bytes \<times> va_arg list"

fun log_run :: "log_call list \<Rightarrow> log \<Rightarrow> log option" where
  "log_run [] l = Some l"
| "log_run ((now, level, source, fmt, args) # cs) l =
     (case log_write now level source fmt args l of None \<Rightarrow> None | Some (out, l') \<Rightarrow> log_run cs l')"

text \<open>What the calls ask to be recorded: those at the level or above, each as an unlimited formatting would print it,
  cut to the 127 bytes of a message and the 7 of a source name.\<close>

fun log_record :: "log_level \<Rightarrow> log_call \<Rightarrow> (u64 \<times> log_level \<times> bytes \<times> bytes) list" where
  "log_record lv (now, level, source, fmt, args) =
     (if level < lv then [] else [(now, level, take 7 (cstr source), cstr (take 127 (the (fmt_all fmt args))))])"

definition log_defined :: "log_call \<Rightarrow> bool" where
  "log_defined c = (case c of (now, level, source, fmt, args) \<Rightarrow> fmt_all fmt args \<noteq> None)"

lemma vsnprintf_simple_take:
  "fmt_all fmt args = Some s \<Longrightarrow> vsnprintf_simple (Suc n) fmt args = Some (take n s)"
  using vsnprintf_loop_take [of "[]" n fmt args s] by (simp add: vsnprintf_simple_def)

lemma log_run_view:
  assumes "log_wf l" "list_all log_defined cs" "unat (log_total_count l) + length cs < 2 ^ 32"
  shows "\<exists>l'. log_run cs l = Some l' \<and> log_wf l' \<and> current_level l' = current_level l \<and>
    map entry_of (log_view l') = last_n 64 (map entry_of (log_view l) @ concat (map (log_record (current_level l)) cs))"
  using assms
proof (induction cs arbitrary: l)
  case Nil
  have "length (log_view l) \<le> 64" using Nil by (simp add: log_view_def log_wf_def ring_ok_def ring_view_def)
  then show ?case using Nil by (simp add: last_n_def)
next
  case (Cons c cs)
  obtain now level source fmt args where c: "c = (now, level, source, fmt, args)" by (cases c) auto
  obtain s where s: "fmt_all fmt args = Some s" using Cons.prems(2) by (auto simp: c log_defined_def)
  show ?case
  proof (cases "level < current_level l")
    case True
    then show ?thesis using Cons.IH [of l] Cons.prems by (simp add: c log_write_def)
  next
    case False
    have t: "vsnprintf_simple 128 fmt args = Some (take 127 s)" using vsnprintf_simple_take [OF s, of 127] by simp
    then obtain out l1 where w: "log_write now level source fmt args l = Some (out, l1)"
      using False by (auto simp: log_write_def Let_def log_line_eq)
    have k: "Suc (unat (log_total_count l)) < 2 ^ 32" using Cons.prems(3) by simp
    from log_write_spec [OF Cons.prems(1) k False w] t
    have l1: "log_wf l1" "current_level l1 = current_level l" "unat (log_total_count l1) = Suc (unat (log_total_count l))"
      "map entry_of (log_view l1) = last_n 64 (map entry_of (log_view l) @ [(now, level, take 7 (cstr source), cstr (take 127 s))])"
      by auto
    have "list_all log_defined cs" "unat (log_total_count l1) + length cs < 2 ^ 32" using Cons.prems by (simp_all add: l1(3))
    from Cons.IH [OF l1(1) this] show ?thesis
      using False by (auto simp: c w s l1(2,4) last_n_last_n_append)
  qed
qed

section \<open>Properties\<close>

text \<open>C29. The bounded formatter of the kernel log returns, for every buffer size, format and arguments on which formatting
  is defined, exactly the first \<open>bufsize - 1\<close> bytes of what formatting without a limit produces: it never writes
  past the buffer and never loses a byte that fits.\<close>

theorem vsnprintf_bounded:
  "fmt_all fmt args = Some s \<Longrightarrow> 0 < n \<Longrightarrow>
   vsnprintf_simple n fmt args = Some (take (n - 1) s) \<and> length (take (n - 1) s) < n"
  using vsnprintf_simple_take [of fmt args s "n - 1"] by auto

text \<open>C21. The log ring: after any sequence of log calls with defined formats (fewer than \<open>2^32\<close> of them) every
  call has returned, and what \<open>log_dump\<close> visits is exactly the last 64 of the records the calls at or above the
  level asked for, oldest first, with the source name cut to 7 bytes and the message to 127.\<close>

theorem log_keeps_last_64:
  assumes "log_wf l" "log_total_count l = 0" "list_all log_defined cs" "length cs < 2 ^ 32"
  shows "\<exists>l'. log_run cs l = Some l' \<and> log_wf l' \<and>
    map (\<lambda>i. entry_of (log_dump_nth l' i)) [0..<unat (log_dump_count l')] =
    last_n 64 (concat (map (log_record (current_level l)) cs))"
proof -
  have "log_view l = []" using assms(1,2) by (simp add: log_view_def log_wf_def ring_ok_def ring_view_def ring_items_def)
  then obtain l' where l': "log_run cs l = Some l'" "log_wf l'"
      "map entry_of (log_view l') = last_n 64 (concat (map (log_record (current_level l)) cs))"
    using log_run_view [of l cs] assms by auto
  moreover have "map entry_of (log_view l') = map (\<lambda>i. entry_of (log_dump_nth l' i)) [0..<unat (log_dump_count l')]"
    using log_dump_view [of l'] l'(2) by (auto simp: log_wf_def ring_ok_def comp_def simp flip: log_dump_view)
  ultimately show ?thesis by auto
qed

text \<open>The console line of a recorded log call is the same whatever the message: \<open>%5s\<close> is not a conversion the
  formatter knows, so it prints \<open>s\<close> and the remaining arguments shift by one, the level name standing where the
  colour reset was meant, the reset in the source's place, the source in the message's, and the message nowhere. The same
  format makes \<open>log_dump\<close> read a string as an integer, which is undefined, as soon as one entry is recorded.\<close>

theorem log_console_loses_message:
  assumes "log_wf l" "Suc (unat (log_total_count l)) < 2 ^ 32" "\<not> level < current_level l"
    "log_write now level source fmt args l = Some (out, l')"
  shows "out = uart_puts (take 255 (cstr (level_colors level) @ str ''[s]'' @ cstr (level_names level) @ str '' ['' @
      cstr COLOR_RESET @ str ''] '' @ take 7 (cstr source))) \<and> log_dump l' = None"
proof (rule conjI)
  have o: "Some out = log_line level (take 7 (cstr source)) []" and n: "unat (log_total_count l') = Suc (unat (log_total_count l))"
    using log_write_spec [OF assms] by blast+
  from o show "out = uart_puts (take 255 (cstr (level_colors level) @ str ''[s]'' @ cstr (level_names level) @ str '' ['' @
      cstr COLOR_RESET @ str ''] '' @ take 7 (cstr source)))"
    by (simp only: log_line_eq option.inject cstr_take_cstr)
  have "0 < unat (log_dump_count l')" using n by (auto simp: log_dump_count_def unat_gt_0)
  then show "log_dump l' = None"
    by (simp add: log_dump_def upt_conv_Cons log_dump_line_undefined split: option.splits)
qed

section \<open>Witnesses\<close>

definition log0 :: log where
  "log0 = \<lparr>current_level = LOG_INFO, log_buffer = replicate 64 \<lparr>le_timestamp = 0, le_level = LOG_NONE,
     le_source = replicate 8 0, le_message = replicate 128 0\<rparr>, log_head = 0, log_total_count = 0, log_error_total = 0\<rparr>"

lemma log0_wf: "log_wf log0"
  by (simp add: log_wf_def ring_ok_def log0_def list_all_iff entry_wf_def)

theorem vsnprintf_bounded_witness:
  "vsnprintf_simple 4 (str ''n=%d'') [Arg_int 42] = Some (str ''n=4'')"
  using vsnprintf_bounded [of "str ''n=%d''" "[Arg_int 42]" "str ''n=42''" 4] by code_simp

theorem log_keeps_last_64_witness:
  "\<exists>l'. log_run [(7, LOG_ERROR, str ''SCHED'', str ''bad'', []), (8, LOG_DEBUG, str ''X'', str ''y'', [])] log0 = Some l' \<and>
    log_wf l' \<and> map (\<lambda>i. entry_of (log_dump_nth l' i)) [0..<unat (log_dump_count l')] =
    [(7, LOG_ERROR, str ''SCHED'', str ''bad'')]"
proof -
  let ?cs = "[(7, LOG_ERROR, str ''SCHED'', str ''bad'', []), (8, LOG_DEBUG, str ''X'', str ''y'', [])]"
  have "list_all log_defined ?cs" "last_n 64 (concat (map (log_record LOG_INFO) ?cs)) = [(7, LOG_ERROR, str ''SCHED'', str ''bad'')]"
    by code_simp+
  moreover have "current_level log0 = LOG_INFO" "log_total_count log0 = 0" by (simp_all add: log0_def)
  ultimately show ?thesis using log_keeps_last_64 [OF log0_wf, of ?cs] by simp
qed

theorem log_console_loses_message_witness:
  "\<exists>l'. log_write 7 LOG_ERROR (str ''SCHED'') (str ''bad'') [] log0 =
      Some (uart_puts (take 255 (cstr (level_colors LOG_ERROR) @ str ''[s]'' @ cstr (level_names LOG_ERROR) @ str '' ['' @
      cstr COLOR_RESET @ str ''] '' @ take 7 (cstr (str ''SCHED'')))), l') \<and> log_dump l' = None"
proof -
  have i: "\<not> LOG_ERROR < LOG_INFO" by code_simp
  then have "\<not> LOG_ERROR < current_level log0" "Suc (unat (log_total_count log0)) < 2 ^ 32" by (simp_all add: log0_def)
  moreover have "\<exists>out l'. log_write 7 LOG_ERROR (str ''SCHED'') (str ''bad'') [] log0 = Some (out, l')"
    using vsnprintf_simple_take [of "str ''bad''" "[]" "str ''bad''" 127]
    by (simp add: log_write_def Let_def log_line_eq str_def log0_def i)
  ultimately show ?thesis using log_console_loses_message [OF log0_wf] by blast
qed

end
