(* ===== verification/Net.thy ===== *)
theory Net
  imports Uart Bytes
begin

text \<open>
  The network stack, \<^verbatim>\<open>src/kernel/net.c\<close>: Ethernet, ARP, IPv4 and ICMP echo over the driver's interface of
  \<^verbatim>\<open>src/boot/aarch64/vnet.h\<close>.  A packet handed to \<^verbatim>\<open>vnet_send\<close> is an output of the model, the packets that
  \<^verbatim>\<open>vnet_recv\<close> returns are inputs, and \<open>mac\<close> is what \<^verbatim>\<open>vnet_get_mac\<close> returns.  A loop that polls until a tick count has
  passed takes the rounds it makes before the count has passed as a list.  Structures are the bytes that the
  little-endian machine stores for them.
\<close>

section \<open>State\<close>

record net =
  gw_mac :: bytes
  have_gw_mac :: bool
  reply_body :: bytes

definition our_ip :: bytes where
  "our_ip = [10, 0, 2, 15]"

definition gw_ip :: bytes where
  "gw_ip = [10, 0, 2, 2]"

definition bcast :: bytes where
  "bcast = [0xFF, 0xFF, 0xFF, 0xFF, 0xFF, 0xFF]"

definition icmp_id :: u16 where
  "icmp_id = 0x4145"

abbreviation (input) ET_ARP :: u16 where "ET_ARP \<equiv> 0x0806"
abbreviation (input) ET_IP4 :: u16 where "ET_IP4 \<equiv> 0x0800"
abbreviation (input) IP_PROTO_ICMP :: u8 where "IP_PROTO_ICMP \<equiv> 1"
abbreviation (input) VNET_ETH_MTU :: nat where "VNET_ETH_MTU \<equiv> 1500"

section \<open>Checksum and byte order\<close>

fun cksum_words :: "u32 \<Rightarrow> bytes \<Rightarrow> u32" where
  "cksum_words s (a # b # r) = cksum_words (s + (push_bit 8 (ucast a) OR ucast b)) r"
| "cksum_words s [a] = s + push_bit 8 (ucast a)"
| "cksum_words s [] = s"

lemma unat_fold_step:
  fixes s :: u32
  shows "unat ((s AND 0xFFFF) + drop_bit 16 s) = unat s mod 65536 + unat s div 65536"
proof -
  have "s AND 0xFFFF = take_bit 16 s" by (simp add: take_bit_eq_mask mask_eq_exp_minus_1)
  then have a: "unat (s AND 0xFFFF) = unat s mod 65536" by (simp add: unsigned_take_bit_eq take_bit_nat_def)
  have b: "unat (drop_bit 16 s) = unat s div 65536" by (simp add: unat_drop_bit_eq drop_bit_nat_def)
  have "unat s < 2 ^ 32" using unsigned_less [of s, where ?'a = nat] by simp
  then have "unat s div 65536 < 65536" by (simp add: less_mult_imp_div_less)
  then show ?thesis by (simp add: unat_word_ariths a b)
qed

function cksum_fold :: "u32 \<Rightarrow> u32" where
  "cksum_fold s = (if drop_bit 16 s \<noteq> 0 then cksum_fold ((s AND 0xFFFF) + drop_bit 16 s) else s)"
  by auto

termination cksum_fold
proof (relation "measure unat")
  fix s :: u32
  assume "drop_bit 16 s \<noteq> 0"
  moreover have "unat (drop_bit 16 s) = unat s div 65536" by (simp add: unat_drop_bit_eq drop_bit_nat_def)
  ultimately have "0 < unat s div 65536" by (metis gr0I unat_eq_zero)
  then have "unat s mod 65536 + unat s div 65536 < unat s" using div_mult_mod_eq [of "unat s" 65536] by linarith
  then show "((s AND 0xFFFF) + drop_bit 16 s, s) \<in> measure unat" by (simp add: unat_fold_step)
qed simp

declare cksum_fold.simps [simp del]

definition cksum :: "bytes \<Rightarrow> u16" where
  "cksum b = ucast (NOT (cksum_fold (cksum_words 0 b)))"

definition be16 :: "u16 \<Rightarrow> u16" where
  "be16 v = drop_bit 8 v OR push_bit 8 v"

section \<open>Transmit\<close>

definition eth_send :: "bytes \<Rightarrow> bytes \<Rightarrow> u16 \<Rightarrow> bytes \<Rightarrow> bytes" where
  "eth_send mac dst type payload = dst @ mac @ le_bytes 2 (be16 type) @ take (VNET_ETH_MTU - 14) payload"

definition arp_send :: "bytes \<Rightarrow> u16 \<Rightarrow> bytes \<Rightarrow> bytes \<Rightarrow> bytes" where
  "arp_send mac oper tha tpa =
     eth_send mac (if oper = 1 then bcast else tha) ET_ARP
       (le_bytes 2 (be16 1) @ le_bytes 2 (be16 ET_IP4) @ [6, 4] @ le_bytes 2 (be16 oper) @ mac @ our_ip @ tha @ tpa)"

definition ip_hdr :: "nat \<Rightarrow> u8 \<Rightarrow> bytes \<Rightarrow> u16 \<Rightarrow> bytes" where
  "ip_hdr blen proto dst checksum =
     [0x45, 0] @ le_bytes 2 (be16 (of_nat (20 + blen))) @ le_bytes 2 (be16 0x1234) @ [0, 0] @ [64, proto]
     @ le_bytes 2 checksum @ our_ip @ dst"

definition ip_send :: "bytes \<Rightarrow> net \<Rightarrow> bytes \<Rightarrow> u8 \<Rightarrow> bytes \<Rightarrow> bytes" where
  "ip_send mac n dst proto body =
     (let body = take (1500 - 20) body;
          ip = ip_hdr (length body) proto dst 0;
          ip = ip_hdr (length body) proto dst (cksum ip)
      in eth_send mac (if have_gw_mac n then gw_mac n else bcast) ET_IP4 (ip @ body))"

definition set_checksum :: "u16 \<Rightarrow> bytes \<Rightarrow> bytes" where
  "set_checksum c b = take 2 b @ le_bytes 2 c @ drop 4 b"

definition icmp_reply :: "bytes \<Rightarrow> bytes \<Rightarrow> bytes \<Rightarrow> net \<Rightarrow> bytes \<times> net" where
  "icmp_reply mac src req n =
     (let len = min (length req) (1500 - 8);
          body = take len req @ drop len (reply_body n);
          body = set_checksum 0 body;
          body = set_checksum (cksum (take (8 + len) body)) body
      in (ip_send mac n src IP_PROTO_ICMP (take (8 + len) body), n\<lparr>reply_body := body\<rparr>))"

definition icmp_echo_request :: "bytes \<Rightarrow> net \<Rightarrow> u32 \<Rightarrow> u16 \<Rightarrow> bytes" where
  "icmp_echo_request mac n ip_be seq =
     (let body = [8, 0, 0, 0] @ le_bytes 2 icmp_id @ le_bytes 2 (be16 seq) @ replicate 32 0;
          body = set_checksum (cksum body) body
      in ip_send mac n (le_bytes 4 ip_be) IP_PROTO_ICMP body)"

section \<open>Receive\<close>

definition handle_arp :: "bytes \<Rightarrow> bytes \<Rightarrow> net \<Rightarrow> bytes list \<times> net" where
  "handle_arp mac a n =
     (let oper = be16 (le_word (take 2 (drop 6 a))); sha = take 6 (drop 8 a);
          spa = take 4 (drop 14 a); tpa = take 4 (drop 24 a);
          tx = (if oper = 1 \<and> tpa = our_ip then [arp_send mac 2 sha spa] else [])
      in (tx, if oper = 2 \<and> spa = gw_ip then n\<lparr>gw_mac := sha, have_gw_mac := True\<rparr> else n))"

definition handle_ip :: "bytes \<Rightarrow> bytes \<Rightarrow> bytes \<Rightarrow> net \<Rightarrow> bytes list \<times> net" where
  "handle_ip mac ih body n =
     (if ih ! 9 \<noteq> IP_PROTO_ICMP then ([], n)
      else if take 4 (drop 16 ih) \<noteq> our_ip then ([], n)
      else if 8 \<le> length body \<and> body ! 0 = 8 then
        (let (f, n) = icmp_reply mac (take 4 (drop 12 ih)) body n in ([f], n))
      else ([], n))"

definition handle_rx :: "bytes \<Rightarrow> bytes \<Rightarrow> net \<Rightarrow> bytes list \<times> net" where
  "handle_rx mac frame n =
     (let len = length frame; off = 14; ethertype = le_word (take 2 (drop 12 frame))
      in if len < off + 2 then ([], n)
         else if ethertype = be16 ET_ARP \<and> off + 28 \<le> len then handle_arp mac (take 28 (drop off frame)) n
         else if ethertype = be16 ET_IP4 \<and> off + 20 \<le> len then
           handle_ip mac (take 20 (drop off frame)) (drop (off + 20) frame) n
         else ([], n))"

fun net_poll :: "bytes \<Rightarrow> bytes list \<Rightarrow> net \<Rightarrow> bytes list \<times> net" where
  "net_poll mac [] n = ([], n)"
| "net_poll mac (f # fs) n = (let (tx, n) = handle_rx mac f n; (txs, n) = net_poll mac fs n in (tx @ txs, n))"

section \<open>Ping and start\<close>

text \<open>The loops that wait for the gateway: one round of \<^verbatim>\<open>net_poll\<close> per element, with the packets it finds.\<close>

fun wait_gw :: "bytes \<Rightarrow> bytes list list \<Rightarrow> net \<Rightarrow> bytes list \<times> net" where
  "wait_gw mac [] n = ([], n)"
| "wait_gw mac (fs # rs) n =
     (if have_gw_mac n then ([], n)
      else (let (tx, n) = net_poll mac fs n; (txs, n) = wait_gw mac rs n in (tx @ txs, n)))"

definition dotted :: "u32 \<Rightarrow> bytes" where
  "dotted ip_be =
     uart_dec (ucast (drop_bit 24 ip_be AND 0xFF)) @ uart_putc 46 @ uart_dec (ucast (drop_bit 16 ip_be AND 0xFF)) @ uart_putc 46
     @ uart_dec (ucast (drop_bit 8 ip_be AND 0xFF)) @ uart_putc 46 @ uart_dec (ucast (ip_be AND 0xFF))"

definition reply_line :: "u32 \<Rightarrow> u64 \<Rightarrow> bytes" where
  "reply_line ip_be dt =
     uart_puts_nolf (str ''  reply from '') @ dotted ip_be @ uart_puts_nolf (str '': time '')
     @ uart_dec (ucast ((ucast dt :: u32) * 10)) @ uart_puts (str '' ms'')"

text \<open>One round of the loop that waits for an echo reply: the packets that \<^verbatim>\<open>net_poll\<close> takes, the packet that the
  \<^verbatim>\<open>vnet_recv\<close> after it returns (empty for none), and the tick count then.\<close>

type_synonym ping_round = "bytes list \<times> bytes \<times> u64"

fun wait_reply :: "bytes \<Rightarrow> u32 \<Rightarrow> nat \<Rightarrow> u64 \<Rightarrow> ping_round list \<Rightarrow> net \<Rightarrow> bytes list \<times> bytes \<times> bool \<times> net" where
  "wait_reply mac ip_be i sent_at [] n = ([], [], False, n)"
| "wait_reply mac ip_be i sent_at ((fs, f, now) # rs) n =
     (let (tx, n) = net_poll mac fs n
      in if 42 < length f \<and> f ! 34 = 0 \<and> f ! 41 = of_nat i then (tx, reply_line ip_be (now - sent_at), True, n)
         else (let (txs, out, got, n) = wait_reply mac ip_be i sent_at rs n in (tx @ txs, out, got, n)))"

record ping_env =
  pe_gw :: "bytes list list"
  pe_sent_at :: u64
  pe_rounds :: "ping_round list"

definition ping_one :: "bytes \<Rightarrow> u32 \<Rightarrow> nat \<Rightarrow> ping_env \<Rightarrow> net \<Rightarrow> bytes list \<times> bytes \<times> bool \<times> net" where
  "ping_one mac ip_be i e n =
     (let (tx0, n) = (if have_gw_mac n then ([], n)
                      else let (tx, n) = wait_gw mac (pe_gw e) n in (arp_send mac 1 (replicate 6 0) gw_ip # tx, n))
      in if \<not> have_gw_mac n then (tx0, [], False, n)
         else
           (let req = icmp_echo_request mac n ip_be (of_nat i);
                (tx, out, got, n) = wait_reply mac ip_be i (pe_sent_at e) (pe_rounds e) n
            in (tx0 @ req # tx, out @ (if got then [] else uart_puts (str ''  request timeout'')), got, n)))"

fun net_ping :: "bytes \<Rightarrow> u32 \<Rightarrow> nat \<Rightarrow> ping_env list \<Rightarrow> net \<Rightarrow> bytes list \<times> bytes \<times> nat \<times> net" where
  "net_ping mac ip_be i [] n = ([], [], 0, n)"
| "net_ping mac ip_be i (e # es) n =
     (let (tx, out, got, n) = ping_one mac ip_be i e n;
          (txs, outs, replies, n) = net_ping mac ip_be (Suc i) es n
      in (tx @ txs, out @ outs, (if got then 1 else 0) + replies, n))"

definition net_init :: "bool \<Rightarrow> bytes \<Rightarrow> bytes list list \<Rightarrow> net \<Rightarrow> bytes list \<times> bytes \<times> net" where
  "net_init live mac rounds n =
     (if \<not> live then ([], [], n)
      else
        (let (tx, n) = wait_gw mac rounds n
         in (arp_send mac 1 (replicate 6 0) gw_ip # tx,
             uart_puts_nolf (str ''[net] stack up: 10.0.2.15/24 gw 10.0.2.2 '')
             @ uart_puts (if have_gw_mac n then str ''(gw resolved)'' else str ''(gw pending)''), n)))"

section \<open>Addresses\<close>

text \<open>The loop of \<^verbatim>\<open>net_parse_ip\<close>: \<open>None\<close> when \<^verbatim>\<open>ok\<close> is cleared, otherwise \<^verbatim>\<open>out\<close>, \<^verbatim>\<open>part\<close> and \<^verbatim>\<open>parts\<close> at the end.
  \<^verbatim>\<open>part\<close> stays below 2560.\<close>

fun parse_ip_loop :: "bytes \<Rightarrow> u32 \<Rightarrow> nat \<Rightarrow> nat \<Rightarrow> (u32 \<times> nat \<times> nat) option" where
  "parse_ip_loop [] out part parts = Some (out, part, parts)"
| "parse_ip_loop (c # s) out part parts =
     (if 48 \<le> c \<and> c \<le> 57 then
        (let part = part * 10 + unat (c - 48) in if 255 < part then None else parse_ip_loop s out part parts)
      else if c = 46 then parse_ip_loop s (push_bit 8 out OR of_nat part) 0 (Suc parts)
      else None)"

definition net_parse_ip :: "bytes \<Rightarrow> u32" where
  "net_parse_ip s =
     (case parse_ip_loop (cstr s) 0 0 0 of None \<Rightarrow> 0
      | Some (out, part, parts) \<Rightarrow>
          if parts \<noteq> 3 then 0
          else (let out = push_bit 8 out OR of_nat part in if out = 0 \<or> out = 0xFFFFFFFF then 0 else out))"

section \<open>Checksum arithmetic\<close>

text \<open>The sum of the big-endian words, and its one's-complement fold.\<close>

fun words16 :: "bytes \<Rightarrow> nat" where
  "words16 (a # b # r) = 256 * unat a + unat b + words16 r"
| "words16 [a] = 256 * unat a"
| "words16 [] = 0"

definition fold16 :: "nat \<Rightarrow> nat" where
  "fold16 s = (if s = 0 then 0 else Suc ((s - 1) mod 65535))"

lemma unat_byte_pair: "unat (push_bit 8 (ucast (a :: u8)) OR ucast (b :: u8) :: u32) = 256 * unat a + unat b"
proof -
  have "push_bit 8 (ucast a) OR ucast b = (push_bit 8 (ucast a) + ucast b :: u32)"
    by (rule disjunctive_add [symmetric]) (auto simp: bit_simps dest: bit_imp_le_length)
  moreover have "unat a < 256" "unat b < 256"
    using unsigned_less [of a, where ?'a = nat] unsigned_less [of b, where ?'a = nat] by simp_all
  ultimately show ?thesis
    by (simp add: unat_word_ariths push_bit_eq_mult unsigned_ucast_eq take_bit_nat_eq_self)
qed

lemma words16_le: "words16 b \<le> 65535 * ((length b + 1) div 2)"
proof (induction b rule: words16.induct)
  case (1 a b r)
  have "unat a < 256" "unat b < 256"
    using unsigned_less [of a, where ?'a = nat] unsigned_less [of b, where ?'a = nat] by simp_all
  then show ?case using 1 by simp
next
  case (2 a)
  then show ?case using unsigned_less [of a, where ?'a = nat] by simp
qed simp

lemma unat_cksum_words: "unat s + words16 b < 2 ^ 32 \<Longrightarrow> unat (cksum_words s b) = unat s + words16 b"
proof (induction s b rule: cksum_words.induct)
  case (1 s a b r)
  let ?p = "push_bit 8 (ucast a) OR ucast b :: u32"
  have "unat (s + ?p) = unat s + (256 * unat a + unat b)"
    using "1.prems" unat_byte_pair [of a b] by (simp add: unat_word_ariths)
  then show ?case using 1 by simp
next
  case (2 s a)
  have "unat (push_bit 8 (ucast a) :: u32) = 256 * unat a" using unat_byte_pair [of a 0] by simp
  then show ?case using 2 by (simp add: unat_word_ariths)
qed simp

lemma fold16_step: "65536 \<le> s \<Longrightarrow> fold16 (s mod 65536 + s div 65536) = fold16 s"
proof -
  assume s: "65536 \<le> s"
  define q r where "q = s div 65536" and "r = s mod 65536"
  have e: "s = 65536 * q + r" by (simp add: q_def r_def)
  have q: "0 < q" using s by (simp add: q_def div_greater_zero_iff)
  then have "s - 1 = (r + q - 1) + 65535 * q" using e by simp
  then have "(s - 1) mod 65535 = (r + q - 1) mod 65535" by (metis mod_mult_self2)
  then show ?thesis using q s by (simp add: fold16_def q_def [symmetric] r_def [symmetric])
qed

lemma unat_cksum_fold: "unat (cksum_fold s) = fold16 (unat s)"
proof (induction s rule: cksum_fold.induct)
  case (1 s)
  have d: "unat (drop_bit 16 s) = unat s div 65536" by (simp add: unat_drop_bit_eq drop_bit_nat_def)
  show ?case
  proof (cases "drop_bit 16 s = 0")
    case True
    then have "unat s div 65536 = 0" using d by simp
    then have "unat s < 65536" by (simp add: div_eq_0_iff)
    then show ?thesis using True by (auto simp: cksum_fold.simps [of s] fold16_def)
  next
    case False
    then have "unat s div 65536 \<noteq> 0" using d by (metis unat_eq_zero)
    then have "65536 \<le> unat s" by (simp add: div_eq_0_iff)
    from fold16_step [OF this] show ?thesis
      using False 1 by (simp add: cksum_fold.simps [of s] unat_fold_step)
  qed
qed

lemma fold16_le: "fold16 s \<le> 65535"
  using mod_less_divisor [of 65535 "s - 1"] by (simp add: fold16_def Suc_leI del: mod_less_divisor)

lemma unat_cksum:
  assumes "words16 b < 2 ^ 32"
  shows "unat (cksum b) = 65535 - fold16 (words16 b)"
proof -
  let ?f = "cksum_fold (cksum_words 0 b)"
  have f: "unat ?f = fold16 (words16 b)" using unat_cksum_words [of 0 b] assms by (simp add: unat_cksum_fold)
  then have l: "unat ?f \<le> 65535" by (simp add: fold16_le)
  have "NOT ?f = - 1 - ?f" by (simp add: not_eq_complement)
  moreover have "unat (- 1 :: u32) = 2 ^ 32 - 1" by (simp add: unsigned_minus_1_eq_mask mask_eq_exp_minus_1)
  ultimately have "unat (NOT ?f) = 2 ^ 32 - 1 - unat ?f" by (simp add: unat_sub)
  then have "unat (cksum b) = (65535 - unat ?f + 65535 * 65536) mod 65536"
    using l by (simp add: cksum_def unsigned_ucast_eq take_bit_nat_def)
  then have "unat (cksum b) = (65535 - unat ?f) mod 65536" by (simp only: mod_mult_self1)
  then show ?thesis by (simp add: f)
qed

lemma words16_append: "even (length a) \<Longrightarrow> words16 (a @ b) = words16 a + words16 b"
  by (induction a rule: words16.induct) simp_all

lemma unat_be16: "unat (be16 v) = 256 * (unat v mod 256) + unat v div 256"
proof -
  have "drop_bit 8 v OR push_bit 8 v = (drop_bit 8 v + push_bit 8 v :: u16)"
    by (rule disjunctive_add [symmetric]) (auto simp: bit_simps dest: bit_imp_le_length)
  moreover have "unat v < 65536" using unsigned_less [of v, where ?'a = nat] by simp
  then have "unat v div 256 < 256" by (simp add: less_mult_imp_div_less)
  moreover have "unat (push_bit 8 v) = 256 * (unat v mod 256)"
    by (simp add: push_bit_eq_mult unat_word_ariths mult.commute [of _ 256] mod_mult_mult1 [of 256 _ 256, simplified])
  ultimately show ?thesis by (simp add: be16_def unat_word_ariths unat_drop_bit_eq drop_bit_nat_def)
qed

lemma le_bytes_2: "le_bytes 2 v = [ucast v, ucast (drop_bit 8 v)]"
  by (simp add: le_bytes_def numeral_2_eq_2)

lemma words16_le_bytes: "words16 (le_bytes 2 (v :: u16) @ r) = unat (be16 v) + words16 r"
proof -
  have "unat v < 65536" using unsigned_less [of v, where ?'a = nat] by simp
  then have "unat v div 256 < 256" by (simp add: less_mult_imp_div_less)
  then show ?thesis
    by (simp add: le_bytes_2 unat_be16 unsigned_ucast_eq take_bit_nat_def unat_drop_bit_eq drop_bit_nat_def)
qed

text \<open>A checksum \<open>c\<close> inserted into a sum that folds to its complement: in network order the whole folds to all ones, in
  the machine's order only if the two bytes of \<open>c\<close> are equal.\<close>

lemma fold16_full: "0 < s \<Longrightarrow> fold16 s = 65535 \<longleftrightarrow> 65535 dvd s"
proof -
  assume "0 < s"
  then obtain t where t: "s = Suc t" by (cases s) auto
  have "t mod 65535 = 65534 \<longleftrightarrow> Suc t mod 65535 = 0" by (simp add: mod_Suc)
  then show ?thesis by (simp add: fold16_def t dvd_eq_mod_eq_0)
qed

lemma fold16_cong: "\<exists>k. s = 65535 * k + fold16 s"
proof (cases "s = 0")
  case False
  define q r where "q = (s - 1) div 65535" and "r = (s - 1) mod 65535"
  have "s - 1 = 65535 * q + r" by (simp add: q_def r_def)
  then have "s = 65535 * q + Suc r" using False by linarith
  then have "s = 65535 * q + fold16 s" using False by (simp add: fold16_def r_def)
  then show ?thesis by blast
qed (simp add: fold16_def)

lemma swapped_checksum:
  fixes s c :: nat
  assumes "c = 65535 - fold16 s" "0 < s"
  shows "fold16 (s + (256 * (c mod 256) + c div 256)) = 65535 \<longleftrightarrow> c div 256 = c mod 256"
    and "fold16 (s + c) = 65535"
proof -
  obtain k where k: "s = 65535 * k + fold16 s" using fold16_cong by blast
  have f: "fold16 s \<le> 65535" by (rule fold16_le)
  then have "s + c = 65535 * Suc k" using k assms(1) by simp
  then show "fold16 (s + c) = 65535" using fold16_full [of "s + c"] assms(2) by (metis add_gr_0 dvd_triv_left)
  define h l where "h = c div 256" and "l = c mod 256"
  have c: "c = 256 * h + l" by (simp add: h_def l_def)
  have "c < 65536" using assms(1) by simp
  then have b: "h < 256" "l < 256" by (simp_all add: h_def l_def less_mult_imp_div_less)
  have "int (s + (256 * l + h)) = 65535 * (int k + 1) + 255 * (int l - int h)" using k assms(1) c f by simp
  then have "65535 dvd s + (256 * l + h) \<longleftrightarrow> (65535 :: int) dvd 255 * (int l - int h)"
    by (metis dvd_add_right_iff dvd_triv_left int_dvd_int_iff of_nat_numeral)
  also have "\<dots> \<longleftrightarrow> 257 dvd (int l - int h)" using dvd_mult_cancel_left [of 255 257 "int l - int h"] by simp
  also have "\<dots> \<longleftrightarrow> l = h"
  proof
    assume d: "257 dvd (int l - int h)"
    show "l = h" using dvd_imp_le_int [OF _ d] b by (cases "l = h") auto
  qed simp
  finally have e: "65535 dvd s + (256 * l + h) \<longleftrightarrow> l = h" .
  have "0 < s + (256 * l + h)" using assms(2) by simp
  from fold16_full [OF this] e show "fold16 (s + (256 * (c mod 256) + c div 256)) = 65535 \<longleftrightarrow> c div 256 = c mod 256"
    unfolding h_def [symmetric] l_def [symmetric] by blast
qed

lemma length_ip_hdr: "length dst = 4 \<Longrightarrow> length (ip_hdr k proto dst c) = 20"
  by (simp add: ip_hdr_def our_ip_def)

lemma words16_ip_hdr:
  assumes "length dst = 4"
  shows "words16 (ip_hdr k proto dst c) = words16 (ip_hdr k proto dst 0) + unat (be16 c)"
proof -
  define a where "a = [0x45, 0] @ le_bytes 2 (be16 (of_nat (20 + k))) @ le_bytes 2 (be16 0x1234) @ [0, 0] @ [64, proto]"
  have "ip_hdr k proto dst x = a @ le_bytes 2 x @ our_ip @ dst" for x by (simp add: ip_hdr_def a_def)
  moreover have "even (length a)" by (simp add: a_def)
  moreover have "unat (be16 0) = 0" by (simp add: unat_be16)
  ultimately show ?thesis by (simp add: words16_append words16_le_bytes)
qed

lemma words16_ip_hdr_bound:
  assumes "length dst = 4"
  shows "words16 (ip_hdr k proto dst c) < 2 ^ 32" "0 < words16 (ip_hdr k proto dst c)"
  using words16_le [of "ip_hdr k proto dst c"] length_ip_hdr [OF assms] by (simp_all add: ip_hdr_def)

lemma cksum_zero_iff: "words16 b < 2 ^ 32 \<Longrightarrow> cksum b = 0 \<longleftrightarrow> fold16 (words16 b) = 65535"
  using unat_cksum [of b] fold16_le [of "words16 b"] by (simp add: unat_eq_0 [symmetric] del: unat_eq_0)

section \<open>Byte order of received fields\<close>

lemma byte_high_bit: "\<not> bit (y :: u8) (8 + n)"
  by (auto dest: bit_imp_le_length)

lemma be16_le_word: "be16 (le_word [x, y]) = v \<longleftrightarrow> [x, y] = [ucast (drop_bit 8 v), ucast v]"
proof -
  have b: "be16 (le_word [x, y]) = push_bit 8 (ucast x) OR (ucast y :: u16)"
    by (rule bit_word_eqI) (auto simp: be16_def le_word_def bit_simps byte_high_bit dest: bit_imp_le_length)
  show ?thesis
  proof
    assume "be16 (le_word [x, y]) = v"
    then have v: "v = push_bit 8 (ucast x) OR ucast y" using b by simp
    show "[x, y] = [ucast (drop_bit 8 v), ucast v]"
      unfolding v by (auto intro!: bit_word_eqI simp: bit_simps byte_high_bit dest: bit_imp_le_length)
  next
    assume "[x, y] = [ucast (drop_bit 8 v), ucast v]"
    then have "x = ucast (drop_bit 8 v)" "y = ucast v" by simp_all
    then show "be16 (le_word [x, y]) = v"
      unfolding b by (auto intro!: bit_word_eqI simp: bit_simps not_less)
  qed
qed

lemma be16_be16: "be16 (be16 v) = v"
proof (rule bit_word_eqI)
  fix n
  assume "n < LENGTH(16)"
  then show "bit (be16 (be16 v)) n \<longleftrightarrow> bit v n"
    by (cases "n < 8") (auto simp: be16_def bit_simps dest: bit_imp_le_length)
qed

lemma take_2_drop: "Suc k < length f \<Longrightarrow> take 2 (drop k f) = [f ! k, f ! Suc k]"
  by (simp add: numeral_2_eq_2 take_Suc_conv_app_nth)

lemma le_word_be16_iff:
  "Suc k < length f \<Longrightarrow> (le_word (take 2 (drop k f)) = be16 v) = (take 2 (drop k f) = [ucast (drop_bit 8 v), ucast v])"
  using be16_le_word [of "f ! k" "f ! Suc k" v] be16_be16 by (metis take_2_drop)

lemma be16_le_word_iff:
  "Suc k < length f \<Longrightarrow> (be16 (le_word (take 2 (drop k f))) = v) = (take 2 (drop k f) = [ucast (drop_bit 8 v), ucast v])"
  using be16_le_word [of "f ! k" "f ! Suc k" v] by (simp only: take_2_drop)

section \<open>Dotted addresses\<close>

lemma foldl_dec_ge: "a \<le> foldl (\<lambda>a d. 10 * a + (unat d - 48)) a (ds :: bytes)"
proof -
  have "a * 1 \<le> a * 10 ^ length ds" by (intro mult_le_mono2) simp
  then show ?thesis by (simp only: mult_1_right foldl_dec trans_le_add1)
qed

lemma parse_ip_digits:
  assumes "list_all is_digit ds" "foldl (\<lambda>a d. 10 * a + (unat d - 48)) part ds \<le> 255"
  shows "parse_ip_loop (ds @ r) out part parts =
    parse_ip_loop r out (foldl (\<lambda>a d. 10 * a + (unat d - 48)) part ds) parts"
  using assms
proof (induction ds arbitrary: part)
  case (Cons d ds)
  have d: "48 \<le> d" "d \<le> 57" using Cons.prems(1) by (simp_all add: is_digit_def)
  then have u: "unat (d - 48) = unat d - 48" by (simp add: unat_sub)
  have "10 * part + (unat d - 48) \<le> 255"
    using Cons.prems(2) foldl_dec_ge [of "10 * part + (unat d - 48)" ds] by (simp del: foldl_dec)
  then show ?case using Cons d by (simp add: u mult.commute [of part])
qed simp

lemma parse_ip_dec: "unat v \<le> 255 \<Longrightarrow> parse_ip_loop (uart_dec v @ r) out 0 parts = parse_ip_loop r out (unat v) parts"
  using parse_ip_digits [of "uart_dec v" 0 r out parts] uart_dec_correct [of v] by (simp add: dec_value_def)

lemma octet_unat: "unat (ucast (w AND 0xFF :: u32) :: u64) = unat (w AND 0xFF)" "unat (w AND 0xFF :: u32) \<le> 255"
proof -
  have "w AND 0xFF = take_bit 8 w" by (simp add: take_bit_eq_mask mask_eq_exp_minus_1)
  then have "unat (w AND 0xFF) = unat w mod 256" by (simp add: unsigned_take_bit_eq take_bit_nat_def)
  moreover have "unat w mod 256 < 256" by simp
  ultimately show l: "unat (w AND 0xFF :: u32) \<le> 255" by linarith
  then show "unat (ucast (w AND 0xFF :: u32) :: u64) = unat (w AND 0xFF)"
    by (simp add: unsigned_ucast_eq take_bit_nat_eq_self)
qed

lemma octet_join: "push_bit 8 (drop_bit (n + 8) w) OR (drop_bit n w AND 0xFF) = (drop_bit n w :: u32)"
proof (rule bit_word_eqI)
  fix i
  assume "i < LENGTH(32)"
  have "(0xFF :: u32) = mask 8" by (simp add: mask_eq_exp_minus_1)
  then have "bit (0xFF :: u32) i \<longleftrightarrow> i < 8" using \<open>i < LENGTH(32)\<close> by (simp only: bit_mask_iff) auto
  then show "bit (push_bit 8 (drop_bit (n + 8) w) OR (drop_bit n w AND 0xFF)) i \<longleftrightarrow> bit (drop_bit n w) i"
    using \<open>i < LENGTH(32)\<close> by (cases "i < 8") (auto simp: bit_or_iff bit_and_iff bit_push_bit_iff bit_drop_bit_eq not_less)
qed

lemma uart_dec_no_NUL: "0 \<notin> set (uart_dec v)"
proof
  assume "0 \<in> set (uart_dec v)"
  moreover have "list_all is_digit (uart_dec v)" using uart_dec_correct [of v] by blast
  ultimately have "is_digit 0" by (simp only: list_all_iff)
  then show False by (simp add: is_digit_def)
qed

lemma dotted_no_NUL: "cstr (dotted ip) = dotted ip"
proof -
  have "0 \<notin> set (dotted ip)" by (simp add: dotted_def uart_putc_def uart_dec_no_NUL)
  then show ?thesis unfolding cstr_def by (subst takeWhile_eq_all_conv) auto
qed

lemma net_parse_ip_dotted: "ip \<noteq> 0 \<Longrightarrow> ip \<noteq> 0xFFFFFFFF \<Longrightarrow> net_parse_ip (dotted ip) = ip"
proof -
  assume ip: "ip \<noteq> 0" "ip \<noteq> 0xFFFFFFFF"
  have a: "drop_bit 24 ip AND 0xFF = drop_bit 24 ip"
  proof -
    have "drop_bit 32 ip = 0" by (rule bit_word_eqI) (auto simp: bit_simps dest: bit_imp_le_length)
    then show ?thesis using octet_join [of 24 ip] by simp
  qed
  then have "push_bit 8 (drop_bit 24 ip AND 0xFF) OR (drop_bit 16 ip AND 0xFF) = drop_bit 16 ip"
    using octet_join [of 16 ip] by simp
  then have "parse_ip_loop (dotted ip) 0 0 0 = Some (drop_bit 8 ip, unat (ip AND 0xFF), 3)"
    using octet_join [of 8 ip] parse_ip_dec [of "ucast (ip AND 0xFF)" "[]"]
    by (simp add: dotted_def uart_putc_def parse_ip_dec octet_unat)
  then show ?thesis
    using ip octet_join [of 0 ip] by (simp add: net_parse_ip_def dotted_no_NUL)
qed

section \<open>The gateway and the answers\<close>

text \<open>Received packets read field by field in network order.\<close>

definition is_arp :: "bytes \<Rightarrow> bool" where
  "is_arp f \<longleftrightarrow> 42 \<le> length f \<and> take 2 (drop 12 f) = [0x08, 0x06]"

definition gw_claim :: "bytes \<Rightarrow> bytes option" where
  "gw_claim f = (if is_arp f \<and> take 2 (drop 20 f) = [0, 2] \<and> take 4 (drop 28 f) = [10, 0, 2, 2] then Some (take 6 (drop 22 f)) else None)"

definition who_has_us :: "bytes \<Rightarrow> bool" where
  "who_has_us f \<longleftrightarrow> is_arp f \<and> take 2 (drop 20 f) = [0, 1] \<and> take 4 (drop 38 f) = [10, 0, 2, 15]"

definition arp_answer :: "bytes \<Rightarrow> bytes \<Rightarrow> bytes" where
  "arp_answer mac f =
     take 6 (drop 22 f) @ mac @ [0x08, 0x06] @ [0, 1, 0x08, 0, 6, 4, 0, 2] @ mac @ [10, 0, 2, 15] @ take 10 (drop 22 f)"

definition learn_gw :: "bytes \<Rightarrow> net \<Rightarrow> net" where
  "learn_gw f n = (case gw_claim f of None \<Rightarrow> n | Some m \<Rightarrow> n\<lparr>gw_mac := m, have_gw_mac := True\<rparr>)"

definition is_ip :: "bytes \<Rightarrow> bool" where
  "is_ip f \<longleftrightarrow> 34 \<le> length f \<and> take 2 (drop 12 f) = [0x08, 0x00]"

lemma arp_send_answer:
  assumes "length mac = 6" "42 \<le> length f"
  shows "arp_send mac 2 (take 6 (drop 22 f)) (take 4 (drop 28 f)) = arp_answer mac f"
proof -
  have "le_bytes 2 (be16 1) = [0, 1]" "le_bytes 2 (be16 0x0806) = [8, 6]" "le_bytes 2 (be16 0x0800) = [8, 0]" "le_bytes 2 (be16 2) = [0, 2]"
    by code_simp+
  moreover have "take 10 (drop 22 f) = take 6 (drop 22 f) @ take 4 (drop 28 f)"
    using take_add [of 6 4 "drop 22 f"] by simp
  ultimately show ?thesis using assms by (simp add: arp_send_def eth_send_def arp_answer_def our_ip_def)
qed

lemma handle_rx_arp:
  assumes "is_arp f" "length mac = 6"
  shows "handle_rx mac f n = (if who_has_us f then [arp_answer mac f] else [], learn_gw f n)"
proof -
  have l: "42 \<le> length f" using assms(1) by (simp add: is_arp_def)
  let ?a = "take 28 (drop 14 f)"
  have "le_word (take 2 (drop 12 f)) = be16 0x0806"
    using assms(1) le_word_be16_iff [of 12 f "0x0806"] by (simp add: is_arp_def)
  then have h: "handle_rx mac f n = handle_arp mac ?a n" using l by (simp add: handle_rx_def)
  have d: "take 2 (drop 6 ?a) = take 2 (drop 20 f)" "take 6 (drop 8 ?a) = take 6 (drop 22 f)"
      "take 4 (drop 14 ?a) = take 4 (drop 28 f)" "take 4 (drop 24 ?a) = take 4 (drop 38 f)"
    by (simp_all add: drop_take min_def)
  have o: "be16 (le_word (take 2 (drop 20 f))) = 1 \<longleftrightarrow> take 2 (drop 20 f) = [0, 1]"
      "be16 (le_word (take 2 (drop 20 f))) = 2 \<longleftrightarrow> take 2 (drop 20 f) = [0, 2]"
    using l be16_le_word_iff [of 20 f 1] be16_le_word_iff [of 20 f 2] by simp_all
  show ?thesis
    using assms l arp_send_answer [OF assms(2) l]
    by (simp add: h handle_arp_def Let_def d o who_has_us_def learn_gw_def gw_claim_def our_ip_def gw_ip_def)
qed

lemma handle_rx_other:
  assumes "\<not> is_arp f" "\<not> is_ip f"
  shows "handle_rx mac f n = ([], n)"
proof (cases "length f < 16")
  case False
  then show ?thesis
    using assms le_word_be16_iff [of 12 f "0x0806"] le_word_be16_iff [of 12 f "0x0800"]
    by (auto simp: handle_rx_def Let_def is_arp_def is_ip_def)
qed (simp add: handle_rx_def)

lemma ip_not_arp: "is_ip f \<Longrightarrow> \<not> is_arp f"
  by (auto simp: is_ip_def is_arp_def)

lemma icmp_reply_cases:
  obtains b n' where "icmp_reply mac src req n = (ip_send mac n src 1 b, n')" "gw_mac n' = gw_mac n" "have_gw_mac n' = have_gw_mac n"
  unfolding icmp_reply_def Let_def by auto

lemma handle_rx_ip:
  assumes "is_ip f"
  shows "handle_rx mac f n = handle_ip mac (take 20 (drop 14 f)) (drop 34 f) n"
  using assms le_word_be16_iff [of 12 f "0x0806"] le_word_be16_iff [of 12 f "0x0800"]
  by (auto simp: handle_rx_def Let_def is_ip_def)

lemma handle_rx_ip_gw:
  assumes "is_ip f"
  shows "gw_mac (snd (handle_rx mac f n)) = gw_mac n" "have_gw_mac (snd (handle_rx mac f n)) = have_gw_mac n"
  using icmp_reply_cases [of mac "take 4 (drop 12 (take 20 (drop 14 f)))" "drop 34 f" n]
  by (simp_all only: handle_rx_ip [OF assms]) (force simp: handle_ip_def)+

lemma ip_send_is_ip:
  assumes "length mac = 6" "length (gw_mac n) = 6"
  shows "\<not> is_arp (ip_send mac n dst proto body)"
proof -
  have "le_bytes 2 (be16 0x0800) = [8, 0]" by code_simp
  then show ?thesis using assms by (auto simp: ip_send_def Let_def eth_send_def is_arp_def bcast_def)
qed

lemma handle_rx_ip_tx:
  assumes "is_ip f" "length mac = 6" "length (gw_mac n) = 6"
  shows "filter is_arp (fst (handle_rx mac f n)) = []"
proof -
  obtain b n' where r: "icmp_reply mac (take 4 (drop 12 (take 20 (drop 14 f)))) (drop 34 f) n =
      (ip_send mac n (take 4 (drop 12 (take 20 (drop 14 f)))) 1 b, n')" by (rule icmp_reply_cases)
  show ?thesis
    unfolding handle_rx_ip [OF assms(1)] handle_ip_def r Let_def by (simp add: ip_send_is_ip [OF assms(2,3)])
qed

lemma arp_answer_is_arp: "length mac = 6 \<Longrightarrow> who_has_us f \<Longrightarrow> is_arp (arp_answer mac f)"
  by (auto simp: who_has_us_def is_arp_def arp_answer_def)

text \<open>One received packet: what it does to the gateway and the ARP packets it causes.\<close>

lemma handle_rx_gw:
  assumes "length mac = 6" "length (gw_mac n) = 6"
  shows "(have_gw_mac (snd (handle_rx mac f n)), gw_mac (snd (handle_rx mac f n))) =
      (case gw_claim f of None \<Rightarrow> (have_gw_mac n, gw_mac n) | Some m \<Rightarrow> (True, m))"
    and "filter is_arp (fst (handle_rx mac f n)) = (if who_has_us f then [arp_answer mac f] else [])"
    and "length (gw_mac (snd (handle_rx mac f n))) = 6"
proof -
  consider "is_arp f" | "is_ip f" | "\<not> is_arp f" "\<not> is_ip f" by blast
  then show "(have_gw_mac (snd (handle_rx mac f n)), gw_mac (snd (handle_rx mac f n))) =
      (case gw_claim f of None \<Rightarrow> (have_gw_mac n, gw_mac n) | Some m \<Rightarrow> (True, m))"
    by cases (auto simp: handle_rx_arp assms learn_gw_def handle_rx_ip_gw(1,2) handle_rx_other gw_claim_def dest: ip_not_arp split: option.split)
  consider "is_arp f" | "is_ip f" | "\<not> is_arp f" "\<not> is_ip f" by blast
  then show "filter is_arp (fst (handle_rx mac f n)) = (if who_has_us f then [arp_answer mac f] else [])"
    by cases (auto simp: handle_rx_arp handle_rx_ip_tx assms arp_answer_is_arp handle_rx_other who_has_us_def dest: ip_not_arp)
  consider "is_arp f" | "is_ip f" | "\<not> is_arp f" "\<not> is_ip f" by blast
  then show "length (gw_mac (snd (handle_rx mac f n))) = 6"
    by cases (auto simp: handle_rx_arp assms learn_gw_def handle_rx_ip_gw(1,2) handle_rx_other gw_claim_def is_arp_def)
qed

section \<open>Properties\<close>

text \<open>C18. The ARP part of the stack over any sequence of received packets, whatever else is among them: the gateway's
  address is the one of the last ARP reply that names 10.0.2.2 as its sender (and known only after such a reply), and
  the ARP packets sent are exactly the answers to the requests for 10.0.2.15, in their order, each byte of them as the
  protocol wants it.\<close>

theorem net_poll_arp:
  assumes "length mac = 6" "length (gw_mac n) = 6"
  shows "(have_gw_mac (snd (net_poll mac fs n)), gw_mac (snd (net_poll mac fs n))) =
      foldl (\<lambda>g f. case gw_claim f of None \<Rightarrow> g | Some m \<Rightarrow> (True, m)) (have_gw_mac n, gw_mac n) fs
    \<and> filter is_arp (fst (net_poll mac fs n)) = map (arp_answer mac) (filter who_has_us fs)"
  using assms(2)
proof (induction fs arbitrary: n)
  case (Cons f fs)
  note h = handle_rx_gw [OF assms(1) Cons.prems, of f]
  show ?case
    using Cons.IH [OF h(3)] h(1,2) by (simp add: split_beta Let_def)
qed simp

text \<open>C38. The checksum of every IPv4 header sent is stored in the byte order of the machine: with the two bytes in
  network order the header would sum to zero as the protocol requires, but as sent it does so exactly when the two bytes
  of the checksum happen to be equal.\<close>

theorem ip_checksum_byte_order:
  assumes "length mac = 6" "length (gw_mac n) = 6" "length dst = 4" "length body \<le> 1466"
    and "c = cksum (ip_hdr (length body) proto dst 0)"
  shows "cksum (ip_hdr (length body) proto dst (be16 c)) = 0
    \<and> (cksum (take 20 (drop 14 (ip_send mac n dst proto body))) = 0 \<longleftrightarrow> unat c div 256 = unat c mod 256)"
proof -
  let ?h = "ip_hdr (length body) proto dst"
  let ?s = "words16 (?h 0)"
  note b = words16_ip_hdr_bound [OF assms(3)]
  have c: "unat c = 65535 - fold16 ?s" unfolding assms(5) by (rule unat_cksum [OF b(1)])
  have "take 20 (drop 14 (ip_send mac n dst proto body)) = ?h c"
    using assms length_ip_hdr [OF assms(3)] by (simp add: ip_send_def Let_def eth_send_def bcast_def)
  moreover have "cksum (?h c) = 0 \<longleftrightarrow> unat c div 256 = unat c mod 256"
    using cksum_zero_iff [OF b(1)] swapped_checksum(1) [OF c b(2)] by (simp add: words16_ip_hdr [OF assms(3), of _ _ c] unat_be16)
  moreover have "cksum (?h (be16 c)) = 0"
    using cksum_zero_iff [OF b(1)] swapped_checksum(2) [OF c b(2)] by (simp add: words16_ip_hdr [OF assms(3), of _ _ "be16 c"] be16_be16)
  ultimately show ?thesis by simp
qed

text \<open>C28. Dotted addresses: what \<^verbatim>\<open>net_ping\<close> prints for an address is read back by \<^verbatim>\<open>net_parse_ip\<close> as the same
  address (0.0.0.0 and the broadcast address are rejected on purpose). The parsed value has the first part in its top
  byte while the echo request copies it from memory lowest byte first, so the packet is addressed to the parts in
  reverse.\<close>

theorem net_parse_ip_roundtrip:
  assumes "ip \<noteq> 0" "ip \<noteq> 0xFFFFFFFF" "length mac = 6" "length (gw_mac n) = 6"
  shows "net_parse_ip (dotted ip) = ip
    \<and> take 4 (drop 30 (icmp_echo_request mac n (net_parse_ip (dotted ip)) seq)) = rev (be_bytes 4 ip)"
proof -
  have "length (le_bytes 4 ip) = 4" by simp
  from length_ip_hdr [OF this] have "take 4 (drop 30 (icmp_echo_request mac n ip seq)) = le_bytes 4 ip"
    using assms(3,4) by (simp add: icmp_echo_request_def ip_send_def Let_def eth_send_def bcast_def set_checksum_def drop_take min_def)
      (simp add: ip_hdr_def our_ip_def)
  then show ?thesis using net_parse_ip_dotted [OF assms(1,2)] by (simp add: be_bytes_def)
qed

section \<open>Witnesses\<close>

definition net0 :: net where
  "net0 = \<lparr>gw_mac = replicate 6 0, have_gw_mac = False, reply_body = replicate 1500 0\<rparr>"

definition mac0 :: bytes where
  "mac0 = [0x52, 0x54, 0, 0x12, 0x34, 0x56]"

definition gw_frame :: bytes where
  "gw_frame = mac0 @ [2, 3, 4, 5, 6, 7] @ [8, 6, 0, 1, 8, 0, 6, 4, 0, 2] @ [2, 3, 4, 5, 6, 7] @ [10, 0, 2, 2] @ mac0 @ [10, 0, 2, 15]"

lemma mac0_len: "length mac0 = 6"
  by (simp add: mac0_def)

lemma net0_gw: "length (gw_mac net0) = 6"
  by (simp add: net0_def)

theorem net_poll_arp_witness:
  "(have_gw_mac (snd (net_poll mac0 [gw_frame] net0)), gw_mac (snd (net_poll mac0 [gw_frame] net0))) = (True, [2, 3, 4, 5, 6, 7])
   \<and> filter is_arp (fst (net_poll mac0 [gw_frame] net0)) = []"
proof -
  have "gw_claim gw_frame = Some [2, 3, 4, 5, 6, 7]" "\<not> who_has_us gw_frame" by code_simp+
  then show ?thesis using net_poll_arp [of mac0 net0 "[gw_frame]"] by (simp add: mac0_len net0_def del: net_poll.simps)
qed

theorem ip_checksum_byte_order_witness:
  "cksum (take 20 (drop 14 (ip_send mac0 net0 [10, 0, 2, 2] 1 (replicate 40 0)))) \<noteq> 0"
proof -
  have "0x507d = cksum (ip_hdr (length (replicate 40 (0 :: u8))) 1 [10, 0, 2, 2] 0)" by code_simp
  from ip_checksum_byte_order [OF mac0_len _ _ _ this, of net0] show ?thesis by (simp add: net0_def)
qed

theorem net_parse_ip_roundtrip_witness:
  "net_parse_ip (dotted 0x0A000202) = 0x0A000202
   \<and> take 4 (drop 30 (icmp_echo_request mac0 net0 (net_parse_ip (dotted 0x0A000202)) 1)) = [2, 2, 0, 10]"
proof -
  have e: "rev (be_bytes 4 (0x0A000202 :: u32)) = [2, 2, 0, 10]" by code_simp
  have "(0x0A000202 :: u32) \<noteq> 0" "(0x0A000202 :: u32) \<noteq> 0xFFFFFFFF" by simp_all
  from net_parse_ip_roundtrip [OF this mac0_len net0_gw, of 1] show ?thesis unfolding e .
qed

end
