(* ===== verification/Smp.thy ===== *)
theory Smp
  imports Uart "HOL-Library.Multiset"
begin

text \<open>
  The secondary cores, \<^verbatim>\<open>src/boot/aarch64/smp.c\<close>: the job queue that the primary core fills and the workers empty
  under a spinlock, and the reports.  The operations are first defined as the functions they are when nobody interferes.
  The second part interleaves the cores at the granularity of the accesses to shared memory: every core has a position in
  the code, and the store-exclusive of \<^verbatim>\<open>spin_lock\<close> that succeeds is one step.  The functions given as jobs are
  addresses.  The queue indices are never negative.
\<close>

section \<open>State and operations\<close>

record job =
  job_fn :: u64
  job_arg :: u64

record smp =
  jobq :: "job list"
  q_head :: nat
  q_tail :: nat
  q_lock :: u32
  ap_online :: u32
  ap_mpidr :: "u64 list"
  ap_job_count :: u64

abbreviation (input) MAX_APS :: nat where "MAX_APS \<equiv> 4"
abbreviation (input) JOB_QUEUE :: nat where "JOB_QUEUE \<equiv> 16"

function popcnt_loop :: "u32 \<Rightarrow> nat \<Rightarrow> nat" where
  "popcnt_loop v c = (if v \<noteq> 0 then popcnt_loop (v AND (v - 1)) (Suc c) else c)"
  by auto

termination popcnt_loop
proof (relation "measure (\<lambda>(v, c). unat v)")
  fix v :: u32 and c :: nat
  assume "v \<noteq> 0"
  then have "v - 1 < v" by (simp add: word_less_nat_alt unat_minus_one unat_gt_0)
  then have "v AND (v - 1) < v" by (rule le_less_trans [OF word_and_le1])
  then show "((v AND (v - 1), Suc c), v, c) \<in> measure (\<lambda>(v, c). unat v)" by (simp add: word_less_nat_alt)
qed simp

declare popcnt_loop.simps [simp del]

definition popcnt :: "u32 \<Rightarrow> nat" where
  "popcnt v = popcnt_loop v 0"

definition spin_init :: "smp \<Rightarrow> smp" where
  "spin_init s = s\<lparr>q_lock := 0\<rparr>"

definition spin_lock :: "smp \<Rightarrow> smp option" where
  "spin_lock s = (if q_lock s = 0 then Some (s\<lparr>q_lock := 1\<rparr>) else None)"

definition spin_unlock :: "smp \<Rightarrow> smp" where
  "spin_unlock s = s\<lparr>q_lock := 0\<rparr>"

text \<open>What \<^verbatim>\<open>smp_submit\<close> and \<^verbatim>\<open>job_pop\<close> do to the queue between lock and unlock.\<close>

definition queue_put :: "job \<Rightarrow> smp \<Rightarrow> smp option" where
  "queue_put j s =
     (let next = (q_tail s + 1) mod JOB_QUEUE
      in if next = q_head s then None
         else Some (s\<lparr>jobq := (jobq s)[q_tail s := j], q_tail := next\<rparr>))"

definition queue_get :: "smp \<Rightarrow> (job \<times> smp) option" where
  "queue_get s =
     (if q_head s \<noteq> q_tail s then Some (jobq s ! q_head s, s\<lparr>q_head := (q_head s + 1) mod JOB_QUEUE\<rparr>) else None)"

definition smp_submit :: "job \<Rightarrow> smp \<Rightarrow> smp option" where
  "smp_submit j s =
     (case spin_lock s of None \<Rightarrow> None
      | Some s \<Rightarrow>
          (case queue_put j s of None \<Rightarrow> Some (spin_unlock s)
           | Some s \<Rightarrow> let s = spin_unlock s in Some (s\<lparr>ap_job_count := ap_job_count s + 1\<rparr>)))"

definition job_pop :: "smp \<Rightarrow> (job option \<times> smp) option" where
  "job_pop s =
     (case spin_lock s of None \<Rightarrow> None
      | Some s \<Rightarrow>
          (case queue_get s of None \<Rightarrow> Some (None, spin_unlock s) | Some (j, s) \<Rightarrow> Some (Some j, spin_unlock s)))"

definition smp_online_count :: "smp \<Rightarrow> nat" where
  "smp_online_count s = popcnt (ap_online s)"

text \<open>Start-up of the primary: the results of the four power-on calls, and the mask of the workers that have come up when
  the delay is over.\<close>

definition smp_init :: "int list \<Rightarrow> u32 \<Rightarrow> smp \<Rightarrow> bytes \<times> smp" where
  "smp_init results online s =
     (let s = (spin_init s)\<lparr>ap_online := online\<rparr>;
          started = length (filter (\<lambda>r. r = 0) results)
      in (uart_puts (str ''[smp] APs online: '' @ uart_dec (of_nat (popcnt (ap_online s))) @ str ''/'' @ uart_dec (of_nat MAX_APS))
          @ (if started = 0 \<and> ap_online s = 0 then uart_puts (str ''[smp] no secondary cores (boot with -smp N)'') else []), s))"

definition ap_arrive :: "nat \<Rightarrow> u64 \<Rightarrow> smp \<Rightarrow> bytes \<times> smp" where
  "ap_arrive ctx mpidr s =
     (let s = s\<lparr>ap_mpidr := (ap_mpidr s)[ctx - 1 := mpidr]\<rparr>;
          s = s\<lparr>ap_online := ap_online s OR push_bit (ctx - 1) 1\<rparr>
      in (uart_puts (str ''[smp] cpu online: id='' @ uart_dec (of_nat ctx) @ str '' mpidr=0x'' @ hex_loop 16 mpidr []), s))"

definition worker_line :: "smp \<Rightarrow> nat \<Rightarrow> bytes" where
  "worker_line s i =
     (if ap_online s AND push_bit i 1 = 0 then []
      else uart_puts_nolf (str ''    cpu'') @ uart_dec (of_nat (i + 1)) @ uart_puts_nolf (str '' (worker)   mpidr=0x'')
           @ uart_hex (ap_mpidr s ! i) @ uart_puts [])"

definition smp_report :: "u64 \<Rightarrow> smp \<Rightarrow> bytes" where
  "smp_report mpidr s =
     uart_puts (str ''  Cores:'') @ uart_puts_nolf (str ''    cpu0 (primary) mpidr=0x'') @ uart_hex mpidr @ uart_puts []
     @ concat (map (worker_line s) [0..<MAX_APS])
     @ uart_puts_nolf (str ''    jobs queued total: '') @ uart_dec (ucast (ucast (ap_job_count s) :: u32)) @ uart_puts []"

section \<open>The queue\<close>

definition jobq_wf :: "smp \<Rightarrow> bool" where
  "jobq_wf s \<longleftrightarrow> length (jobq s) = 16 \<and> q_head s < 16 \<and> q_tail s < 16"

definition queued :: "smp \<Rightarrow> nat" where
  "queued s = (q_tail s + 16 - q_head s) mod 16"

definition jobs :: "smp \<Rightarrow> job list" where
  "jobs s = ring_items (jobq s) (q_head s) (queued s)"

lemma queued_tail: "jobq_wf s \<Longrightarrow> (q_head s + queued s) mod 16 = q_tail s"
  by (auto simp: jobq_wf_def queued_def mod_add_right_eq)

lemma queued_lt: "queued s < 16"
  by (simp add: queued_def)

lemma queued_unique: "jobq_wf s \<Longrightarrow> n < 16 \<Longrightarrow> (q_head s + n) mod 16 = q_tail s \<Longrightarrow> queued s = n"
  using queued_tail [of s] queued_lt [of s] ring_index_inj [of n "queued s" 16 "q_head s"] ring_index_inj [of "queued s" n 16 "q_head s"]
  by (metis linorder_neqE_nat)

lemma queued_iff:
  assumes "jobq_wf s"
  shows "queued s = 0 \<longleftrightarrow> q_head s = q_tail s" "queued s = 15 \<longleftrightarrow> (q_tail s + 1) mod 16 = q_head s"
proof -
  have b: "q_head s < 16" "q_tail s < 16" using assms by (simp_all add: jobq_wf_def)
  show "queued s = 0 \<longleftrightarrow> q_head s = q_tail s"
    using queued_tail [OF assms] queued_unique [OF assms, of 0] b by auto
  show "queued s = 15 \<longleftrightarrow> (q_tail s + 1) mod 16 = q_head s"
  proof
    assume "queued s = 15"
    then have "(q_tail s + 1) mod 16 = (q_head s + 15 + 1) mod 16" using queued_tail [OF assms] by (metis mod_add_left_eq)
    then show "(q_tail s + 1) mod 16 = q_head s" using b by simp
  next
    assume "(q_tail s + 1) mod 16 = q_head s"
    then have "(q_head s + 15) mod 16 = (q_tail s + 1 + 15) mod 16" by (metis mod_add_left_eq)
    then show "queued s = 15" using b by (intro queued_unique [OF assms]) simp_all
  qed
qed

lemma jobs_put:
  assumes "jobq_wf s" "(q_tail s + 1) mod 16 \<noteq> q_head s"
  shows "jobs (s\<lparr>jobq := (jobq s)[q_tail s := j], q_tail := (q_tail s + 1) mod 16\<rparr>) = jobs s @ [j]"
    and "jobq_wf (s\<lparr>jobq := (jobq s)[q_tail s := j], q_tail := (q_tail s + 1) mod 16\<rparr>)"
proof -
  let ?s = "s\<lparr>jobq := (jobq s)[q_tail s := j], q_tail := (q_tail s + 1) mod 16\<rparr>"
  have "queued s \<noteq> 15" using queued_iff(2) [OF assms(1)] assms(2) by simp
  then have "queued s < 15" using queued_lt [of s] by linarith
  moreover have wf: "jobq_wf ?s" using assms(1) by (simp add: jobq_wf_def)
  moreover have "(q_head s + Suc (queued s)) mod 16 = (q_tail s + 1) mod 16"
    using queued_tail [OF assms(1)] by (metis add_Suc_right Suc_eq_plus1 mod_add_left_eq)
  ultimately have n: "queued ?s = Suc (queued s)" by (intro queued_unique) simp_all
  show "jobs ?s = jobs s @ [j]"
    using ring_items_put [of "queued s" "jobq s" "q_head s" j] queued_lt [of s] queued_tail [OF assms(1)] assms(1) n
    by (simp add: jobs_def jobq_wf_def)
  show "jobq_wf ?s" by (rule wf)
qed

lemma jobs_get:
  assumes "jobq_wf s" "q_head s \<noteq> q_tail s"
  shows "jobs s = jobq s ! q_head s # jobs (s\<lparr>q_head := (q_head s + 1) mod 16\<rparr>)"
    and "jobq_wf (s\<lparr>q_head := (q_head s + 1) mod 16\<rparr>)"
proof -
  let ?s = "s\<lparr>q_head := (q_head s + 1) mod 16\<rparr>"
  have q: "queued s \<noteq> 0" using queued_iff(1) [OF assms(1)] assms(2) by simp
  have wf: "jobq_wf ?s" using assms(1) by (simp add: jobq_wf_def)
  moreover have "((q_head s + 1) mod 16 + (queued s - 1)) mod 16 = q_tail s"
    using queued_tail [OF assms(1)] q by (subst mod_add_left_eq) simp
  ultimately have n: "queued ?s = queued s - 1" using queued_lt [of s] by (intro queued_unique) simp_all
  from q show "jobs s = jobq s ! q_head s # jobs ?s"
    using ring_items_get [of "queued s" "q_head s" "jobq s"] assms(1) n by (simp add: jobs_def jobq_wf_def)
  show "jobq_wf ?s" by (rule wf)
qed

interpretation job_fifo: bounded_fifo queue_put queue_get "\<lambda>j. j" jobs 15 jobq_wf
proof
  fix s s' j
  assume wf: "jobq_wf s"
  have l: "length (jobs s) = queued s" by (simp add: jobs_def)
  show "queue_put j s = None \<longleftrightarrow> length (jobs s) = 15" using queued_iff(2) [OF wf] by (simp add: queue_put_def Let_def l)
  show "queue_get s = None \<longleftrightarrow> jobs s = []" using queued_iff(1) [OF wf] l by (auto simp: queue_get_def)
  show "jobs s' = jobs s @ [j] \<and> jobq_wf s'" if "queue_put j s = Some s'"
    using jobs_put [OF wf, of j] that by (auto simp: queue_put_def Let_def split: if_splits)
  show "jobs s = j # jobs s' \<and> jobq_wf s'" if "queue_get s = Some (j, s')"
    using jobs_get [OF wf] that by (auto simp: queue_get_def split: if_splits)
qed

text \<open>The slot at the tail is free: writing it does not change the jobs in the queue.\<close>

lemma jobs_tail_free: "jobq_wf s \<Longrightarrow> jobs (s\<lparr>jobq := (jobq s)[q_tail s := j]\<rparr>) = jobs s"
proof -
  assume wf: "jobq_wf s"
  have "(q_head s + k) mod 16 \<noteq> q_tail s" if "k < queued s" for k
  proof
    assume "(q_head s + k) mod 16 = q_tail s"
    then have "(q_head s + k) mod 16 = (q_head s + queued s) mod 16" using queued_tail [OF wf] by simp
    then show False by (rule ring_index_inj [OF that queued_lt])
  qed
  then show ?thesis using wf by (auto simp: jobs_def ring_items_def queued_def jobq_wf_def nth_list_update_neq [OF not_sym])
qed

section \<open>Interleaving\<close>

text \<open>Positions in \<^verbatim>\<open>smp_submit\<close> (S), \<^verbatim>\<open>smp_main\<close> up to its loop (A) and \<^verbatim>\<open>job_pop\<close> (P), named after the next access.\<close>

datatype pc =
    Idle
  | S_lock job | S_next job | S_check job nat | S_drop | S_fn job nat | S_arg job nat | S_tail job nat | S_unlock
  | S_count | S_count_st u64
  | A_load nat | A_store nat u32
  | P_lock | P_check | P_copy | P_head job | P_unlock "job option" | Run job

fun core_step :: "pc \<Rightarrow> smp \<Rightarrow> (pc \<times> smp) option" where
  "core_step Idle s = None"
| "core_step (S_lock j) s = map_option (Pair (S_next j)) (spin_lock s)"
| "core_step (S_next j) s = Some (S_check j ((q_tail s + 1) mod JOB_QUEUE), s)"
| "core_step (S_check j next) s = Some (if next = q_head s then S_drop else S_fn j next, s)"
| "core_step S_drop s = Some (Idle, spin_unlock s)"
| "core_step (S_fn j next) s =
     Some (S_arg j next, s\<lparr>jobq := (jobq s)[q_tail s := (jobq s ! q_tail s)\<lparr>job_fn := job_fn j\<rparr>]\<rparr>)"
| "core_step (S_arg j next) s =
     Some (S_tail j next, s\<lparr>jobq := (jobq s)[q_tail s := (jobq s ! q_tail s)\<lparr>job_arg := job_arg j\<rparr>]\<rparr>)"
| "core_step (S_tail j next) s = Some (S_unlock, s\<lparr>q_tail := next\<rparr>)"
| "core_step S_unlock s = Some (S_count, spin_unlock s)"
| "core_step S_count s = Some (S_count_st (ap_job_count s), s)"
| "core_step (S_count_st v) s = Some (Idle, s\<lparr>ap_job_count := v + 1\<rparr>)"
| "core_step (A_load ctx) s = Some (A_store ctx (ap_online s), s)"
| "core_step (A_store ctx v) s = Some (P_lock, s\<lparr>ap_online := v OR push_bit (ctx - 1) 1\<rparr>)"
| "core_step P_lock s = map_option (Pair P_check) (spin_lock s)"
| "core_step P_check s = Some (if q_head s \<noteq> q_tail s then P_copy else P_unlock None, s)"
| "core_step P_copy s = Some (P_head (jobq s ! q_head s), s)"
| "core_step (P_head j) s = Some (P_unlock (Some j), s\<lparr>q_head := (q_head s + 1) mod JOB_QUEUE\<rparr>)"
| "core_step (P_unlock r) s = Some (case r of None \<Rightarrow> P_lock | Some j \<Rightarrow> Run j, spin_unlock s)"
| "core_step (Run j) s = Some (P_lock, s)"

text \<open>The jobs whose submission took effect, those taken out, and those whose function was called, in the order of time.\<close>

record smp_log =
  accepted :: "job list"
  taken :: "job list"
  ran :: "job list"

fun note_step :: "pc \<Rightarrow> smp_log \<Rightarrow> smp_log" where
  "note_step (S_tail j next) g = g\<lparr>accepted := accepted g @ [j]\<rparr>"
| "note_step (P_head j) g = g\<lparr>taken := taken g @ [j]\<rparr>"
| "note_step (Run j) g = g\<lparr>ran := ran g @ [j]\<rparr>"
| "note_step _ g = g"

inductive smp_step :: "pc list \<times> smp \<times> smp_log \<Rightarrow> pc list \<times> smp \<times> smp_log \<Rightarrow> bool" where
  submit: "i < length cs \<Longrightarrow> cs ! i = Idle \<Longrightarrow> smp_step (cs, s, g) (cs[i := S_lock j], s, g)"
| exec: "i < length cs \<Longrightarrow> core_step (cs ! i) s = Some (pc', s') \<Longrightarrow>
    smp_step (cs, s, g) (cs[i := pc'], s', note_step (cs ! i) g)"

fun in_cs :: "pc \<Rightarrow> bool" where
  "in_cs (S_next j) = True"
| "in_cs (S_check j next) = True"
| "in_cs S_drop = True"
| "in_cs (S_fn j next) = True"
| "in_cs (S_arg j next) = True"
| "in_cs (S_tail j next) = True"
| "in_cs S_unlock = True"
| "in_cs P_check = True"
| "in_cs P_copy = True"
| "in_cs (P_head j) = True"
| "in_cs (P_unlock r) = True"
| "in_cs _ = False"

fun held :: "pc \<Rightarrow> job multiset" where
  "held (P_unlock (Some j)) = {#j#}"
| "held (Run j) = {#j#}"
| "held _ = {#}"

definition space :: "nat \<Rightarrow> smp \<Rightarrow> bool" where
  "space next s \<longleftrightarrow> next = (q_tail s + 1) mod 16 \<and> next \<noteq> q_head s"

fun pc_ok :: "smp \<Rightarrow> pc \<Rightarrow> bool" where
  "pc_ok s (S_check j next) = (next = (q_tail s + 1) mod 16)"
| "pc_ok s S_drop = (length (jobs s) = 15)"
| "pc_ok s (S_fn j next) = space next s"
| "pc_ok s (S_arg j next) = (space next s \<and> job_fn (jobq s ! q_tail s) = job_fn j)"
| "pc_ok s (S_tail j next) = (space next s \<and> jobq s ! q_tail s = j)"
| "pc_ok s P_copy = (q_head s \<noteq> q_tail s)"
| "pc_ok s (P_head j) = (q_head s \<noteq> q_tail s \<and> jobq s ! q_head s = j)"
| "pc_ok s _ = True"

fun smp_inv :: "pc list \<times> smp \<times> smp_log \<Rightarrow> bool" where
  "smp_inv (cs, s, g) \<longleftrightarrow>
     jobq_wf s \<and> length (filter in_cs cs) = unat (q_lock s) \<and> unat (q_lock s) \<le> 1 \<and> list_all (pc_ok s) cs
     \<and> accepted g = taken g @ jobs s \<and> mset (taken g) = mset (ran g) + \<Sum>\<^sub># (mset (map held cs))"

lemma pc_ok_out: "\<not> in_cs p \<Longrightarrow> pc_ok s p"
  by (cases p) simp_all

lemma all_out: "length (filter in_cs cs) = 0 \<Longrightarrow> list_all (pc_ok s) cs"
  by (auto simp: filter_empty_conv list_all_iff intro: pc_ok_out)

text \<open>Steps of the core that holds the lock; the others are outside.\<close>

lemma jobs_upd [simp]:
  "jobs (s\<lparr>q_lock := l\<rparr>) = jobs s" "jobs (s\<lparr>ap_online := m\<rparr>) = jobs s" "jobs (s\<lparr>ap_job_count := c\<rparr>) = jobs s"
  "jobq_wf (s\<lparr>q_lock := l\<rparr>) = jobq_wf s" "jobq_wf (s\<lparr>ap_online := m\<rparr>) = jobq_wf s" "jobq_wf (s\<lparr>ap_job_count := c\<rparr>) = jobq_wf s"
  "jobq_wf (s\<lparr>jobq := (jobq s)[k := j]\<rparr>) = jobq_wf s"
  by (simp_all add: jobs_def queued_def jobq_wf_def)

lemma pc_ok_upd [simp]:
  "pc_ok (s\<lparr>ap_online := m\<rparr>) p = pc_ok s p" "pc_ok (s\<lparr>ap_job_count := c\<rparr>) p = pc_ok s p"
  by (cases p; simp add: space_def)+

lemma cs_shared:
  assumes wf: "jobq_wf s" and ok: "pc_ok s p" and cs: "in_cs p" and st: "core_step p s = Some (p', s')"
  shows "jobq_wf s'" "pc_ok s' p'" "q_lock s' = (if in_cs p' then q_lock s else 0)"
    "accepted g = taken g @ jobs s \<Longrightarrow> accepted (note_step p g) = taken (note_step p g) @ jobs s'"
    "mset (taken g) = mset (ran g) + (held p + H) \<Longrightarrow>
       mset (taken (note_step p g)) = mset (ran (note_step p g)) + (held p' + H)"
proof -
  have lt: "q_tail s < length (jobq s)" using wf by (simp add: jobq_wf_def)
  have put: "jobs (s\<lparr>q_tail := n\<rparr>) = jobs s @ [jobq s ! q_tail s]" "jobq_wf (s\<lparr>q_tail := n\<rparr>)" if "space n s" for n
    using jobs_put [OF wf, of "jobq s ! q_tail s"] that by (simp_all add: space_def)
  have get: "jobs s = jobq s ! q_head s # jobs (s\<lparr>q_head := Suc (q_head s) mod 16\<rparr>)"
      "jobq_wf (s\<lparr>q_head := Suc (q_head s) mod 16\<rparr>)" if "q_head s \<noteq> q_tail s"
    using jobs_get [OF wf that] by simp_all
  have full: "length (jobs s) = 15" if "Suc (q_tail s) mod 16 = q_head s"
    using queued_iff(2) [OF wf] that by (simp add: jobs_def)
  show "jobq_wf s'" using cs st ok wf put(2) get(2) by (cases p) (auto simp: spin_unlock_def)
  show "q_lock s' = (if in_cs p' then q_lock s else 0)"
    using cs st by (cases p) (auto simp: spin_unlock_def split: option.splits if_splits)
  show "pc_ok s' p'"
    using cs st ok lt full by (cases p) (auto simp: spin_unlock_def space_def split: option.splits)
  show "accepted (note_step p g) = taken (note_step p g) @ jobs s'" if "accepted g = taken g @ jobs s"
    using cs st ok that put(1) get(1) jobs_tail_free [OF wf] by (cases p) (auto simp: spin_unlock_def)
  show "mset (taken (note_step p g)) = mset (ran (note_step p g)) + (held p' + H)"
    if "mset (taken g) = mset (ran g) + (held p + H)"
    using cs st that by (cases p) (auto split: option.splits)
qed

lemma step_in_cs:
  assumes inv: "smp_inv (a @ p # b, s, g)" and cs: "in_cs p" and st: "core_step p s = Some (p', s')"
  shows "smp_inv (a @ p' # b, s', note_step p g)"
proof -
  let ?H = "\<Sum>\<^sub># (mset (map held (a @ b)))"
  have wf: "jobq_wf s" and l: "unat (q_lock s) = 1" and ok: "pc_ok s p" and out: "length (filter in_cs (a @ b)) = 0"
    using inv cs by (simp_all del: length_0_conv)
  have q: "accepted g = taken g @ jobs s" "mset (taken g) = mset (ran g) + (held p + ?H)"
    using inv by (simp_all add: ac_simps)
  have others: "list_all (pc_ok s') a" "list_all (pc_ok s') b" using all_out [OF out] by simp_all
  note n = cs_shared [OF wf ok cs st]
  have "mset (taken (note_step p g)) = mset (ran (note_step p g)) + (held p' + ?H)" by (rule n(5) [OF q(2)])
  then show ?thesis using n(1-3) n(4) [OF q(1)] l out others by (simp add: ac_simps)
qed

lemma step_out_cs:
  assumes inv: "smp_inv (a @ p # b, s, g)" and cs: "\<not> in_cs p" and st: "core_step p s = Some (p', s')"
  shows "smp_inv (a @ p' # b, s', note_step p g)"
proof (cases "in_cs p'")
  case True
  then obtain s1 where s': "spin_lock s = Some s'" and p: "held p = {#}" "held p' = {#}" "note_step p g = g" "pc_ok s' p'"
    using cs st by (cases p) auto
  have "q_lock s = 0" "s' = s\<lparr>q_lock := 1\<rparr>" using s' by (auto simp: spin_lock_def split: if_splits)
  moreover have "length (filter in_cs (a @ b)) = 0" using inv cs calculation(1) by (simp del: length_0_conv)
  moreover from this have "list_all (pc_ok s') a" "list_all (pc_ok s') b" using all_out by (simp_all add: all_out)
  ultimately show ?thesis using inv True p by simp
next
  case False
  then have "jobq_wf s' = jobq_wf s" "q_lock s' = q_lock s" "jobs s' = jobs s" "accepted (note_step p g) = accepted g"
      "taken (note_step p g) = taken g" "mset (ran (note_step p g)) + held p' = mset (ran g) + held p" "pc_ok s' = pc_ok s"
    using cs st by (cases p; auto simp: fun_eq_iff)+
  moreover have "pc_ok s p'" using False by (rule pc_ok_out)
  ultimately show ?thesis using inv False cs by (simp add: ac_simps)
qed

lemma smp_step_inv: "smp_step c c' \<Longrightarrow> smp_inv c \<Longrightarrow> smp_inv c'"
proof (induction rule: smp_step.induct)
  case (submit i cs s g j)
  have cs: "cs = take i cs @ Idle # drop (Suc i) cs" using submit id_take_nth_drop [of i cs] by simp
  have "smp_inv (take i cs @ S_lock j # drop (Suc i) cs, s, g)" using submit.prems by (subst (asm) cs) simp
  then show ?case using submit(1) by (simp only: upd_conv_take_nth_drop)
next
  case (exec i cs s p' s' g)
  have cs: "cs = take i cs @ cs ! i # drop (Suc i) cs" using exec(1) by (rule id_take_nth_drop)
  have inv: "smp_inv (take i cs @ cs ! i # drop (Suc i) cs, s, g)" using exec.prems cs by simp
  show ?case
    unfolding upd_conv_take_nth_drop [OF exec(1)] using step_in_cs [OF inv _ exec(2)] step_out_cs [OF inv _ exec(2)] by blast
qed

lemma smp_reachable_inv: "smp_step\<^sup>*\<^sup>* c c' \<Longrightarrow> smp_inv c \<Longrightarrow> smp_inv c'"
  by (induction rule: rtranclp_induct) (auto intro: smp_step_inv)

text \<open>Some core can always go on, unless every core is idle.\<close>

lemma core_step_None: "core_step p s = None \<longleftrightarrow> p = Idle \<or> (\<not> in_cs p \<and> q_lock s \<noteq> 0 \<and> ((\<exists>j. p = S_lock j) \<or> p = P_lock))"
  by (cases p) (auto simp: spin_lock_def)

lemma smp_no_deadlock:
  assumes "smp_inv (cs, s, g)"
  shows "(\<forall>p\<in>set cs. p = Idle) \<or> (\<exists>p\<in>set cs. core_step p s \<noteq> None)"
proof (cases "q_lock s = 0")
  case True
  then show ?thesis by (auto simp: core_step_None)
next
  case False
  then have "filter in_cs cs \<noteq> []" using assms by (auto simp: unat_eq_0)
  then obtain p where p: "p \<in> set cs" "in_cs p" by (auto simp: filter_empty_conv)
  then have "p \<noteq> Idle" by auto
  then show ?thesis using p core_step_None [of p s] by blast
qed

text \<open>The start: the primary (and any other submitter) idle, the workers about to announce themselves.\<close>

definition smp_start :: "pc list \<Rightarrow> smp \<Rightarrow> bool" where
  "smp_start cs s \<longleftrightarrow> jobq_wf s \<and> q_head s = q_tail s \<and> q_lock s = 0 \<and> list_all (\<lambda>p. p = Idle \<or> (\<exists>ctx. p = A_load ctx)) cs"

definition smp_log0 :: smp_log where
  "smp_log0 = \<lparr>accepted = [], taken = [], ran = []\<rparr>"

lemma held_none: "list_all (\<lambda>p. held p = {#}) cs \<Longrightarrow> \<Sum>\<^sub># (mset (map held cs)) = {#}"
  by (induction cs) simp_all

lemma smp_start_inv: "smp_start cs s \<Longrightarrow> smp_inv (cs, s, smp_log0)"
proof -
  assume st: "smp_start cs s"
  have "jobs s = []" using st queued_iff(1) [of s] by (simp add: smp_start_def jobs_def)
  moreover have "filter in_cs cs = []" "list_all (\<lambda>p. held p = {#}) cs"
    using st by (auto simp: smp_start_def filter_empty_conv list_all_iff)
  ultimately show ?thesis using st all_out [of cs s] held_none [of cs] by (simp add: smp_start_def smp_log0_def)
qed

text \<open>Schedules: which core moves next, with the job when an idle core begins a submission.\<close>

fun smp_run :: "(nat \<times> job option) list \<Rightarrow> pc list \<times> smp \<times> smp_log \<Rightarrow> (pc list \<times> smp \<times> smp_log) option" where
  "smp_run [] c = Some c"
| "smp_run ((i, Some j) # ms) (cs, s, g) =
     (if i < length cs \<and> cs ! i = Idle then smp_run ms (cs[i := S_lock j], s, g) else None)"
| "smp_run ((i, None) # ms) (cs, s, g) =
     (if i < length cs then
        (case core_step (cs ! i) s of None \<Rightarrow> None | Some (p, s') \<Rightarrow> smp_run ms (cs[i := p], s', note_step (cs ! i) g))
      else None)"

lemma smp_run_reachable: "smp_run ms c = Some c' \<Longrightarrow> smp_step\<^sup>*\<^sup>* c c'"
proof (induction ms c rule: smp_run.induct)
  case (2 i j ms cs s g)
  then have i: "i < length cs" "cs ! i = Idle" and r: "smp_run ms (cs[i := S_lock j], s, g) = Some c'"
    by (simp_all split: if_splits)
  have "smp_step (cs, s, g) (cs[i := S_lock j], s, g)" using i by (rule smp_step.submit)
  then show ?case using "2.IH" i r by (meson converse_rtranclp_into_rtranclp)
next
  case (3 i ms cs s g)
  then obtain p s' where i: "i < length cs" and st: "core_step (cs ! i) s = Some (p, s')"
      and r: "smp_run ms (cs[i := p], s', note_step (cs ! i) g) = Some c'"
    by (auto split: if_splits option.splits)
  have "smp_step (cs, s, g) (cs[i := p], s', note_step (cs ! i) g)" using i st by (rule smp_step.exec)
  moreover have "smp_step\<^sup>*\<^sup>* (cs[i := p], s', note_step (cs ! i) g) c'" using "3.IH" [OF i st _ r] by blast
  ultimately show ?case by (rule converse_rtranclp_into_rtranclp)
qed simp

section \<open>Properties\<close>

text \<open>C6. Submitters and workers on any number of cores, interleaved at every access to the shared memory: at most one
  core is between lock and unlock; the jobs leave the queue in the order in which they were accepted; every job taken out
  has been called once or is held by exactly one worker that is about to call it, so none is lost and none runs twice; a
  submission is dropped only when fifteen jobs wait; and some core can always go on unless all are idle.\<close>

theorem smp_jobs_conserved:
  assumes "smp_start cs s" "smp_step\<^sup>*\<^sup>* (cs, s, smp_log0) (cs', s', g)"
  shows "length (filter in_cs cs') \<le> 1 \<and> accepted g = taken g @ jobs s'
    \<and> mset (taken g) = mset (ran g) + \<Sum>\<^sub># (mset (map held cs'))
    \<and> (S_drop \<in> set cs' \<longrightarrow> length (jobs s') = 15)
    \<and> ((\<forall>p\<in>set cs'. p = Idle) \<or> (\<exists>p\<in>set cs'. core_step p s' \<noteq> None))"
proof -
  have inv: "smp_inv (cs', s', g)" using smp_reachable_inv [OF assms(2) smp_start_inv [OF assms(1)]] .
  then have "S_drop \<in> set cs' \<longrightarrow> length (jobs s') = 15" by (auto simp: list_all_iff)
  then show ?thesis using inv smp_no_deadlock [OF inv] by simp
qed

text \<open>A worker announces itself with a load and a store of the shared mask, without a lock: two workers that come up
  together can both end in their loop with only one of them counted as online.\<close>

definition smp0 :: smp where
  "smp0 = \<lparr>jobq = replicate 16 \<lparr>job_fn = 0, job_arg = 0\<rparr>, q_head = 0, q_tail = 0, q_lock = 0, ap_online = 0,
     ap_mpidr = replicate 4 0, ap_job_count = 0\<rparr>"

theorem smp_online_race:
  "\<exists>s'. smp_step\<^sup>*\<^sup>* ([A_load 1, A_load 2], smp0, smp_log0) ([P_lock, P_lock], s', smp_log0) \<and> smp_online_count s' = 1"
proof -
  have "smp_run [(0, None), (1, None), (0, None), (1, None)] ([A_load 1, A_load 2], smp0, smp_log0) =
      Some ([P_lock, P_lock], smp0\<lparr>ap_online := 2\<rparr>, smp_log0)" by (simp add: smp0_def smp_log0_def)
  moreover have "smp_online_count (smp0\<lparr>ap_online := 2\<rparr>) = 1" by (simp add: smp_online_count_def popcnt_def popcnt_loop.simps)
  ultimately show ?thesis using smp_run_reachable by blast
qed

section \<open>Witnesses\<close>

theorem smp_jobs_conserved_witness:
  "\<exists>cs' s' g. smp_step\<^sup>*\<^sup>* ([Idle, A_load 1], smp0, smp_log0) (cs', s', g) \<and> length (filter in_cs cs') \<le> 1
     \<and> accepted g = [\<lparr>job_fn = 64, job_arg = 7\<rparr>] \<and> accepted g = taken g @ jobs s'"
proof -
  let ?ms = "[(0, Some \<lparr>job_fn = 64, job_arg = 7\<rparr>), (1, None), (0, None), (1, None), (0, None), (0, None), (0, None), (0, None), (0, None)]"
  obtain cs' s' g where r: "smp_run ?ms ([Idle, A_load 1], smp0, smp_log0) = Some (cs', s', g)"
      and a: "accepted g = [\<lparr>job_fn = 64, job_arg = 7\<rparr>]"
    by (auto simp: smp0_def smp_log0_def spin_lock_def)
  have "smp_start [Idle, A_load 1] smp0" by (simp add: smp_start_def smp0_def jobq_wf_def)
  from smp_jobs_conserved [OF this smp_run_reachable [OF r]] show ?thesis
    using a smp_run_reachable [OF r] by blast
qed

end
