(* ===== verification/RustMemory.thy ===== *)
theory RustMemory
  imports Prelude
begin

text \<open>
  The \<^verbatim>\<open>aeos-memory\<close> crate, \<^verbatim>\<open>src/memory/src\<close>: the physical frame allocator (a bitmap and a stack of free frames),
  memory regions, and page table entries.  A \<^verbatim>\<open>usize\<close> that only counts is a \<open>nat\<close> below 2^64; an operation gives
  \<open>None\<close> where checked arithmetic panics.  Fallible operations return a sum with the error on the left.
\<close>

abbreviation (input) PAGE_SIZE :: nat where "PAGE_SIZE \<equiv> 4096"
abbreviation (input) BITMAP_WORDS :: nat where "BITMAP_WORDS \<equiv> 2048"
abbreviation (input) FREE_STACK_SIZE :: nat where "FREE_STACK_SIZE \<equiv> 8192"

definition page_align_up :: "u64 \<Rightarrow> u64 option" where
  "page_align_up addr = (if 2 ^ 64 \<le> unat addr + PAGE_SIZE then None else Some ((addr + 4096 - 1) AND NOT (4096 - 1)))"

definition page_align_down :: "u64 \<Rightarrow> u64" where
  "page_align_down addr = addr AND NOT (4096 - 1)"

definition frames_needed :: "nat \<Rightarrow> nat option" where
  "frames_needed sz = (if 2 ^ 64 \<le> sz + PAGE_SIZE then None else Some ((sz + PAGE_SIZE - 1) div PAGE_SIZE))"

section \<open>Frames\<close>

definition from_address :: "nat \<Rightarrow> nat" where
  "from_address addr = addr div PAGE_SIZE"

definition frame_address :: "nat \<Rightarrow> nat option" where
  "frame_address f = (if 2 ^ 64 \<le> f * PAGE_SIZE then None else Some (f * PAGE_SIZE))"

datatype frame_error = OutOfFrames | NotAllocated | OutOfBounds

datatype init_error = InvalidMemoryMap | InsufficientMemory | PageTableAllocationFailed

record frame_allocator =
  fa_bitmap :: "u64 list"
  fa_total_frames :: nat
  fa_free_count :: nat
  fa_phys_base :: nat
  fa_phys_size :: nat
  fa_free_stack :: "nat list"
  fa_free_top :: nat

definition fa_new :: frame_allocator where
  "fa_new = \<lparr>fa_bitmap = replicate BITMAP_WORDS 0, fa_total_frames = 0, fa_free_count = 0, fa_phys_base = 0,
     fa_phys_size = 0, fa_free_stack = replicate FREE_STACK_SIZE 0, fa_free_top = 0\<rparr>"

definition bm_get :: "u64 list \<Rightarrow> nat \<Rightarrow> bool" where
  "bm_get bm f = (bm ! (f div 64) AND push_bit (f mod 64) 1 \<noteq> 0)"

definition bm_set :: "u64 list \<Rightarrow> nat \<Rightarrow> u64 list" where
  "bm_set bm f = bm[f div 64 := bm ! (f div 64) OR push_bit (f mod 64) 1]"

definition bm_clear :: "u64 list \<Rightarrow> nat \<Rightarrow> u64 list" where
  "bm_clear bm f = bm[f div 64 := bm ! (f div 64) AND NOT (push_bit (f mod 64) 1)]"

definition stack_push :: "nat \<Rightarrow> frame_allocator \<Rightarrow> frame_allocator" where
  "stack_push f s =
     (if fa_free_top s < FREE_STACK_SIZE
      then s\<lparr>fa_free_stack := (fa_free_stack s)[fa_free_top s := f], fa_free_top := fa_free_top s + 1\<rparr> else s)"

definition init_frame :: "nat \<Rightarrow> frame_allocator \<Rightarrow> frame_allocator" where
  "init_frame f s = stack_push f (s\<lparr>fa_bitmap := bm_set (fa_bitmap s) f, fa_free_count := fa_free_count s + 1\<rparr>)"

definition fa_init :: "nat \<Rightarrow> nat \<Rightarrow> nat \<Rightarrow> frame_allocator \<Rightarrow> ((init_error + unit) \<times> frame_allocator) option" where
  "fa_init phys_base phys_size reserved_end s =
     (let s = s\<lparr>fa_phys_base := phys_base, fa_phys_size := phys_size, fa_total_frames := phys_size div PAGE_SIZE, fa_free_top := 0\<rparr>;
          bitmap_words = (fa_total_frames s + 63) div 64
      in if BITMAP_WORDS < bitmap_words then Some (Inl InsufficientMemory, s)
         else if 2 ^ 64 \<le> reserved_end + PAGE_SIZE then None
         else
           (let s = s\<lparr>fa_bitmap := replicate bitmap_words 0 @ drop bitmap_words (fa_bitmap s)\<rparr>;
                reserved_frames = (reserved_end + PAGE_SIZE - 1) div PAGE_SIZE;
                first_free = max reserved_frames 1;
                s = s\<lparr>fa_free_count := 0\<rparr>
            in Some (Inr (), fold init_frame [first_free..<fa_total_frames s] s)))"

definition trailing_zeros :: "u64 \<Rightarrow> nat" where
  "trailing_zeros w = length (takeWhile (\<lambda>i. \<not> bit w i) [0..<64])"

text \<open>Clearing a bit and lowering the counter, as every allocation ends.\<close>

definition take_frame :: "nat \<Rightarrow> frame_allocator \<Rightarrow> ((frame_error + nat) \<times> frame_allocator) option" where
  "take_frame f s =
     (if fa_free_count s = 0 then None
      else Some (Inr f, s\<lparr>fa_bitmap := (if f div 64 < length (fa_bitmap s) then bm_clear (fa_bitmap s) f else fa_bitmap s),
                         fa_free_count := fa_free_count s - 1\<rparr>))"

definition alloc_frame :: "frame_allocator \<Rightarrow> ((frame_error + nat) \<times> frame_allocator) option" where
  "alloc_frame s =
     (if 0 < fa_free_top s then
        (let s = s\<lparr>fa_free_top := fa_free_top s - 1\<rparr> in take_frame (fa_free_stack s ! fa_free_top s) s)
      else
        (case find (\<lambda>w. fa_bitmap s ! w \<noteq> 0) [0..<(fa_total_frames s + 63) div 64] of
           None \<Rightarrow> Some (Inl OutOfFrames, s)
         | Some w \<Rightarrow>
             (let f = w * 64 + trailing_zeros (fa_bitmap s ! w)
              in if fa_total_frames s \<le> f then Some (Inl OutOfFrames, s) else take_frame f s)))"

definition contiguous_at :: "nat \<Rightarrow> frame_allocator \<Rightarrow> nat \<Rightarrow> bool" where
  "contiguous_at count s start =
     list_all (\<lambda>i. (start + i) div 64 < (fa_total_frames s + 63) div 64 \<and> bm_get (fa_bitmap s) (start + i)) [0..<count]"

text \<open>The scan of the words for a range: its first frame, if a word starts one.\<close>

fun scan_frames :: "nat \<Rightarrow> frame_allocator \<Rightarrow> nat list \<Rightarrow> nat option option" where
  "scan_frames count s [] = Some None"
| "scan_frames count s (w # ws) =
     (if fa_bitmap s ! w = 0 then scan_frames count s ws
      else
        (let start = w * 64 + trailing_zeros (fa_bitmap s ! w)
         in if 2 ^ 64 \<le> start + count then None
            else if fa_total_frames s < start + count then scan_frames count s ws
            else if contiguous_at count s start then Some (Some start)
            else scan_frames count s ws))"

definition alloc_frames :: "nat \<Rightarrow> frame_allocator \<Rightarrow> ((frame_error + nat) \<times> frame_allocator) option" where
  "alloc_frames count s =
     (if count = 0 then Some (Inl OutOfFrames, s)
      else if count = 1 then alloc_frame s
      else
        (case scan_frames count s [0..<(fa_total_frames s + 63) div 64] of
           None \<Rightarrow> None
         | Some None \<Rightarrow> Some (Inl OutOfFrames, s)
         | Some (Some start) \<Rightarrow>
             if fa_free_count s < count then None
             else Some (Inr start, s\<lparr>fa_bitmap := foldl bm_clear (fa_bitmap s) [start..<start + count],
                                     fa_free_count := fa_free_count s - count\<rparr>)))"

definition free_frame :: "nat \<Rightarrow> frame_allocator \<Rightarrow> (frame_error + unit) \<times> frame_allocator" where
  "free_frame f s =
     (if fa_total_frames s \<le> f then (Inl OutOfBounds, s)
      else if f div 64 < length (fa_bitmap s) \<and> bm_get (fa_bitmap s) f then (Inl NotAllocated, s)
      else
        (let s = s\<lparr>fa_bitmap := (if f div 64 < length (fa_bitmap s) then bm_set (fa_bitmap s) f else fa_bitmap s)\<rparr>;
             s = stack_push f s
         in (Inr (), s\<lparr>fa_free_count := fa_free_count s + 1\<rparr>)))"

fun free_frames :: "nat \<Rightarrow> nat \<Rightarrow> frame_allocator \<Rightarrow> (frame_error + unit) \<times> frame_allocator" where
  "free_frames f 0 s = (Inr (), s)"
| "free_frames f (Suc n) s = (case free_frame f s of (Inl e, s) \<Rightarrow> (Inl e, s) | (Inr _, s) \<Rightarrow> free_frames (Suc f) n s)"

definition is_free :: "frame_allocator \<Rightarrow> nat \<Rightarrow> bool" where
  "is_free s f =
     (if fa_total_frames s \<le> f then False
      else if length (fa_bitmap s) \<le> f div 64 then False
      else bm_get (fa_bitmap s) f)"

section \<open>Initialisation\<close>

text \<open>\<^verbatim>\<open>frame_init\<close> on the global allocator, and the call that the kernel crate makes.\<close>

definition frame_init :: "nat \<Rightarrow> nat \<Rightarrow> nat \<Rightarrow> frame_allocator option \<Rightarrow> ((init_error + unit) \<times> frame_allocator) option" where
  "frame_init start len reserved_end g = fa_init start len reserved_end (case g of None \<Rightarrow> fa_new | Some a \<Rightarrow> a)"

definition kernel_mem_init :: "frame_allocator option \<Rightarrow> ((init_error + unit) \<times> frame_allocator) option" where
  "kernel_mem_init g =
     (let reserved_end = 0x40000000 + 18 * 1024 * 1024 in frame_init 0x40000000 (128 * 1024 * 1024) reserved_end g)"

section \<open>Regions\<close>

datatype region_type = Available | Reserved | AcpiData | AcpiNvs | BadMemory | Kernel | Bootloader

record region =
  rg_start :: nat
  rg_size :: nat
  rg_type :: region_type

definition rg_end :: "region \<Rightarrow> nat option" where
  "rg_end r = (if 2 ^ 64 \<le> rg_start r + rg_size r then None else Some (rg_start r + rg_size r))"

definition rg_is_available :: "region \<Rightarrow> bool" where
  "rg_is_available r = (rg_type r = Available)"

definition rg_contains :: "region \<Rightarrow> nat \<Rightarrow> bool option" where
  "rg_contains r addr = (if addr < rg_start r then Some False else map_option (\<lambda>e. addr < e) (rg_end r))"

definition rg_overlaps :: "region \<Rightarrow> region \<Rightarrow> bool option" where
  "rg_overlaps r q =
     (case rg_end q of None \<Rightarrow> None
      | Some e \<Rightarrow> if rg_start r < e then map_option (\<lambda>e'. rg_start q < e') (rg_end r) else Some False)"

definition rg_split_at :: "region \<Rightarrow> nat \<Rightarrow> (region \<times> region) option option" where
  "rg_split_at r addr =
     (if addr \<le> rg_start r then Some None
      else
        (case rg_end r of None \<Rightarrow> None
         | Some e \<Rightarrow>
             if e \<le> addr then Some None
             else Some (Some (\<lparr>rg_start = rg_start r, rg_size = addr - rg_start r, rg_type = rg_type r\<rparr>,
                              \<lparr>rg_start = addr, rg_size = e - addr, rg_type = rg_type r\<rparr>))))"

record region_iter =
  it_regions :: "region list"
  it_index :: nat

definition region_next :: "region_iter \<Rightarrow> region option \<times> region_iter" where
  "region_next it =
     (if it_index it < length (it_regions it)
      then (Some (it_regions it ! it_index it), it\<lparr>it_index := it_index it + 1\<rparr>) else (None, it))"

section \<open>Page tables\<close>

definition pml4_index :: "u64 \<Rightarrow> nat" where
  "pml4_index v = unat (drop_bit 39 v AND 0x1FF)"

definition pdpt_index :: "u64 \<Rightarrow> nat" where
  "pdpt_index v = unat (drop_bit 30 v AND 0x1FF)"

definition pd_index :: "u64 \<Rightarrow> nat" where
  "pd_index v = unat (drop_bit 21 v AND 0x1FF)"

definition pt_index :: "u64 \<Rightarrow> nat" where
  "pt_index v = unat (drop_bit 12 v AND 0x1FF)"

definition page_offset :: "u64 \<Rightarrow> u64" where
  "page_offset v = v AND 0xFFF"

definition frame_number :: "u64 \<Rightarrow> u64" where
  "frame_number p = drop_bit 12 p"

text \<open>The flags that \<^verbatim>\<open>PageTableFlags\<close> declares: bits 0 to 8 and 63.\<close>

definition flags_truncate :: "u64 \<Rightarrow> u64" where
  "flags_truncate b = b AND 0x80000000000001FF"

definition pte_new :: u64 where
  "pte_new = 0"

definition pt_new :: "u64 list" where
  "pt_new = replicate 512 pte_new"

definition pte_set_address :: "u64 \<Rightarrow> u64 \<Rightarrow> u64" where
  "pte_set_address addr e = (e AND 0x000FFFFFFFFFF000) OR (addr AND 0x000FFFFFFFFFF000)"

definition pte_address :: "u64 \<Rightarrow> u64" where
  "pte_address e = e AND 0x000FFFFFFFFFF000"

definition pte_set_flags :: "u64 \<Rightarrow> u64 \<Rightarrow> u64" where
  "pte_set_flags flags e = (e AND 0x0000000000000FFF) OR (flags AND 0xFFFFFFFFFFFFF000)"

definition pte_is_present :: "u64 \<Rightarrow> bool" where
  "pte_is_present e = (flags_truncate e AND 1 = 1)"

datatype mapping_error = AlreadyMapped | NotMapped | TableAllocationFailed | InvalidAddress

text \<open>Tables in memory by address; following an entry to an address without a table is undefined.\<close>

definition get_or_create_table :: "u64 list \<Rightarrow> nat \<Rightarrow> mapping_error + u64" where
  "get_or_create_table t index = (if pte_is_present (t ! index) then Inr (pte_address (t ! index)) else Inl TableAllocationFailed)"

definition pt_map :: "u64 \<Rightarrow> u64 \<Rightarrow> u64 \<Rightarrow> u64 \<Rightarrow> (u64 \<rightharpoonup> u64 list) \<Rightarrow> ((mapping_error + unit) \<times> (u64 \<rightharpoonup> u64 list)) option" where
  "pt_map root virt phys flags mem =
     (case mem root of None \<Rightarrow> None | Some pml4 \<Rightarrow>
      (case get_or_create_table pml4 (pml4_index virt) of Inl e \<Rightarrow> Some (Inl e, mem) | Inr a1 \<Rightarrow>
       (case mem a1 of None \<Rightarrow> None | Some pdpt \<Rightarrow>
        (case get_or_create_table pdpt (pdpt_index virt) of Inl e \<Rightarrow> Some (Inl e, mem) | Inr a2 \<Rightarrow>
         (case mem a2 of None \<Rightarrow> None | Some pd \<Rightarrow>
          (case get_or_create_table pd (pd_index virt) of Inl e \<Rightarrow> Some (Inl e, mem) | Inr a3 \<Rightarrow>
           (case mem a3 of None \<Rightarrow> None | Some pt \<Rightarrow>
            (let entry = pt ! pt_index virt
             in if pte_is_present entry then Some (Inl AlreadyMapped, mem)
                else
                  (let entry = pte_set_address phys entry;
                       entry = pte_set_flags (flags_truncate flags OR 1) entry
                   in Some (Inr (), mem(a3 \<mapsto> pt[pt_index virt := entry])))))))))))"

section \<open>The bitmap\<close>

lemma bm_get_bit: "bm_get bm f = bit (bm ! (f div 64)) (f mod 64)"
proof -
  have "bm ! (f div 64) AND push_bit (f mod 64) 1 = (if bit (bm ! (f div 64)) (f mod 64) then push_bit (f mod 64) 1 else 0)"
    by (rule bit_word_eqI) (auto simp: bit_simps)
  moreover have "bit (push_bit (f mod 64) 1 :: u64) (f mod 64)" by (simp add: bit_simps)
  then have "push_bit (f mod 64) 1 \<noteq> (0 :: u64)" by (metis bit_0_eq bot_apply bot_bool_def)
  ultimately show ?thesis by (simp add: bm_get_def)
qed

lemma same_bit: "g div 64 = f div 64 \<Longrightarrow> g mod 64 = f mod (64 :: nat) \<Longrightarrow> g = f"
  by (metis div_mult_mod_eq)

lemma bm_get_set: "f div 64 < length bm \<Longrightarrow> bm_get (bm_set bm f) g \<longleftrightarrow> g = f \<or> bm_get bm g"
  by (cases "g div 64 = f div 64") (auto simp: bm_get_bit bm_set_def bit_simps dest: same_bit)

lemma bm_get_clear: "f div 64 < length bm \<Longrightarrow> bm_get (bm_clear bm f) g \<longleftrightarrow> g \<noteq> f \<and> bm_get bm g"
  by (cases "g div 64 = f div 64") (auto simp: bm_get_bit bm_clear_def bit_simps dest: same_bit)

lemma length_bm [simp]: "length (bm_set bm f) = length bm" "length (bm_clear bm f) = length bm"
  by (simp_all add: bm_set_def bm_clear_def)

section \<open>The invariant of the allocator\<close>

definition fa_stack :: "frame_allocator \<Rightarrow> nat list" where
  "fa_stack s = take (fa_free_top s) (fa_free_stack s)"

definition fa_avail :: "frame_allocator \<Rightarrow> nat set" where
  "fa_avail s = {f. f < fa_total_frames s \<and> bm_get (fa_bitmap s) f}"

definition fa_wf :: "frame_allocator \<Rightarrow> bool" where
  "fa_wf s \<longleftrightarrow> length (fa_bitmap s) = 2048 \<and> length (fa_free_stack s) = 8192 \<and> fa_free_top s \<le> 8192
     \<and> fa_total_frames s \<le> 131072 \<and> fa_free_count s = card (fa_avail s)
     \<and> (\<forall>f. bm_get (fa_bitmap s) f \<and> f < 131072 \<longrightarrow> f < fa_total_frames s)"

text \<open>Every frame on the stack is free and on it once.\<close>

definition stack_ok :: "frame_allocator \<Rightarrow> bool" where
  "stack_ok s \<longleftrightarrow> distinct (fa_stack s) \<and> set (fa_stack s) \<subseteq> fa_avail s"

lemma fa_avail_finite: "finite (fa_avail s)"
  by (simp add: fa_avail_def)

lemma is_free_avail: "fa_wf s \<Longrightarrow> is_free s f \<longleftrightarrow> f \<in> fa_avail s"
  by (auto simp: is_free_def fa_avail_def fa_wf_def)

lemma word_index: "f < 131072 \<Longrightarrow> f div 64 < (2048 :: nat)"
  by (simp add: less_mult_imp_div_less)

lemma trailing_zeros_bit: "w \<noteq> 0 \<Longrightarrow> trailing_zeros w < 64 \<and> bit w (trailing_zeros w)"
proof -
  assume "w \<noteq> 0"
  then obtain i where i: "bit w i" by (auto simp: bit_eq_iff)
  then have "i < 64" using bit_imp_le_length [OF i] by simp
  then have "length (takeWhile (\<lambda>i. \<not> bit w i) [0..<64]) < length [0..<64]"
  proof -
    have "dropWhile (\<lambda>i. \<not> bit w i) [0..<64] \<noteq> []" using i \<open>i < 64\<close> by (auto simp: dropWhile_eq_Nil_conv)
    then show ?thesis using arg_cong [OF takeWhile_dropWhile_id [of "\<lambda>i. \<not> bit w i" "[0..<64]"], of length] by (cases "dropWhile (\<lambda>i. \<not> bit w i) [0..<64]") auto
  qed
  then show ?thesis
    using nth_length_takeWhile [of "\<lambda>i. \<not> bit w i" "[0..<64]"] by (simp add: trailing_zeros_def)
qed

lemma take_frame_ok:
  assumes "fa_wf s" "f \<in> fa_avail s"
  obtains s' where "take_frame f s = Some (Inr f, s')" "fa_wf s'" "fa_avail s' = fa_avail s - {f}" "fa_stack s' = fa_stack s"
    "fa_total_frames s' = fa_total_frames s"
proof -
  let ?s = "s\<lparr>fa_bitmap := bm_clear (fa_bitmap s) f, fa_free_count := fa_free_count s - 1\<rparr>"
  have f: "f < 131072" "f div 64 < length (fa_bitmap s)" using assms word_index [of f] by (auto simp: fa_wf_def fa_avail_def)
  have c: "fa_free_count s = card (fa_avail s)" "0 < card (fa_avail s)"
    using assms fa_avail_finite [of s] by (auto simp: fa_wf_def card_gt_0_iff)
  then have t: "take_frame f s = Some (Inr f, ?s)" using f by (simp add: take_frame_def)
  have a: "fa_avail ?s = fa_avail s - {f}" using f by (auto simp: fa_avail_def bm_get_clear)
  then have "card (fa_avail ?s) = card (fa_avail s) - 1" using assms(2) by simp
  then have "fa_wf ?s" using assms(1) c f by (auto simp: fa_wf_def bm_get_clear)
  then show thesis using that t a by (simp add: fa_stack_def)
qed

lemma alloc_frame_empty:
  assumes "fa_wf s" "stack_ok s" "fa_avail s = {}"
  shows "alloc_frame s = Some (Inl OutOfFrames, s)"
proof -
  have "fa_stack s = []" using assms by (auto simp: stack_ok_def)
  then have "fa_free_top s = 0" using assms(1) by (auto simp: fa_stack_def fa_wf_def)
  moreover have "fa_bitmap s ! w = 0" if "w < (fa_total_frames s + 63) div 64" for w
  proof (rule ccontr)
    assume "fa_bitmap s ! w \<noteq> 0"
    from trailing_zeros_bit [OF this] have t: "trailing_zeros (fa_bitmap s ! w) < 64" "bit (fa_bitmap s ! w) (trailing_zeros (fa_bitmap s ! w))"
      by simp_all
    let ?f = "w * 64 + trailing_zeros (fa_bitmap s ! w)"
    have "fa_total_frames s + 63 < 2048 * 64 + 64" using assms(1) by (simp add: fa_wf_def)
    then have "w < 2048" using that by (simp add: less_mult_imp_div_less)
    then have "?f < 131072" using t(1) by linarith
    moreover have "bm_get (fa_bitmap s) ?f" using t by (simp add: bm_get_bit)
    ultimately have "?f \<in> fa_avail s" using assms(1) by (auto simp: fa_wf_def fa_avail_def)
    then show False using assms(3) by simp
  qed
  then have "find (\<lambda>w. fa_bitmap s ! w \<noteq> 0) [0..<(fa_total_frames s + 63) div 64] = None" by (auto simp: find_None_iff)
  ultimately show ?thesis by (simp add: alloc_frame_def)
qed

lemma alloc_frame_some:
  assumes "fa_wf s" "stack_ok s" "fa_avail s \<noteq> {}"
  shows "\<exists>f s'. alloc_frame s = Some (Inr f, s') \<and> f \<in> fa_avail s \<and> fa_wf s' \<and> stack_ok s' \<and> fa_avail s' = fa_avail s - {f}
    \<and> fa_total_frames s' = fa_total_frames s"
proof (cases "0 < fa_free_top s")
  case True
  define s1 where "s1 = s\<lparr>fa_free_top := fa_free_top s - 1\<rparr>"
  define f where "f = fa_free_stack s ! (fa_free_top s - 1)"
  have l: "fa_free_top s \<le> length (fa_free_stack s)" using assms(1) by (simp add: fa_wf_def)
  have st: "fa_stack s = fa_stack s1 @ [f]"
    using True l by (cases "fa_free_top s") (auto simp: fa_stack_def s1_def f_def take_Suc_conv_app_nth)
  have av: "fa_avail s1 = fa_avail s" by (simp add: fa_avail_def s1_def)
  have "fa_wf s1" using assms(1) by (auto simp: fa_wf_def s1_def fa_avail_def)
  moreover have "f \<in> fa_avail s1" using assms(2) st av by (auto simp: stack_ok_def)
  ultimately obtain s' where s': "take_frame f s1 = Some (Inr f, s')" "fa_wf s'" "fa_avail s' = fa_avail s1 - {f}"
      "fa_stack s' = fa_stack s1" "fa_total_frames s' = fa_total_frames s1"
    by (rule take_frame_ok)
  have "stack_ok s'" using assms(2) st av s'(3,4) by (auto simp: stack_ok_def)
  moreover have "alloc_frame s = take_frame f s1" using True by (simp add: alloc_frame_def Let_def s1_def f_def)
  ultimately show ?thesis using s' av \<open>f \<in> fa_avail s1\<close> by (auto simp: s1_def)
next
  case False
  let ?words = "[0..<(fa_total_frames s + 63) div 64]"
  obtain g where g: "g < fa_total_frames s" "bm_get (fa_bitmap s) g" using assms(3) by (auto simp: fa_avail_def)
  have "g div 64 < (fa_total_frames s + 63) div 64" using g(1) by linarith
  moreover have "fa_bitmap s ! (g div 64) \<noteq> 0" using g(2) by (auto simp: bm_get_bit)
  ultimately have "find (\<lambda>w. fa_bitmap s ! w \<noteq> 0) ?words \<noteq> None" unfolding find_None_iff by auto
  then obtain w where w: "find (\<lambda>w. fa_bitmap s ! w \<noteq> 0) ?words = Some w" by auto
  then have ww: "fa_bitmap s ! w \<noteq> 0" "w < (fa_total_frames s + 63) div 64" by (auto simp: find_Some_iff)
  let ?f = "w * 64 + trailing_zeros (fa_bitmap s ! w)"
  note t = trailing_zeros_bit [OF ww(1)]
  have "fa_total_frames s + 63 < 2048 * 64 + 64" using assms(1) by (simp add: fa_wf_def)
  then have "w < 2048" using ww(2) by (simp add: less_mult_imp_div_less)
  then have "?f < 131072" using t by linarith
  moreover have "bm_get (fa_bitmap s) ?f" using t by (simp add: bm_get_bit)
  ultimately have f: "?f \<in> fa_avail s" using assms(1) by (auto simp: fa_wf_def fa_avail_def)
  then have a: "alloc_frame s = take_frame ?f s" using False w by (simp add: alloc_frame_def Let_def fa_avail_def)
  from take_frame_ok [OF assms(1) f] obtain s' where s': "take_frame ?f s = Some (Inr ?f, s')" "fa_wf s'"
      "fa_avail s' = fa_avail s - {?f}" "fa_stack s' = fa_stack s" "fa_total_frames s' = fa_total_frames s" .
  moreover have "fa_stack s = []" using False by (simp add: fa_stack_def)
  then have "stack_ok s'" using s'(4) by (simp add: stack_ok_def)
  ultimately show ?thesis using a f by auto
qed

lemma stack_push_same [simp]:
  "fa_bitmap (stack_push f s) = fa_bitmap s" "fa_total_frames (stack_push f s) = fa_total_frames s"
  "fa_free_count (stack_push f s) = fa_free_count s" "length (fa_free_stack (stack_push f s)) = length (fa_free_stack s)"
  "fa_avail (stack_push f s) = fa_avail s"
  by (simp_all add: stack_push_def fa_avail_def)

lemma stack_push_stack:
  assumes "length (fa_free_stack s) = 8192" "fa_free_top s \<le> 8192"
  shows "fa_stack (stack_push f s) = fa_stack s \<or> fa_stack (stack_push f s) = fa_stack s @ [f]" "fa_free_top (stack_push f s) \<le> 8192"
  using assms by (auto simp: stack_push_def fa_stack_def take_Suc_conv_app_nth)

text \<open>Making an allocated frame free, as \<^verbatim>\<open>free_frame\<close> and the loop of \<^verbatim>\<open>init\<close> do.\<close>

lemma init_frame_ok:
  assumes "fa_wf s" "stack_ok s" "f < fa_total_frames s" "f \<notin> fa_avail s"
  shows "fa_wf (init_frame f s)" "stack_ok (init_frame f s)" "fa_avail (init_frame f s) = insert f (fa_avail s)"
    "fa_total_frames (init_frame f s) = fa_total_frames s"
proof -
  let ?s1 = "s\<lparr>fa_bitmap := bm_set (fa_bitmap s) f, fa_free_count := fa_free_count s + 1\<rparr>"
  have l: "length (fa_bitmap s) = 2048" "length (fa_free_stack s) = 8192" "fa_free_top s \<le> 8192" "fa_total_frames s \<le> 131072"
    using assms(1) by (simp_all add: fa_wf_def)
  then have f: "f div 64 < length (fa_bitmap s)" using word_index [of f] assms(3) by simp
  have a1: "fa_avail ?s1 = insert f (fa_avail s)" using f assms(3) by (auto simp: fa_avail_def bm_get_set)
  then show a: "fa_avail (init_frame f s) = insert f (fa_avail s)" by (simp add: init_frame_def)
  have p: "fa_stack (init_frame f s) = fa_stack s \<or> fa_stack (init_frame f s) = fa_stack s @ [f]" "fa_free_top (init_frame f s) \<le> 8192"
    using stack_push_stack [of ?s1 f] l by (simp_all add: init_frame_def) (simp add: fa_stack_def)
  have "card (fa_avail (init_frame f s)) = Suc (card (fa_avail s))" using assms(4) fa_avail_finite by (simp add: a)
  then show "fa_wf (init_frame f s)"
    using assms(1,3) p(2) f by (auto simp: fa_wf_def init_frame_def bm_get_set)
  have "set (fa_stack s) \<subseteq> fa_avail s" "distinct (fa_stack s)" using assms(2) by (simp_all add: stack_ok_def)
  then show "stack_ok (init_frame f s)" using p(1) a assms(4) by (auto simp: stack_ok_def)
  show "fa_total_frames (init_frame f s) = fa_total_frames s" by (simp add: init_frame_def)
qed

lemma free_frame_eq:
  assumes "fa_wf s"
  shows "free_frame f s =
    (if fa_total_frames s \<le> f then (Inl OutOfBounds, s) else if f \<in> fa_avail s then (Inl NotAllocated, s) else (Inr (), init_frame f s))"
proof -
  have "f < fa_total_frames s \<Longrightarrow> f div 64 < length (fa_bitmap s)" using word_index [of f] assms by (simp add: fa_wf_def)
  then show ?thesis by (auto simp: free_frame_def Let_def fa_avail_def init_frame_def stack_push_def)
qed

lemma init_frames_ok:
  assumes "fa_wf s" "stack_ok s" "b \<le> fa_total_frames s" "{a..<b} \<inter> fa_avail s = {}"
  shows "fa_wf (fold init_frame [a..<b] s) \<and> stack_ok (fold init_frame [a..<b] s)
    \<and> fa_avail (fold init_frame [a..<b] s) = fa_avail s \<union> {a..<b}
    \<and> fa_total_frames (fold init_frame [a..<b] s) = fa_total_frames s"
  using assms(3,4)
proof (induction b)
  case (Suc b)
  show ?case
  proof (cases "a \<le> b")
    case True
    let ?s = "fold init_frame [a..<b] s"
    have "{a..<b} \<subseteq> {a..<Suc b}" by auto
    then have "{a..<b} \<inter> fa_avail s = {}" using Suc.prems(2) by blast
    then have IH: "fa_wf ?s" "stack_ok ?s" "fa_avail ?s = fa_avail s \<union> {a..<b}" "fa_total_frames ?s = fa_total_frames s"
      using Suc.IH Suc.prems(1) by simp_all
    have "b \<notin> fa_avail ?s" "b < fa_total_frames ?s" using IH Suc.prems True by auto
    note n = init_frame_ok [OF IH(1,2) this(2,1)]
    have "insert b (fa_avail s \<union> {a..<b}) = fa_avail s \<union> {a..<Suc b}" using True by auto
    then show ?thesis using n IH True by simp
  qed (use assms in simp)
qed (use assms in simp)

lemma fa_init_new:
  assumes "fa_init phys_base phys_size reserved_end fa_new = Some (Inr (), s0)"
  shows "fa_wf s0" and "stack_ok s0" and "fa_avail s0 = {max ((reserved_end + 4095) div 4096) 1..<phys_size div 4096}"
    and "fa_total_frames s0 = phys_size div 4096"
proof -
  let ?t = "phys_size div 4096"
  let ?w = "(?t + 63) div 64"
  define s where "s = fa_new\<lparr>fa_phys_base := phys_base, fa_phys_size := phys_size, fa_total_frames := ?t, fa_free_top := 0\<rparr>"
  have w: "?w \<le> 2048" using assms by (simp add: fa_init_def Let_def split: if_splits)
  then have t: "?t \<le> 131072" by linarith
  have bm: "replicate ?w 0 @ drop ?w (fa_bitmap fa_new) = replicate 2048 0"
    using w by (simp add: fa_new_def replicate_add [symmetric])
  have z: "bm_get (replicate 2048 0) f = False" if "f < 131072" for f
    using word_index [OF that] by (simp add: bm_get_bit)
  have av: "fa_avail s = {}" using z t by (auto simp: s_def fa_avail_def fa_new_def)
  have wf: "fa_wf s" using av t z by (auto simp: fa_wf_def s_def fa_new_def)
  have st: "stack_ok s" by (simp add: stack_ok_def s_def fa_stack_def)
  have e: "s0 = fold init_frame [max ((reserved_end + 4095) div 4096) 1..<?t] s"
    using assms w bm by (simp add: fa_init_def Let_def s_def fa_new_def add.commute [of reserved_end] split: if_splits)
  have tt: "fa_total_frames s = ?t" by (simp add: s_def)
  then have "?t \<le> fa_total_frames s" "{max ((reserved_end + 4095) div 4096) 1..<?t} \<inter> fa_avail s = {}" using av by auto
  note n = init_frames_ok [OF wf st this]
  show "fa_wf s0" "stack_ok s0" "fa_avail s0 = {max ((reserved_end + 4095) div 4096) 1..<?t}" "fa_total_frames s0 = ?t"
    using n av tt by (simp_all only: e Un_empty_left)
qed

lemma fa_init_succeeds:
  assumes "phys_size div 4096 \<le> 131072" "reserved_end + 4096 < 2 ^ 64"
  shows "\<exists>s0. fa_init phys_base phys_size reserved_end fa_new = Some (Inr (), s0)"
  using assms by (simp add: fa_init_def Let_def)

section \<open>As a page allocator\<close>

definition fa_alloc :: "frame_allocator \<Rightarrow> frame_allocator \<times> u64" where
  "fa_alloc s = (case alloc_frame s of Some (Inr f, s') \<Rightarrow> (s', of_nat f) | _ \<Rightarrow> (s, 0))"

definition fa_free :: "u64 \<Rightarrow> frame_allocator \<Rightarrow> frame_allocator" where
  "fa_free p s = snd (free_frame (unat p) s)"

definition fa_inv :: "nat \<Rightarrow> frame_allocator \<Rightarrow> bool" where
  "fa_inv n s \<longleftrightarrow> fa_wf s \<and> stack_ok s \<and> fa_total_frames s = n \<and> 0 \<notin> fa_avail s"

definition fa_pages :: "frame_allocator \<Rightarrow> u64 set" where
  "fa_pages s = of_nat ` fa_avail s"

definition fa_page :: "nat \<Rightarrow> u64 \<Rightarrow> bool" where
  "fa_page n p \<longleftrightarrow> 0 < unat p \<and> unat p < n"

lemma frame_unat: "f < 131072 \<Longrightarrow> unat (of_nat f :: u64) = f"
  by (simp add: unsigned_of_nat take_bit_nat_eq_self)

lemma avail_lt: "fa_wf s \<Longrightarrow> f \<in> fa_avail s \<Longrightarrow> f < 131072"
  by (auto simp: fa_wf_def fa_avail_def)

lemma fa_pages_Diff:
  assumes "fa_wf s" "f \<in> fa_avail s" "fa_avail s' = fa_avail s - {f}"
  shows "fa_pages s' = fa_pages s - {of_nat f}"
proof -
  have "inj_on (of_nat :: nat \<Rightarrow> u64) (fa_avail s)"
    using avail_lt [OF assms(1)] frame_unat by (intro inj_on_inverseI [where g = unat]) blast
  then show ?thesis using assms(2,3) by (simp add: fa_pages_def inj_on_image_set_diff [of _ "fa_avail s"])
qed

interpretation rust_frames: page_allocator fa_alloc fa_free "fa_inv n" fa_pages "fa_page n" for n
proof
  fix s p
  show "p \<noteq> 0" if "fa_page n p" using that by (auto simp: fa_page_def)
  assume inv: "fa_inv n s"
  then have wf: "fa_wf s" and st: "stack_ok s" and n: "fa_total_frames s = n" "n \<le> 131072" and z: "0 \<notin> fa_avail s"
    by (auto simp: fa_inv_def fa_wf_def)
  show "finite (fa_pages s)" by (simp add: fa_pages_def fa_avail_finite)
  show "fa_alloc s = (s, 0)" if "fa_pages s = {}"
    using alloc_frame_empty [OF wf st] that by (simp add: fa_pages_def fa_alloc_def)
  show "\<exists>s' p. fa_alloc s = (s', p) \<and> p \<in> fa_pages s \<and> fa_inv n s' \<and> fa_pages s' = fa_pages s - {p}" if "fa_pages s \<noteq> {}"
  proof -
    have "fa_avail s \<noteq> {}" using that by (simp add: fa_pages_def)
    from alloc_frame_some [OF wf st this] obtain f s' where f: "alloc_frame s = Some (Inr f, s')" "f \<in> fa_avail s" "fa_wf s'"
        "stack_ok s'" "fa_avail s' = fa_avail s - {f}" "fa_total_frames s' = fa_total_frames s" by blast
    then have "fa_inv n s'" using n z by (simp add: fa_inv_def)
    moreover have "of_nat f \<in> fa_pages s" using f(2) by (simp add: fa_pages_def)
    ultimately show ?thesis using f(1) fa_pages_Diff [OF wf f(2,5)] by (simp add: fa_alloc_def)
  qed
  show "fa_page n p" if "p \<in> fa_pages s"
    using that frame_unat avail_lt [OF wf] z n by (auto simp: fa_pages_def fa_page_def fa_avail_def intro: gr0I)
  show "fa_inv n (fa_free p s) \<and> fa_pages (fa_free p s) = insert p (fa_pages s)" if "fa_page n p"
  proof (cases "unat p \<in> fa_avail s")
    case True
    moreover have "of_nat (unat p) = p" by simp
    ultimately have "p \<in> fa_pages s" unfolding fa_pages_def by (metis image_eqI)
    then show ?thesis using True inv that n by (auto simp: fa_free_def free_frame_eq [OF wf] fa_page_def)
  next
    case False
    have "unat p < fa_total_frames s" using that n by (simp add: fa_page_def)
    note i = init_frame_ok [OF wf st this False]
    have "fa_free p s = init_frame (unat p) s" using False that n by (simp add: fa_free_def free_frame_eq [OF wf] fa_page_def)
    then show ?thesis using i n z that by (auto simp: fa_inv_def fa_pages_def fa_page_def)
  qed
qed

section \<open>Regions and entries\<close>

lemma rg_contains_iff: "rg_contains r x = Some True \<longleftrightarrow>
    rg_start r \<le> x \<and> x < rg_start r + rg_size r \<and> rg_start r + rg_size r < 2 ^ 64"
  by (auto simp: rg_contains_def rg_end_def split: if_splits)

lemma rg_split_contains:
  assumes "rg_split_at r addr = Some (Some (b, a))"
  shows "(rg_contains r x = Some True \<longleftrightarrow> rg_contains b x = Some True \<or> rg_contains a x = Some True)
     \<and> \<not> (rg_contains b x = Some True \<and> rg_contains a x = Some True) \<and> 0 < rg_size b \<and> 0 < rg_size a"
  using assms unfolding rg_contains_iff by (auto simp: rg_split_at_def rg_end_def split: if_splits option.splits)

lemma rg_overlaps_iff:
  assumes "rg_overlaps r q = Some v" "0 < rg_size r" "0 < rg_size q"
    and "rg_start r + rg_size r < 2 ^ 64" "rg_start q + rg_size q < 2 ^ 64"
  shows "v \<longleftrightarrow> (\<exists>x. rg_contains r x = Some True \<and> rg_contains q x = Some True)"
  using assms unfolding rg_contains_iff
  by (auto simp: rg_overlaps_def rg_end_def split: if_splits intro!: exI [of _ "max (rg_start r) (rg_start q)"])

lemma mask_or: "((f AND a) OR b) AND c = (f AND (a AND c)) OR (b AND (c :: u64))" "((e AND a) OR (f AND a)) AND c = (e OR f) AND (a AND (c :: u64))"
  by (rule bit_word_eqI, auto simp: bit_and_iff bit_or_iff)+

text \<open>What a client of the crate can do with tables: create one, change an entry, and map.\<close>

datatype pt_op = Pt_new u64 | Pt_set_address u64 nat u64 | Pt_set_flags u64 nat u64 | Pt_map u64 u64 u64 u64

definition pt_update :: "u64 \<Rightarrow> nat \<Rightarrow> (u64 \<Rightarrow> u64) \<Rightarrow> (u64 \<rightharpoonup> u64 list) \<Rightarrow> (u64 \<rightharpoonup> u64 list)" where
  "pt_update a i f mem = (case mem a of None \<Rightarrow> mem | Some t \<Rightarrow> if i < length t then mem(a \<mapsto> t[i := f (t ! i)]) else mem)"

fun pt_call :: "(u64 \<rightharpoonup> u64 list) \<Rightarrow> pt_op \<Rightarrow> (u64 \<rightharpoonup> u64 list)" where
  "pt_call mem (Pt_new a) = mem(a \<mapsto> pt_new)"
| "pt_call mem (Pt_set_address a i addr) = pt_update a i (pte_set_address addr) mem"
| "pt_call mem (Pt_set_flags a i flags) = pt_update a i (pte_set_flags flags) mem"
| "pt_call mem (Pt_map root virt phys flags) = (case pt_map root virt phys flags mem of None \<Rightarrow> mem | Some (r, mem') \<Rightarrow> mem')"

text \<open>No entry has one of its low twelve bits set.\<close>

definition pt_wf :: "(u64 \<rightharpoonup> u64 list) \<Rightarrow> bool" where
  "pt_wf mem \<longleftrightarrow> (\<forall>a t. mem a = Some t \<longrightarrow> length t = 512 \<and> (\<forall>e\<in>set t. e AND 0xFFF = 0))"

lemma low_bits: "e AND 0xFFF = 0 \<Longrightarrow> \<not> pte_is_present e"
proof -
  assume e: "e AND 0xFFF = 0"
  have "flags_truncate e AND 1 = (e AND 0xFFF) AND 1" unfolding flags_truncate_def and.assoc by simp
  then show ?thesis using e by (simp add: pte_is_present_def)
qed

lemma set_low_bits:
  "pte_set_address addr e AND 0xFFF = 0" "e AND 0xFFF = 0 \<Longrightarrow> pte_set_flags flags e AND 0xFFF = 0"
proof -
  show "pte_set_address addr e AND 0xFFF = 0" unfolding pte_set_address_def mask_or(2) by simp
  show "pte_set_flags flags e AND 0xFFF = 0" if "e AND 0xFFF = 0"
    using that unfolding pte_set_flags_def mask_or(1) and.assoc by simp
qed

lemma index_lt: "pml4_index v < 512" "pdpt_index v < 512" "pd_index v < 512" "pt_index v < 512"
proof -
  have "unat (w AND 0x1FF) < 512" for w :: u64
  proof -
    have "w AND 0x1FF \<le> 0x1FF" by (rule word_and_le1)
    then show ?thesis by (simp add: word_le_nat_alt)
  qed
  then show "pml4_index v < 512" "pdpt_index v < 512" "pd_index v < 512" "pt_index v < 512"
    by (simp_all add: pml4_index_def pdpt_index_def pd_index_def pt_index_def)
qed

lemma pt_map_fails:
  assumes "pt_wf mem" "mem root \<noteq> None"
  shows "pt_map root virt phys flags mem = Some (Inl TableAllocationFailed, mem)"
proof -
  obtain t where t: "mem root = Some t" "length t = 512" "\<forall>e\<in>set t. e AND 0xFFF = 0" using assms by (auto simp: pt_wf_def)
  have "t ! pml4_index virt \<in> set t" using t(2) index_lt(1) by simp
  then have "\<not> pte_is_present (t ! pml4_index virt)" using t(3) low_bits by blast
  then show ?thesis using t(1) by (simp add: pt_map_def get_or_create_table_def)
qed

lemma pt_update_wf:
  assumes "pt_wf mem" "\<And>e. e AND 0xFFF = 0 \<Longrightarrow> f e AND 0xFFF = 0"
  shows "pt_wf (pt_update a i f mem)"
  using assms unfolding pt_wf_def pt_update_def
  by (auto split: option.splits dest!: set_update_subset_insert [THEN subsetD])

lemma pt_call_wf: "pt_wf mem \<Longrightarrow> pt_wf (pt_call mem op)"
proof (cases op)
  case (Pt_map root virt phys flags)
  assume "pt_wf mem"
  then show ?thesis using pt_map_fails [of mem root] Pt_map by (cases "mem root") (simp_all add: pt_map_def)
next
  case (Pt_new a)
  assume "pt_wf mem"
  then show ?thesis using Pt_new by (auto simp: pt_wf_def pt_new_def pte_new_def)
qed (simp_all add: pt_update_wf set_low_bits)

interpretation page_tables: event_system pt_call pt_wf
  by unfold_locales (rule pt_call_wf)

section \<open>Properties\<close>

datatype fa_op = Fa_alloc | Fa_free nat

fun fa_call :: "frame_allocator \<Rightarrow> fa_op \<Rightarrow> frame_allocator" where
  "fa_call s Fa_alloc = (case alloc_frame s of None \<Rightarrow> s | Some (r, s') \<Rightarrow> s')"
| "fa_call s (Fa_free f) = snd (free_frame f s)"

lemma fa_call_inv:
  assumes "fa_wf s" "stack_ok s"
  shows "fa_wf (fa_call s op) \<and> stack_ok (fa_call s op) \<and> fa_total_frames (fa_call s op) = fa_total_frames s"
proof (cases op)
  case Fa_alloc
  show ?thesis
  proof (cases "fa_avail s = {}")
    case True
    then show ?thesis using alloc_frame_empty [OF assms] assms Fa_alloc by simp
  next
    case False
    obtain f s' where "alloc_frame s = Some (Inr f, s')" "fa_wf s'" "stack_ok s'" "fa_total_frames s' = fa_total_frames s"
      using alloc_frame_some [OF assms False] by blast
    then show ?thesis using Fa_alloc by simp
  qed
next
  case (Fa_free f)
  then show ?thesis using init_frame_ok [OF assms, of f] assms by (simp add: free_frame_eq)
qed

lemma fa_calls_inv:
  "fa_wf s \<Longrightarrow> stack_ok s \<Longrightarrow>
   fa_wf (foldl fa_call s ops) \<and> stack_ok (foldl fa_call s ops) \<and> fa_total_frames (foldl fa_call s ops) = fa_total_frames s"
proof (induction ops arbitrary: s)
  case (Cons op ops)
  then show ?case using fa_call_inv [OF Cons.prems, of op] Cons.IH [of "fa_call s op"] by simp
qed simp

text \<open>C8. The frame allocator with single frames: from its initialisation on, whatever allocations and frees (of any
  frame number) came before, the counter is the number of free frames; an allocation never panics, fails only when no
  frame is free, and otherwise takes exactly one frame that was free; a free rejects numbers out of range and frames that
  are free already without any change, and otherwise makes exactly that frame free.\<close>

theorem frame_allocator_correct:
  assumes "fa_init phys_base phys_size reserved_end fa_new = Some (Inr (), s0)" "s = foldl fa_call s0 ops"
  shows "fa_free_count s = card {g. is_free s g}
    \<and> (if {g. is_free s g} = {} then alloc_frame s = Some (Inl OutOfFrames, s)
       else \<exists>f s'. alloc_frame s = Some (Inr f, s') \<and> is_free s f \<and> {g. is_free s' g} = {g. is_free s g} - {f})
    \<and> (if phys_size div 4096 \<le> f then free_frame f s = (Inl OutOfBounds, s)
       else if is_free s f then free_frame f s = (Inl NotAllocated, s)
       else \<exists>s'. free_frame f s = (Inr (), s') \<and> {g. is_free s' g} = insert f {g. is_free s g})"
proof -
  note i = fa_init_new [OF assms(1)]
  have s: "fa_wf s" "stack_ok s" "fa_total_frames s = phys_size div 4096"
    using fa_calls_inv [OF i(1,2), of ops] i(4) by (simp_all add: assms(2))
  have a: "{g. is_free s g} = fa_avail s" using is_free_avail [OF s(1)] by auto
  have a': "fa_wf s' \<Longrightarrow> {g. is_free s' g} = fa_avail s'" for s' using is_free_avail by auto
  have "fa_free_count s = card (fa_avail s)" using s(1) by (simp add: fa_wf_def)
  moreover have "if fa_avail s = {} then alloc_frame s = Some (Inl OutOfFrames, s)
      else \<exists>f s'. alloc_frame s = Some (Inr f, s') \<and> f \<in> fa_avail s \<and> {g. is_free s' g} = fa_avail s - {f}"
  proof (cases "fa_avail s = {}")
    case False
    then obtain f s' where "alloc_frame s = Some (Inr f, s')" "f \<in> fa_avail s" "fa_wf s'" "fa_avail s' = fa_avail s - {f}"
      using alloc_frame_some [OF s(1,2)] by blast
    then show ?thesis using False a' by auto
  qed (use alloc_frame_empty [OF s(1,2)] in simp)
  moreover have "if phys_size div 4096 \<le> f then free_frame f s = (Inl OutOfBounds, s)
      else if f \<in> fa_avail s then free_frame f s = (Inl NotAllocated, s)
      else \<exists>s'. free_frame f s = (Inr (), s') \<and> {g. is_free s' g} = insert f (fa_avail s)"
    using init_frame_ok [OF s(1,2), of f] a' by (auto simp: free_frame_eq [OF s(1)] s(3))
  ultimately show ?thesis unfolding is_free_avail [OF s(1)] Collect_mem_eq by (intro conjI)
qed

lemma alloc_pops:
  assumes "n \<le> fa_free_top s" "fa_free_top s \<le> length (fa_free_stack s)" "n \<le> fa_free_count s"
  shows "snd (alloc_n fa_alloc n s) = map of_nat (take n (rev (fa_stack s)))"
  using assms
proof (induction n arbitrary: s)
  case (Suc n)
  obtain k where k: "fa_free_top s = Suc k" using Suc.prems(1) by (cases "fa_free_top s") auto
  let ?f = "fa_free_stack s ! k"
  obtain s' where s': "take_frame ?f (s\<lparr>fa_free_top := k\<rparr>) = Some (Inr ?f, s')" "fa_free_top s' = k"
      "fa_free_stack s' = fa_free_stack s" "fa_free_count s' = fa_free_count s - 1"
    using Suc.prems by (auto simp: take_frame_def)
  then have "alloc_frame s = Some (Inr ?f, s')" using k by (simp add: alloc_frame_def Let_def)
  then have "fa_alloc s = (s', of_nat ?f)" by (simp add: fa_alloc_def)
  moreover have "snd (alloc_n fa_alloc n s') = map of_nat (take n (rev (fa_stack s')))"
    using Suc.IH [of s'] s' Suc.prems k by simp
  moreover have "rev (fa_stack s) = ?f # rev (fa_stack s')"
    using s'(2,3) k Suc.prems(2) by (simp add: fa_stack_def take_Suc_conv_app_nth)
  ultimately show ?case by (simp add: split_beta)
qed simp

text \<open>C35. A range allocation clears the bits of its frames but leaves them on the stack of free frames: the single
  allocations that follow, as many as the counter of free frames allows, pop the unchanged stack, so every frame of the
  range that is near enough to its top is handed out a second time.\<close>

theorem alloc_frames_reissued:
  assumes "alloc_frames k s = Some (Inr f, s1)" "2 \<le> k" "fa_free_top s \<le> length (fa_free_stack s)"
    and "n \<le> fa_free_top s" "n \<le> fa_free_count s1"
  shows "snd (alloc_n fa_alloc n s1) = map of_nat (take n (rev (fa_stack s)))"
proof -
  have "fa_free_top s1 = fa_free_top s" "fa_free_stack s1 = fa_free_stack s"
    using assms(1,2) by (auto simp: alloc_frames_def split: if_splits option.splits)
  then show ?thesis using alloc_pops [of n s1] assms(3-5) by (simp add: fa_stack_def)
qed

text \<open>The kernel crate passes the address \<open>0x40000000 + 18 MB\<close> as the end of the reserved memory, while frames are
  numbered from 0 and there are 32768 of them: after initialisation no frame is free and every allocation fails.\<close>

theorem kernel_has_no_frames:
  "\<exists>s. kernel_mem_init None = Some (Inr (), s) \<and> alloc_frame s = Some (Inl OutOfFrames, s)"
proof -
  obtain s where s: "fa_init 0x40000000 134217728 (0x40000000 + 18 * 1024 * 1024) fa_new = Some (Inr (), s)"
    using fa_init_succeeds [of 134217728 "0x40000000 + 18 * 1024 * 1024" "0x40000000"] by auto
  note i = fa_init_new [OF s]
  have "fa_avail s = {}" using i(3) by simp
  then show ?thesis using alloc_frame_empty [OF i(1,2)] s by (simp add: kernel_mem_init_def frame_init_def)
qed

text \<open>C36. No page can be mapped.  \<^verbatim>\<open>set_address\<close> clears the low twelve bits of an entry and \<^verbatim>\<open>set_flags\<close> takes
  only the bits above them from its argument, so in every memory of page tables built with the crate, by any sequence of new
  tables, \<^verbatim>\<open>set_address\<close>, \<^verbatim>\<open>set_flags\<close> and \<^verbatim>\<open>map\<close> calls with any arguments, no entry is ever present, and
  \<^verbatim>\<open>map\<close> on any of its tables fails for want of a lower table and changes nothing.\<close>

theorem page_table_never_maps:
  assumes "mem = foldl pt_call Map.empty ops" "mem root = Some t"
  shows "pt_map root virt phys flags mem = Some (Inl TableAllocationFailed, mem) \<and> (\<forall>i<512. \<not> pte_is_present (t ! i))"
proof -
  have "pt_wf Map.empty" by (simp add: pt_wf_def)
  then have w: "pt_wf mem" using page_tables.run_inv [of Map.empty ops] assms(1) by simp
  then have "length t = 512" "\<forall>e\<in>set t. e AND 0xFFF = 0" using assms(2) by (auto simp: pt_wf_def)
  then show ?thesis using pt_map_fails [OF w, of root] low_bits assms(2) by auto
qed

section \<open>Witnesses\<close>

theorem frame_allocator_correct_witness:
  "\<exists>s0. fa_init 0 32768 0 fa_new = Some (Inr (), s0) \<and> fa_free_count s0 = card {g. is_free s0 g}
     \<and> free_frame 9 s0 = (Inl OutOfBounds, s0)"
proof -
  obtain s0 where s0: "fa_init 0 32768 0 fa_new = Some (Inr (), s0)" using fa_init_succeeds [of 32768 0 0] by auto
  from frame_allocator_correct [OF s0, of s0 "[]" 9] show ?thesis using s0 by simp
qed

text \<open>Three free frames, 5 to 7, of which 7 and 6 were allocated and freed again.\<close>

definition fa_used :: frame_allocator where
  "fa_used = \<lparr>fa_bitmap = (replicate 2048 0)[0 := 0xE0], fa_total_frames = 8, fa_free_count = 3, fa_phys_base = 0,
     fa_phys_size = 32768, fa_free_stack = (replicate 8192 0)[0 := 5, Suc 0 := 7, 2 := 6], fa_free_top = 3\<rparr>"

lemma fa_used_reached:
  "\<exists>s0. fa_init 0 32768 20480 fa_new = Some (Inr (), s0) \<and> foldl fa_call s0 [Fa_alloc, Fa_alloc, Fa_free 7, Fa_free 6] = fa_used"
proof -
  define s0 where "s0 = fa_used\<lparr>fa_free_stack := (replicate 8192 0)[0 := 5, Suc 0 := 6, 2 := 7]\<rparr>"
  define s1 where "s1 = s0\<lparr>fa_bitmap := (replicate 2048 0)[0 := 0x60], fa_free_count := 2, fa_free_top := 2\<rparr>"
  define s2 where "s2 = s0\<lparr>fa_bitmap := (replicate 2048 0)[0 := 0x20], fa_free_count := 1, fa_free_top := 1\<rparr>"
  define s3 where "s3 = s0\<lparr>fa_bitmap := (replicate 2048 0)[0 := 0xA0], fa_free_count := 2, fa_free_top := 2,
    fa_free_stack := (replicate 8192 0)[0 := 5, Suc 0 := 7, 2 := 7]\<rparr>"
  have l: "[5..<8] = [5, 6, 7 :: nat]" by code_simp
  have sw: "xs[2 := x, Suc 0 := y] = xs[Suc 0 := y, 2 := x]" for xs :: "nat list" and x y by (rule list_update_swap) simp
  let ?n = "fa_new\<lparr>fa_total_frames := 8, fa_phys_size := 32768\<rparr>"
  have "replicate 1 0 @ drop 1 (replicate 2048 0) = replicate 2048 (0 :: u64)"
    by (simp only: drop_replicate replicate_add [symmetric]) simp
  then have "fa_init 0 32768 20480 fa_new = Some (Inr (), fold init_frame [5..<8] ?n)"
    by (simp add: fa_init_def fa_new_def Let_def)
  also have "fold init_frame [5..<8] ?n = s0"
    unfolding l by (simp add: fa_new_def init_frame_def stack_push_def bm_set_def s0_def fa_used_def numeral_2_eq_2)
  finally have "fa_init 0 32768 20480 fa_new = Some (Inr (), s0)" .
  moreover have "alloc_frame s0 = Some (Inr 7, s1)"
    by (simp add: alloc_frame_def take_frame_def bm_clear_def s0_def s1_def fa_used_def)
  moreover have "alloc_frame s1 = Some (Inr 6, s2)"
    by (simp add: alloc_frame_def take_frame_def bm_clear_def s0_def s1_def s2_def fa_used_def)
  moreover have "free_frame 7 s2 = (Inr (), s3)"
    by (simp add: free_frame_def bm_get_bit bm_set_def stack_push_def s0_def s2_def s3_def fa_used_def sw)
  moreover have "free_frame 6 s3 = (Inr (), fa_used)"
    by (simp add: free_frame_def bm_get_bit bm_set_def stack_push_def s0_def s3_def fa_used_def)
  ultimately show ?thesis by simp
qed

theorem alloc_frames_reissued_witness:
  "\<exists>s0 s1. fa_init 0 32768 20480 fa_new = Some (Inr (), s0)
     \<and> alloc_frames 2 (foldl fa_call s0 [Fa_alloc, Fa_alloc, Fa_free 7, Fa_free 6]) = Some (Inr 5, s1)
     \<and> snd (alloc_n fa_alloc 1 s1) = [6]"
proof -
  have t: "trailing_zeros 0xE0 = 5" "bit (0xE0 :: u64) 5" "bit (0xE0 :: u64) 6" by code_simp+
  have l: "[0..<2] = [0, 1 :: nat]" by code_simp
  have "scan_frames 2 fa_used [0] = Some (Some 5)" "[0..<(fa_total_frames fa_used + 63) div 64] = [0]"
      "fa_free_count fa_used = 3"
    using t l by (simp_all add: fa_used_def contiguous_at_def bm_get_bit)
  then obtain s1 where s1: "alloc_frames 2 fa_used = Some (Inr 5, s1)" "fa_free_count s1 = 1"
    by (simp add: alloc_frames_def del: scan_frames.simps)
  have "snd (alloc_n fa_alloc 1 s1) = map of_nat (take 1 (rev (fa_stack fa_used)))"
    using s1(2) by (intro alloc_frames_reissued [OF s1(1)]) (simp_all add: fa_used_def)
  also have "\<dots> = [6]" by (simp add: fa_stack_def fa_used_def numeral_3_eq_3 numeral_2_eq_2 take_Suc_conv_app_nth)
  finally show ?thesis using s1(1) fa_used_reached by metis
qed

theorem page_table_never_maps_witness:
  "\<exists>t mem. mem = foldl pt_call Map.empty [Pt_new 0x1000, Pt_set_address 0x1000 0 0x2000, Pt_set_flags 0x1000 0 3]
     \<and> mem 0x1000 = Some t \<and> pt_map 0x1000 0 0x5000 3 mem = Some (Inl TableAllocationFailed, mem) \<and> \<not> pte_is_present (t ! 0)"
proof -
  define mem where "mem = foldl pt_call Map.empty [Pt_new 0x1000, Pt_set_address 0x1000 0 0x2000, Pt_set_flags 0x1000 0 3]"
  then obtain t where t: "mem 0x1000 = Some t" by (simp add: pt_update_def pt_new_def)
  from page_table_never_maps [OF mem_def t, of 0 "0x5000" 3] show ?thesis using mem_def t by auto
qed

end
