(* ===== verification/RustSecurity.thy ===== *)
theory RustSecurity
  imports Prelude
begin

text \<open>
  The \<^verbatim>\<open>aeos-security\<close> crate, \<^verbatim>\<open>src/security/src\<close>: capability tables per task with grant, check, revoke and
  delegation, and the circular audit log.  The global counter of capability identifiers is a field of the state; identifiers
  and counts are natural numbers.  A slice out of range, which panics, is \<open>None\<close>.
\<close>

section \<open>Capabilities\<close>

datatype resource_type = Memory | IpcChannel | Device | FileSystem | Network | Task | Timer

record capability =
  cap_id :: nat
  cap_task :: nat
  cap_rtype :: resource_type
  cap_rid :: nat
  cap_rights :: u32

abbreviation (input) GRANT :: u32 where "GRANT \<equiv> 8"
abbreviation (input) MAX_CAPABILITIES_PER_TASK :: nat where "MAX_CAPABILITIES_PER_TASK \<equiv> 64"
abbreviation (input) MAX_TASKS :: nat where "MAX_TASKS \<equiv> 64"

definition rights_contains :: "u32 \<Rightarrow> u32 \<Rightarrow> bool" where
  "rights_contains r required = (r AND required = required)"

definition cap_grants :: "capability \<Rightarrow> u32 \<Rightarrow> bool" where
  "cap_grants c required = rights_contains (cap_rights c) required"

definition cap_restrict :: "capability \<Rightarrow> u32 \<Rightarrow> capability" where
  "cap_restrict c new_rights = c\<lparr>cap_rights := cap_rights c AND new_rights\<rparr>"

section \<open>Audit log\<close>

datatype audit_type = SystemStartup | CapabilityGranted | CapabilityRevoked | CapabilityDelegated | AccessDenied
  | SecurityViolation | TaskCreated | TaskTerminated

record audit_entry =
  ae_type :: audit_type
  ae_task :: nat
  ae_resource :: nat
  ae_timestamp :: u64

record audit_log =
  al_entries :: "audit_entry list"
  al_write :: nat
  al_total :: nat

definition audit_new :: audit_log where
  "audit_new = \<lparr>al_entries = replicate 256 \<lparr>ae_type = SystemStartup, ae_task = 0, ae_resource = 0, ae_timestamp = 0\<rparr>,
     al_write = 0, al_total = 0\<rparr>"

definition audit_push :: "audit_entry \<Rightarrow> audit_log \<Rightarrow> audit_log" where
  "audit_push e a =
     a\<lparr>al_entries := (al_entries a)[al_write a := e], al_write := (al_write a + 1) mod 256, al_total := al_total a + 1\<rparr>"

definition audit_record :: "audit_type \<Rightarrow> nat \<Rightarrow> nat \<Rightarrow> audit_log \<Rightarrow> audit_log" where
  "audit_record ty task res a = audit_push \<lparr>ae_type = ty, ae_task = task, ae_resource = res, ae_timestamp = 0\<rparr> a"

definition audit_recent :: "nat \<Rightarrow> audit_log \<Rightarrow> audit_entry list option" where
  "audit_recent count a =
     (let available = min (min count (al_total a)) 256;
          start = (if 256 < al_total a then al_write a else 0)
      in if start + available \<le> 256 then Some (take available (drop start (al_entries a))) else None)"

section \<open>Manager\<close>

datatype security_error = CapabilityNotFound | InsufficientRights | CapabilityTableFull | InvalidResource
  | DelegationNotAllowed | RevocationFailed | NotInitialized

record cap_set =
  cs_task :: nat
  cs_caps :: "capability option list"
  cs_count :: nat

record security =
  sm_caps :: "cap_set list"
  sm_task_count :: nat
  sm_audit :: audit_log
  sm_initialized :: bool
  sm_next_id :: nat

definition cap_set_new :: cap_set where
  "cap_set_new = \<lparr>cs_task = 0, cs_caps = replicate MAX_CAPABILITIES_PER_TASK None, cs_count = 0\<rparr>"

definition sm_new :: security where
  "sm_new = \<lparr>sm_caps = replicate MAX_TASKS cap_set_new, sm_task_count = 0, sm_audit = audit_new, sm_initialized = False, sm_next_id = 0\<rparr>"

definition sm_init :: "security \<Rightarrow> security" where
  "sm_init s =
     (if sm_initialized s then s
      else s\<lparr>sm_caps := (sm_caps s)[0 := (sm_caps s ! 0)\<lparr>cs_task := 0, cs_count := 0\<rparr>], sm_initialized := True,
             sm_audit := audit_record SystemStartup 0 0 (sm_audit s)\<rparr>)"

definition sm_grant :: "nat \<Rightarrow> resource_type \<Rightarrow> nat \<Rightarrow> u32 \<Rightarrow> security \<Rightarrow> (security_error + nat) \<times> security" where
  "sm_grant task rtype rid rights s =
     (if \<not> sm_initialized s then (Inl NotInitialized, s)
      else if MAX_TASKS \<le> task then (Inl InvalidResource, s)
      else
        (let cs = sm_caps s ! task
         in if MAX_CAPABILITIES_PER_TASK \<le> cs_count cs then (Inl CapabilityTableFull, s)
            else
              (let cap = \<lparr>cap_id = sm_next_id s, cap_task = task, cap_rtype = rtype, cap_rid = rid, cap_rights = rights\<rparr>;
                   s = s\<lparr>sm_next_id := sm_next_id s + 1\<rparr>
               in case find (\<lambda>i. cs_caps cs ! i = None) [0..<length (cs_caps cs)] of
                    None \<Rightarrow> (Inl CapabilityTableFull, s)
                  | Some slot \<Rightarrow>
                      (Inr (cap_id cap),
                       s\<lparr>sm_caps := (sm_caps s)[task := cs\<lparr>cs_caps := (cs_caps cs)[slot := Some cap], cs_count := cs_count cs + 1\<rparr>],
                         sm_audit := audit_record CapabilityGranted task (cap_id cap) (sm_audit s)\<rparr>))))"

definition has_capability :: "nat \<Rightarrow> resource_type \<Rightarrow> nat \<Rightarrow> u32 \<Rightarrow> security \<Rightarrow> bool" where
  "has_capability task rtype rid required s =
     (if MAX_TASKS \<le> task then False
      else list_ex (\<lambda>c. case c of None \<Rightarrow> False
             | Some c \<Rightarrow> cap_rtype c = rtype \<and> cap_rid c = rid \<and> rights_contains (cap_rights c) required)
           (cs_caps (sm_caps s ! task)))"

definition holds_id :: "nat \<Rightarrow> capability option \<Rightarrow> bool" where
  "holds_id k c = (case c of None \<Rightarrow> False | Some cap \<Rightarrow> cap_id cap = k)"

definition sm_revoke :: "nat \<Rightarrow> nat \<Rightarrow> security \<Rightarrow> ((security_error + unit) \<times> security) option" where
  "sm_revoke task k s =
     (if \<not> sm_initialized s then Some (Inl NotInitialized, s)
      else if MAX_TASKS \<le> task then Some (Inl InvalidResource, s)
      else
        (let cs = sm_caps s ! task
         in case find (\<lambda>i. holds_id k (cs_caps cs ! i)) [0..<length (cs_caps cs)] of
              None \<Rightarrow> Some (Inl CapabilityNotFound, s)
            | Some slot \<Rightarrow>
                if cs_count cs = 0 then None
                else Some (Inr (),
                       s\<lparr>sm_caps := (sm_caps s)[task := cs\<lparr>cs_caps := (cs_caps cs)[slot := None], cs_count := cs_count cs - 1\<rparr>],
                         sm_audit := audit_record CapabilityRevoked task k (sm_audit s)\<rparr>)))"

definition sm_delegate :: "nat \<Rightarrow> nat \<Rightarrow> nat \<Rightarrow> u32 \<Rightarrow> security \<Rightarrow> (security_error + nat) \<times> security" where
  "sm_delegate from_task to_task k new_rights s =
     (if \<not> sm_initialized s then (Inl NotInitialized, s)
      else if MAX_TASKS \<le> from_task \<or> MAX_TASKS \<le> to_task then (Inl InvalidResource, s)
      else
        (case find (\<lambda>c. c \<noteq> None) (cs_caps (sm_caps s ! from_task)) of
           Some (Some c) \<Rightarrow>
             if cap_id c \<noteq> k then (Inl CapabilityNotFound, s)
             else if \<not> rights_contains (cap_rights c) GRANT then (Inl DelegationNotAllowed, s)
             else sm_grant to_task (cap_rtype c) (cap_rid c) (cap_rights c AND new_rights) s
         | _ \<Rightarrow> (Inl CapabilityNotFound, s)))"

section \<open>The audit log as a ring\<close>

definition audit_wf :: "audit_log \<Rightarrow> bool" where
  "audit_wf a \<longleftrightarrow> length (al_entries a) = 256 \<and> al_write a = al_total a mod 256"

definition audit_view :: "audit_log \<Rightarrow> audit_entry list" where
  "audit_view a = ring_view (al_entries a) (al_total a)"

interpretation audit_ring: history_ring audit_push audit_view 256 audit_wf al_total n for n
proof
  fix a e
  assume wf: "audit_wf a"
  have "al_entries a \<noteq> []" using wf by (auto simp: audit_wf_def)
  then show "audit_view (audit_push e a) = last_n 256 (audit_view a @ [e])"
    using ring_view_push [of "al_entries a" "al_total a" e] wf by (simp add: audit_view_def audit_push_def audit_wf_def)
  show "audit_wf (audit_push e a)" using wf by (simp add: audit_wf_def audit_push_def mod_Suc_eq)
  show "al_total (audit_push e a) \<le> Suc (al_total a)" by (simp add: audit_push_def)
qed

text \<open>What \<^verbatim>\<open>recent\<close> returns is the oldest part of the view, when it returns.\<close>

lemma audit_recent_oldest:
  assumes "audit_wf a" "audit_recent count a = Some es"
  shows "es = take (length es) (audit_view a)"
proof -
  let ?t = "al_total a"
  have l: "length (al_entries a) = 256" using assms(1) by (simp add: audit_wf_def)
  show ?thesis
  proof (cases "256 < ?t")
    case False
    then have "audit_view a = take ?t (al_entries a)"
      using l by (auto simp: audit_view_def ring_view_def ring_items_def intro!: nth_equalityI)
    moreover have "es = take (min count ?t) (al_entries a)"
      using assms(2) False by (auto simp: audit_recent_def Let_def min_def split: if_splits)
    ultimately show ?thesis using False l by simp
  next
    case True
    let ?n = "min count 256"
    have es: "al_write a + ?n \<le> 256" "es = take ?n (drop (al_write a) (al_entries a))"
      using assms(2) True by (auto simp: audit_recent_def Let_def min_def split: if_splits)
    have le: "length es = ?n" using es l by simp
    have v: "length (audit_view a) = 256" using True l by (simp add: audit_view_def ring_view_def)
    show ?thesis
    proof (rule nth_equalityI)
      show "length es = length (take (length es) (audit_view a))" using le v by simp
      fix i
      assume i: "i < length es"
      have "(?t - 256 + i) mod 256 = al_write a + i"
      proof -
        have "al_write a + i < 256" using i le es(1) by linarith
        moreover have "(?t - 256 + i) mod 256 = (?t mod 256 + i) mod 256"
          using True by (metis mod_add_left_eq mod_add_self2 le_add_diff_inverse2 less_imp_le)
        ultimately show ?thesis using assms(1) by (simp add: audit_wf_def)
      qed
      then have "audit_view a ! i = al_entries a ! (al_write a + i)"
        unfolding audit_view_def ring_view_def using True i le l by (subst nth_ring_items) auto
      then show "es ! i = take (length es) (audit_view a) ! i" using i le es l by simp
    qed
  qed
qed

section \<open>Authority\<close>

text \<open>Which task holds which right (a bit) to which resource, and what of it may be passed on.\<close>

definition cap_of :: "security \<Rightarrow> nat \<Rightarrow> capability \<Rightarrow> bool" where
  "cap_of s task c \<longleftrightarrow> task < length (sm_caps s) \<and> Some c \<in> set (cs_caps (sm_caps s ! task))"

definition authority :: "security \<Rightarrow> (resource_type \<times> nat \<times> nat) set" where
  "authority s = {(rt, rid, i). \<exists>t c. cap_of s t c \<and> cap_rtype c = rt \<and> cap_rid c = rid \<and> bit (cap_rights c) i}"

definition rights_bits :: "resource_type \<Rightarrow> nat \<Rightarrow> u32 \<Rightarrow> (resource_type \<times> nat \<times> nat) set" where
  "rights_bits rt rid r = {(rt', rid', i). rt' = rt \<and> rid' = rid \<and> bit r i}"

lemma rights_contains_bits: "rights_contains r q \<longleftrightarrow> (\<forall>i. bit q i \<longrightarrow> bit r i)"
proof
  assume "rights_contains r q"
  then have "bit (r AND q) i = bit q i" for i by (simp add: rights_contains_def)
  then show "\<forall>i. bit q i \<longrightarrow> bit r i" by (auto simp: bit_and_iff)
next
  assume "\<forall>i. bit q i \<longrightarrow> bit r i"
  then show "rights_contains r q" unfolding rights_contains_def by (intro bit_eqI) (auto simp: bit_and_iff)
qed

lemma has_capability_iff:
  "length (sm_caps s) = 64 \<Longrightarrow> has_capability task rt rid required s \<longleftrightarrow>
     (\<exists>c. cap_of s task c \<and> cap_rtype c = rt \<and> cap_rid c = rid \<and> rights_contains (cap_rights c) required)"
  by (auto simp: has_capability_def list_ex_iff cap_of_def split: option.splits intro!: bexI [of _ "Some _"])

lemma has_capability_authority:
  assumes "has_capability task rt rid required s" "length (sm_caps s) = 64"
  shows "rights_bits rt rid required \<subseteq> authority s"
proof -
  obtain c where "cap_of s task c" "cap_rtype c = rt" "cap_rid c = rid" "rights_contains (cap_rights c) required"
    using assms has_capability_iff by blast
  then show ?thesis by (auto simp: authority_def rights_bits_def rights_contains_bits)
qed

lemma find_slot:
  "find P [0..<n] = Some i \<Longrightarrow> i < n \<and> P i"
  by (auto simp: find_Some_iff)

text \<open>The effect of a grant on the capabilities held.\<close>

lemma sm_grant_cases:
  assumes "sm_grant task rt rid r s = (res, s')" "length (sm_caps s) = 64"
  obtains (err) e where "res = Inl e" "sm_caps s' = sm_caps s"
  | (ok) slot where "res = Inr (sm_next_id s)" "task < 64" "slot < length (cs_caps (sm_caps s ! task))"
      "cs_caps (sm_caps s ! task) ! slot = None" "sm_next_id s' = sm_next_id s + 1"
      "sm_caps s' = (sm_caps s)[task := (sm_caps s ! task)\<lparr>cs_caps := (cs_caps (sm_caps s ! task))[slot := Some \<lparr>cap_id = sm_next_id s,
          cap_task = task, cap_rtype = rt, cap_rid = rid, cap_rights = r\<rparr>], cs_count := cs_count (sm_caps s ! task) + 1\<rparr>]"
proof (cases "sm_initialized s \<and> task < 64 \<and> cs_count (sm_caps s ! task) < 64")
  case True
  let ?cs = "cs_caps (sm_caps s ! task)"
  show ?thesis
  proof (cases "find (\<lambda>i. ?cs ! i = None) [0..<length ?cs]")
    case None
    then have "res = Inl CapabilityTableFull" "sm_caps s' = sm_caps s"
      using assms(1) True by (auto simp: sm_grant_def Let_def)
    then show ?thesis by (rule err)
  next
    case (Some slot)
    show ?thesis
      using find_slot [OF Some] assms(1) True Some by (intro ok [of slot]) (auto simp: sm_grant_def Let_def)
  qed
next
  case False
  then obtain e where "res = Inl e" "sm_caps s' = sm_caps s"
    using assms(1) by (auto simp: sm_grant_def Let_def not_less split: if_splits)
  then show ?thesis by (rule err)
qed

lemma cap_of_grant:
  assumes "sm_grant task rt rid r s = (Inr k, s')" "length (sm_caps s) = 64"
  shows "cap_of s' t c \<longleftrightarrow> cap_of s t c \<or> t = task \<and> c = \<lparr>cap_id = k, cap_task = task, cap_rtype = rt, cap_rid = rid, cap_rights = r\<rparr>"
  using assms
proof (cases rule: sm_grant_cases)
  case (ok slot)
  let ?cs = "cs_caps (sm_caps s ! task)"
  have "set (?cs[slot := Some x]) - {None} = insert (Some x) (set ?cs) - {None}" for x
  proof -
    have "set ?cs = insert None (set (take slot ?cs) \<union> set (drop (Suc slot) ?cs))"
      using arg_cong [OF id_take_nth_drop [OF ok(3)], of set] ok(4) by simp
    then show ?thesis using ok(3) by (auto simp: upd_conv_take_nth_drop)
  qed
  then have "Some c \<in> set (?cs[slot := Some x]) \<longleftrightarrow> c = x \<or> Some c \<in> set ?cs" for x by blast
  then show ?thesis using ok assms(2) by (cases "t = task") (auto simp: cap_of_def)
qed simp

lemma cap_of_grant_err: "sm_grant task rt rid r s = (Inl e, s') \<Longrightarrow> length (sm_caps s) = 64 \<Longrightarrow> cap_of s' = cap_of s"
  by (erule sm_grant_cases) (auto simp: cap_of_def fun_eq_iff)

lemma cap_of_revoke:
  assumes "sm_revoke task k s = Some (res, s')" "length (sm_caps s) = 64" "cap_of s' t c"
  shows "cap_of s t c"
proof (cases "sm_caps s' = sm_caps s")
  case False
  then obtain slot where "sm_caps s' = (sm_caps s)[task := (sm_caps s ! task)\<lparr>cs_caps := (cs_caps (sm_caps s ! task))[slot := None],
      cs_count := cs_count (sm_caps s ! task) - 1\<rparr>]"
    using assms(1) by (auto simp: sm_revoke_def Let_def split: if_splits option.splits)
  then show ?thesis
    using assms(3) by (cases "t = task") (auto simp: cap_of_def dest: set_update_subset_insert [THEN subsetD])
qed (use assms(3) in \<open>simp add: cap_of_def\<close>)

lemma sm_delegate_cases:
  assumes "sm_delegate from_task to_task k new_rights s = (res, s')" "length (sm_caps s) = 64"
  obtains (err) "s' = s"
  | (ok) c where "cap_of s from_task c" "cap_id c = k" "rights_contains (cap_rights c) GRANT"
      "sm_grant to_task (cap_rtype c) (cap_rid c) (cap_rights c AND new_rights) s = (res, s')"
proof (cases "sm_initialized s \<and> from_task < 64 \<and> to_task < 64")
  case False
  then have "s' = s" using assms(1) by (auto simp: sm_delegate_def not_less split: if_splits)
  then show ?thesis by (rule err)
next
  case True
  show ?thesis
  proof (cases "find (\<lambda>c. c \<noteq> None) (cs_caps (sm_caps s ! from_task))")
    case None
    then have "s' = s" using assms(1) True by (auto simp: sm_delegate_def)
    then show ?thesis by (rule err)
  next
    case (Some x)
    then obtain c where c: "x = Some c" "Some c \<in> set (cs_caps (sm_caps s ! from_task))"
      by (auto simp: find_Some_iff) (metis nth_mem)
    show ?thesis
    proof (cases "cap_id c = k \<and> rights_contains (cap_rights c) GRANT")
      case False
      then have "s' = s" using assms(1) True Some c(1) by (auto simp: sm_delegate_def split: if_splits)
      then show ?thesis by (rule err)
    next
      case g: True
      show ?thesis using True g c Some assms by (intro ok [of c]) (auto simp: sm_delegate_def cap_of_def)
    qed
  qed
qed

section \<open>Properties\<close>

datatype sm_op = Sm_grant nat resource_type nat u32 | Sm_revoke nat nat | Sm_delegate nat nat nat u32

fun sm_call :: "security \<Rightarrow> sm_op \<Rightarrow> security option" where
  "sm_call s (Sm_grant t rt rid r) = Some (snd (sm_grant t rt rid r s))"
| "sm_call s (Sm_revoke t k) = map_option snd (sm_revoke t k s)"
| "sm_call s (Sm_delegate f t k r) = Some (snd (sm_delegate f t k r s))"

fun sm_run :: "sm_op list \<Rightarrow> security \<Rightarrow> security option" where
  "sm_run [] s = Some s"
| "sm_run (op # ops) s = (case sm_call s op of None \<Rightarrow> None | Some s' \<Rightarrow> sm_run ops s')"

fun sm_granted :: "sm_op \<Rightarrow> (resource_type \<times> nat \<times> nat) set" where
  "sm_granted (Sm_grant t rt rid r) = rights_bits rt rid r"
| "sm_granted _ = {}"

lemma grant_authority:
  assumes "length (sm_caps s) = 64"
  shows "authority (snd (sm_grant t rt rid r s)) \<subseteq> authority s \<union> rights_bits rt rid r" "length (sm_caps (snd (sm_grant t rt rid r s))) = 64"
proof -
  obtain res s' where g: "sm_grant t rt rid r s = (res, s')" by (cases "sm_grant t rt rid r s")
  show "length (sm_caps (snd (sm_grant t rt rid r s))) = 64" using g assms by (auto elim: sm_grant_cases)
  show "authority (snd (sm_grant t rt rid r s)) \<subseteq> authority s \<union> rights_bits rt rid r"
  proof (cases res)
    case (Inl e)
    then show ?thesis using cap_of_grant_err [of t rt rid r s e s'] g assms by (simp add: authority_def)
  next
    case (Inr k)
    then show ?thesis using cap_of_grant [of t rt rid r s k s'] g assms by (auto simp: authority_def rights_bits_def)
  qed
qed

lemma call_authority:
  assumes "length (sm_caps s) = 64" "sm_call s op = Some s'"
  shows "authority s' \<subseteq> authority s \<union> sm_granted op \<and> length (sm_caps s') = 64"
proof (cases op)
  case (Sm_grant t rt rid r)
  then have "s' = snd (sm_grant t rt rid r s)" using assms(2) by simp
  then show ?thesis using grant_authority [OF assms(1), of t rt rid r] Sm_grant by simp
next
  case (Sm_revoke t k)
  then obtain res where r: "sm_revoke t k s = Some (res, s')" using assms(2) by auto
  then have "length (sm_caps s') = 64" using assms(1) by (auto simp: sm_revoke_def Let_def split: if_splits option.splits)
  then show ?thesis using cap_of_revoke [OF r assms(1)] Sm_revoke by (auto simp: authority_def)
next
  case (Sm_delegate f t k r)
  then obtain res where d: "sm_delegate f t k r s = (res, s')" using assms(2) by (cases "sm_delegate f t k r s") auto
  then show ?thesis
  proof (rule sm_delegate_cases [OF _ assms(1)])
    fix c
    assume c: "cap_of s f c" "sm_grant t (cap_rtype c) (cap_rid c) (cap_rights c AND r) s = (res, s')"
    have "rights_bits (cap_rtype c) (cap_rid c) (cap_rights c AND r) \<subseteq> authority s"
      using c(1) by (auto simp: rights_bits_def authority_def bit_and_iff)
    then show ?thesis using grant_authority [OF assms(1), of t "cap_rtype c" "cap_rid c" "cap_rights c AND r"] c(2) by auto
  qed (use assms(1) in simp)
qed

text \<open>The counters are exact in every state reached from the initial one, so no revocation panics.\<close>

definition sm_counts :: "security \<Rightarrow> bool" where
  "sm_counts s \<longleftrightarrow> length (sm_caps s) = 64
     \<and> (\<forall>t<64. cs_count (sm_caps s ! t) = count_slots (\<lambda>c. c \<noteq> None) (cs_caps (sm_caps s ! t)))"

lemma grant_counts:
  assumes "sm_counts s"
  shows "sm_counts (snd (sm_grant t rt rid r s))"
proof -
  have l: "length (sm_caps s) = 64" using assms by (simp add: sm_counts_def)
  obtain res s' where g: "sm_grant t rt rid r s = (res, s')" by fastforce
  from g l show ?thesis
  proof (cases rule: sm_grant_cases)
    case (ok slot)
    then show ?thesis
      using assms g count_slots_update [OF ok(3), of "\<lambda>c. c \<noteq> None"] by (auto simp: sm_counts_def nth_list_update)
  qed (use assms g in \<open>simp add: sm_counts_def\<close>)
qed

lemma call_counts:
  assumes "sm_counts s"
  shows "\<exists>s'. sm_call s op = Some s' \<and> sm_counts s'"
proof (cases op)
  case (Sm_revoke t k)
  let ?cs = "cs_caps (sm_caps s ! t)"
  have n: "t < 64 \<Longrightarrow> cs_count (sm_caps s ! t) = count_slots (\<lambda>c. c \<noteq> None) ?cs" and l: "length (sm_caps s) = 64"
    using assms by (simp_all add: sm_counts_def)
  show ?thesis
  proof (cases "sm_initialized s \<and> t < 64 \<and> find (\<lambda>i. holds_id k (?cs ! i)) [0..<length ?cs] \<noteq> None")
    case False
    then show ?thesis using assms Sm_revoke by (auto simp: sm_revoke_def not_less split: option.splits)
  next
    case True
    then obtain slot where f: "find (\<lambda>i. holds_id k (?cs ! i)) [0..<length ?cs] = Some slot" by auto
    then have sl: "slot < length ?cs" "?cs ! slot \<noteq> None" using find_slot [OF f] by (auto simp: holds_id_def split: option.splits)
    note u = count_slots_update [OF sl(1), of "\<lambda>c. c \<noteq> None" None]
    define c where "c = (sm_caps s ! t)\<lparr>cs_caps := ?cs[slot := None], cs_count := cs_count (sm_caps s ! t) - 1\<rparr>"
    have c: "cs_count c = count_slots (\<lambda>c. c \<noteq> None) (cs_caps c)" "cs_count (sm_caps s ! t) \<noteq> 0"
      using u sl(2) n True by (simp_all add: c_def)
    then have "sm_call s op = Some (s\<lparr>sm_caps := (sm_caps s)[t := c], sm_audit := audit_record CapabilityRevoked t k (sm_audit s)\<rparr>)"
      using True f Sm_revoke by (simp add: sm_revoke_def Let_def c_def)
    then show ?thesis using assms c(1) True by (auto simp: sm_counts_def nth_list_update)
  qed
next
  case (Sm_delegate f t k r)
  have "length (sm_caps s) = 64" using assms by (simp add: sm_counts_def)
  moreover obtain res s' where d: "sm_delegate f t k r s = (res, s')" by fastforce
  ultimately have "sm_counts s'" using assms grant_counts [OF assms] by (elim sm_delegate_cases) (auto, metis snd_conv)
  then show ?thesis using d Sm_delegate by simp
qed (use grant_counts [OF assms] in simp)

lemma run_never_panics: "sm_counts s \<Longrightarrow> \<exists>s'. sm_run ops s = Some s' \<and> sm_counts s'"
proof (induction ops arbitrary: s)
  case (Cons op ops)
  then show ?case using call_counts [OF Cons.prems, of op] by auto
qed simp

lemma start_counts: "sm_counts (sm_init sm_new)"
  by (auto simp: sm_counts_def sm_init_def sm_new_def cap_set_new_def count_slots_def nth_list_update)

text \<open>C9. No amplification of authority: over any sequence of grants, revocations and delegations, a task can pass the
  check for some rights to a resource only if each of those rights was held by some task at the start or was given in one
  of the grants of the sequence. In particular a chain of delegations never yields a right that its sources did not have.
  A run is a sequence that ends without a panic, as every sequence from the initial state does.\<close>

theorem capability_no_amplification:
  assumes "length (sm_caps s) = 64" "sm_run ops s = Some s'" "has_capability task rt rid required s'"
  shows "rights_bits rt rid required \<subseteq> authority s \<union> \<Union> (set (map sm_granted ops))"
proof -
  have "authority s' \<subseteq> authority s \<union> \<Union> (set (map sm_granted ops)) \<and> length (sm_caps s') = 64"
    using assms(1,2)
  proof (induction ops arbitrary: s)
    case (Cons op ops)
    then obtain s1 where s1: "sm_call s op = Some s1" "sm_run ops s1 = Some s'" by (auto split: option.splits)
    then show ?case using call_authority [OF Cons.prems(1) s1(1)] Cons.IH [of s1] by auto
  qed simp
  then show ?thesis using has_capability_authority [OF assms(3)] by blast
qed

text \<open>C22. Grant and revoke of one capability: a successful grant makes the check succeed for every part of the rights and
  changes no other task's checks, and revoking the identifier it returned gives back exactly the capability tables from
  before.\<close>

theorem capability_grant_revoke:
  assumes "length (sm_caps s) = 64" "\<forall>t c. cap_of s t c \<longrightarrow> cap_id c < sm_next_id s" "sm_grant task rt rid r s = (Inr k, s1)"
  shows "(rights_contains r q \<longrightarrow> has_capability task rt rid q s1)
    \<and> (t \<noteq> task \<longrightarrow> has_capability t rt' rid' q s1 = has_capability t rt' rid' q s)
    \<and> (\<exists>s2. sm_revoke task k s1 = Some (Inr (), s2) \<and> sm_caps s2 = sm_caps s)"
proof -
  have l1: "length (sm_caps s1) = 64" using grant_authority(2) [OF assms(1), of task rt rid r] assms(3) by simp
  note c = cap_of_grant [OF assms(3,1)]
  have "rights_contains r q \<longrightarrow> has_capability task rt rid q s1" unfolding has_capability_iff [OF l1] c by auto
  moreover have "t \<noteq> task \<longrightarrow> has_capability t rt' rid' q s1 = has_capability t rt' rid' q s"
    unfolding has_capability_iff [OF l1] has_capability_iff [OF assms(1)] c by simp
  moreover have "\<exists>s2. sm_revoke task k s1 = Some (Inr (), s2) \<and> sm_caps s2 = sm_caps s"
    using assms(3,1)
  proof (cases rule: sm_grant_cases)
    case (ok slot)
    let ?cs = "cs_caps (sm_caps s ! task)"
    define cap where "cap = \<lparr>cap_id = sm_next_id s, cap_task = task, cap_rtype = rt, cap_rid = rid, cap_rights = r\<rparr>"
    have k: "k = sm_next_id s" using ok(1) by simp
    have old: "\<not> holds_id k (?cs ! i)" if "i < length ?cs" for i
    proof
      assume "holds_id k (?cs ! i)"
      then obtain c where "?cs ! i = Some c" "cap_id c = k" by (auto simp: holds_id_def split: option.splits)
      then have "cap_of s task c" using that ok(2) assms(1) nth_mem [OF that] by (simp add: cap_of_def)
      then have "cap_id c < sm_next_id s" using assms(2) by blast
      then show False using k \<open>cap_id c = k\<close> by simp
    qed
    have "holds_id k (Some cap)" by (simp add: holds_id_def cap_def k)
    then have "find (\<lambda>i. holds_id k (?cs[slot := Some cap] ! i)) [0..<length ?cs] = Some slot"
      unfolding find_Some_iff using ok(3) old by (intro exI [of _ slot]) simp
    moreover have "sm_caps s1 ! task = (sm_caps s ! task)\<lparr>cs_caps := ?cs[slot := Some cap], cs_count := cs_count (sm_caps s ! task) + 1\<rparr>"
      using ok(2,6) assms(1) by (simp add: cap_def)
    moreover have "sm_initialized s1" using assms(3) by (auto simp: sm_grant_def Let_def split: if_splits option.splits)
    moreover have "?cs[slot := None] = ?cs" using ok(3,4) by (metis list_update_id)
    ultimately show ?thesis using ok(2,6) assms(1) by (simp add: sm_revoke_def Let_def)
  qed simp
  ultimately show ?thesis by blast
qed

text \<open>Only the first capability in the table of a task can be delegated: \<^verbatim>\<open>find_map\<close> stops at the first occupied slot
  before the identifiers are compared.\<close>

lemma delegate_first_only:
  assumes "sm_initialized s" "from_task < 64" "to_task < 64"
    "find (\<lambda>c. c \<noteq> None) (cs_caps (sm_caps s ! from_task)) = Some (Some c0)" "cap_id c0 \<noteq> k"
  shows "sm_delegate from_task to_task k r s = (Inl CapabilityNotFound, s)"
  using assms by (simp add: sm_delegate_def)

section \<open>Witnesses\<close>

lemma sm_start: "length (sm_caps (sm_init sm_new)) = 64" "\<not> cap_of (sm_init sm_new) t c" "sm_initialized (sm_init sm_new)" "sm_next_id (sm_init sm_new) = 0"
proof -
  have "cs_caps (sm_caps (sm_init sm_new) ! i) = replicate 64 None" if "i < 64" for i
    using that by (cases "i = 0") (simp_all add: sm_init_def sm_new_def cap_set_new_def)
  then show "\<not> cap_of (sm_init sm_new) t c" by (auto simp: cap_of_def sm_init_def sm_new_def)
qed (simp_all add: sm_init_def sm_new_def)

lemma sm_first_grant: "\<exists>s1. sm_grant 3 Timer 7 3 (sm_init sm_new) = (Inr 0, s1)"
proof -
  have "find (\<lambda>i. replicate 64 None ! i = (None :: capability option)) [0..<64] = Some 0"
    unfolding find_Some_iff by (intro exI [of _ 0]) simp
  then show ?thesis by (simp add: sm_grant_def sm_init_def sm_new_def cap_set_new_def Let_def)
qed

theorem capability_no_amplification_witness:
  "\<exists>s'. sm_run [Sm_grant 3 Timer 7 3] (sm_init sm_new) = Some s' \<and> has_capability 3 Timer 7 1 s'
   \<and> rights_bits Timer 7 1 \<subseteq> authority (sm_init sm_new) \<union> \<Union> (set (map sm_granted [Sm_grant 3 Timer 7 3]))"
proof -
  obtain s1 where s1: "sm_grant 3 Timer 7 3 (sm_init sm_new) = (Inr 0, s1)" using sm_first_grant by blast
  have "length (sm_caps s1) = 64" using grant_authority(2) [OF sm_start(1), of 3 Timer 7 3] s1 by simp
  moreover have "rights_contains 3 1" by (simp add: rights_contains_def)
  ultimately have h: "has_capability 3 Timer 7 1 s1"
    using cap_of_grant [OF s1 sm_start(1)]
    by (simp add: has_capability_iff)
      (rule exI [of _ "\<lparr>cap_id = 0, cap_task = 3, cap_rtype = Timer, cap_rid = 7, cap_rights = 3\<rparr>"], simp)
  have r: "sm_run [Sm_grant 3 Timer 7 3] (sm_init sm_new) = Some s1" using s1 by simp
  from capability_no_amplification [OF sm_start(1) r h] show ?thesis using h r by blast
qed

theorem capability_grant_revoke_witness:
  "\<exists>s1 s2. sm_grant 3 Timer 7 3 (sm_init sm_new) = (Inr 0, s1) \<and> has_capability 3 Timer 7 1 s1
     \<and> sm_revoke 3 0 s1 = Some (Inr (), s2) \<and> sm_caps s2 = sm_caps (sm_init sm_new)"
proof -
  obtain s1 where s1: "sm_grant 3 Timer 7 3 (sm_init sm_new) = (Inr 0, s1)" using sm_first_grant by blast
  have "\<forall>t c. cap_of (sm_init sm_new) t c \<longrightarrow> cap_id c < sm_next_id (sm_init sm_new)" using sm_start(2) by blast
  moreover have "rights_contains 3 1" by (simp add: rights_contains_def)
  ultimately show ?thesis using capability_grant_revoke [OF sm_start(1) _ s1, of 1] s1 by blast
qed

end
