(* ===== verification/RustIpc.thy ===== *)
theory RustIpc
  imports Prelude
begin

text \<open>
  The \<^verbatim>\<open>aeos-ipc\<close> crate, \<^verbatim>\<open>src/ipc/src\<close>: messages, bounded channels, the table of channels, and the event catalog.
  A panic is \<open>None\<close>; fallible operations return a sum with the error on the left.
\<close>

section \<open>Messages\<close>

datatype message_type = Data | Control | Sync | Event

record message =
  msg_type :: message_type
  msg_sender :: nat
  msg_size :: nat
  msg_flags :: u32
  msg_data :: bytes

text \<open>\<^verbatim>\<open>copy_from_slice\<close> panics unless the two slices have the same length.\<close>

definition copy_from_slice :: "nat \<Rightarrow> bytes \<Rightarrow> bytes \<Rightarrow> bytes option" where
  "copy_from_slice n src dst = (if length src = n then Some (src @ drop n dst) else None)"

definition message_new :: "message_type \<Rightarrow> nat \<Rightarrow> bytes \<Rightarrow> message option" where
  "message_new ty sender data =
     (let sz = min (length data) 64
      in map_option (\<lambda>d. \<lparr>msg_type = ty, msg_sender = sender, msg_size = sz, msg_flags = 0, msg_data = d\<rparr>)
           (copy_from_slice sz data (replicate 64 0)))"

definition message_data :: "message \<Rightarrow> bytes" where
  "message_data m = take (msg_size m) (msg_data m)"

section \<open>Channels\<close>

datatype ipc_error = ChannelNotFound | ChannelFull | ChannelEmpty | MessageTooLarge | InvalidMessage | PermissionDenied
  | ChannelAlreadyExists | Timeout | NotInitialized

record channel_config =
  max_messages :: nat
  max_message_size :: nat
  bounded :: bool

definition default_config :: channel_config where
  "default_config = \<lparr>max_messages = 64, max_message_size = 4096, bounded = True\<rparr>"

record channel =
  ch_id :: nat
  ch_name :: bytes
  ch_config :: channel_config
  ch_queue :: "message list"
  ch_sent :: nat
  ch_received :: nat
  ch_closed :: bool

definition channel_new :: "nat \<Rightarrow> bytes \<Rightarrow> channel_config \<Rightarrow> channel" where
  "channel_new i name config = \<lparr>ch_id = i, ch_name = name, ch_config = config, ch_queue = [], ch_sent = 0, ch_received = 0, ch_closed = False\<rparr>"

definition channel_send :: "message \<Rightarrow> channel \<Rightarrow> (ipc_error + unit) \<times> channel" where
  "channel_send m c =
     (if ch_closed c then (Inl ChannelNotFound, c)
      else if max_message_size (ch_config c) < msg_size m then (Inl MessageTooLarge, c)
      else if bounded (ch_config c) \<and> max_messages (ch_config c) \<le> length (ch_queue c) then (Inl ChannelFull, c)
      else (Inr (), c\<lparr>ch_queue := ch_queue c @ [m], ch_sent := ch_sent c + 1\<rparr>))"

definition channel_receive :: "channel \<Rightarrow> (ipc_error + message) \<times> channel" where
  "channel_receive c =
     (if ch_closed c then (Inl ChannelNotFound, c)
      else (case ch_queue c of [] \<Rightarrow> (Inl ChannelEmpty, c)
            | m # ms \<Rightarrow> (Inr m, c\<lparr>ch_queue := ms, ch_received := ch_received c + 1\<rparr>)))"

definition channel_peek :: "channel \<Rightarrow> ipc_error + message" where
  "channel_peek c =
     (if ch_closed c then Inl ChannelNotFound else (case ch_queue c of [] \<Rightarrow> Inl ChannelEmpty | m # ms \<Rightarrow> Inr m))"

definition channel_close :: "channel \<Rightarrow> channel" where
  "channel_close c = c\<lparr>ch_closed := True, ch_queue := []\<rparr>"

definition channel_pending :: "channel \<Rightarrow> nat" where
  "channel_pending c = length (ch_queue c)"

section \<open>Table of channels\<close>

record ipc_state =
  ipc_channels :: "channel option list"
  ipc_count :: nat
  ipc_initialized :: bool

definition ipc_new :: ipc_state where
  "ipc_new = \<lparr>ipc_channels = replicate 32 None, ipc_count = 0, ipc_initialized = False\<rparr>"

definition ipc_init :: "ipc_state \<Rightarrow> ipc_state" where
  "ipc_init s = (if ipc_initialized s then s else s\<lparr>ipc_initialized := True\<rparr>)"

definition create_channel :: "bytes \<Rightarrow> channel_config \<Rightarrow> ipc_state \<Rightarrow> (ipc_error + nat) \<times> ipc_state" where
  "create_channel name config s =
     (if \<not> ipc_initialized s then (Inl NotInitialized, s)
      else if 32 \<le> ipc_count s then (Inl ChannelFull, s)
      else
        (case find (\<lambda>i. ipc_channels s ! i = None) [0..<length (ipc_channels s)] of
           None \<Rightarrow> (Inl ChannelFull, s)
         | Some slot \<Rightarrow>
             (Inr slot, s\<lparr>ipc_channels := (ipc_channels s)[slot := Some (channel_new slot name config)], ipc_count := ipc_count s + 1\<rparr>)))"

definition get_channel :: "nat \<Rightarrow> ipc_state \<Rightarrow> channel option" where
  "get_channel k s = (if k < length (ipc_channels s) then ipc_channels s ! k else None)"

definition ipc_send :: "nat \<Rightarrow> message \<Rightarrow> ipc_state \<Rightarrow> (ipc_error + unit) \<times> ipc_state" where
  "ipc_send k m s =
     (case get_channel k s of None \<Rightarrow> (Inl ChannelNotFound, s)
      | Some c \<Rightarrow> (let (r, c) = channel_send m c in (r, s\<lparr>ipc_channels := (ipc_channels s)[k := Some c]\<rparr>)))"

definition ipc_receive :: "nat \<Rightarrow> ipc_state \<Rightarrow> (ipc_error + message) \<times> ipc_state" where
  "ipc_receive k s =
     (case get_channel k s of None \<Rightarrow> (Inl ChannelNotFound, s)
      | Some c \<Rightarrow> (let (r, c) = channel_receive c in (r, s\<lparr>ipc_channels := (ipc_channels s)[k := Some c]\<rparr>)))"

section \<open>Event catalog\<close>

datatype envelope_type = PerceptBundleReady | PlanReady | SafetyInterlockTriggered | SystemStartup | SystemShutdown
  | TaskCreated nat | TaskExited nat int | MemoryPressure u32 | TimerTick u64

record envelope =
  ev_type :: envelope_type
  ev_source :: nat
  ev_timestamp :: u64
  ev_data :: bytes

definition envelope_new :: "envelope_type \<Rightarrow> nat \<Rightarrow> u64 \<Rightarrow> envelope" where
  "envelope_new ty src ts = \<lparr>ev_type = ty, ev_source = src, ev_timestamp = ts, ev_data = replicate 32 0\<rparr>"

fun is_valid_event :: "envelope_type \<Rightarrow> bool" where
  "is_valid_event PerceptBundleReady = True"
| "is_valid_event PlanReady = True"
| "is_valid_event SafetyInterlockTriggered = True"
| "is_valid_event SystemStartup = True"
| "is_valid_event SystemShutdown = True"
| "is_valid_event (TaskCreated n) = True"
| "is_valid_event (TaskExited n e) = True"
| "is_valid_event (MemoryPressure p) = True"
| "is_valid_event (TimerTick t) = True"

fun event_priority :: "envelope_type \<Rightarrow> u8" where
  "event_priority SafetyInterlockTriggered = 255"
| "event_priority SystemShutdown = 200"
| "event_priority SystemStartup = 150"
| "event_priority (TimerTick t) = 100"
| "event_priority PerceptBundleReady = 80"
| "event_priority PlanReady = 80"
| "event_priority (MemoryPressure p) = 60"
| "event_priority (TaskCreated n) = 40"
| "event_priority (TaskExited n e) = 40"

lemma safety_interlock_first: "e \<noteq> SafetyInterlockTriggered \<Longrightarrow> event_priority e < event_priority SafetyInterlockTriggered"
  by (cases e) simp_all

section \<open>Properties\<close>

text \<open>Calls on the table of channels, and the messages a run has accepted on and delivered from channel \<open>k\<close>.\<close>

datatype ipc_op = Ipc_create bytes channel_config | Ipc_send nat message | Ipc_receive nat

fun ipc_call :: "ipc_op \<Rightarrow> ipc_state \<Rightarrow> ipc_state" where
  "ipc_call (Ipc_create name config) s = snd (create_channel name config s)"
| "ipc_call (Ipc_send k m) s = snd (ipc_send k m s)"
| "ipc_call (Ipc_receive k) s = snd (ipc_receive k s)"

fun accepted_on :: "nat \<Rightarrow> ipc_op list \<Rightarrow> ipc_state \<Rightarrow> message list" where
  "accepted_on k [] s = []"
| "accepted_on k (op # ops) s =
     (case op of Ipc_send j m \<Rightarrow> if j = k \<and> fst (ipc_send j m s) = Inr () then [m] else [] | _ \<Rightarrow> [])
     @ accepted_on k ops (ipc_call op s)"

fun delivered_from :: "nat \<Rightarrow> ipc_op list \<Rightarrow> ipc_state \<Rightarrow> message list" where
  "delivered_from k [] s = []"
| "delivered_from k (op # ops) s =
     (case op of Ipc_receive j \<Rightarrow> (case fst (ipc_receive j s) of Inr m \<Rightarrow> if j = k then [m] else [] | Inl e \<Rightarrow> []) | _ \<Rightarrow> [])
     @ delivered_from k ops (ipc_call op s)"

definition pending_on :: "nat \<Rightarrow> ipc_state \<Rightarrow> message list" where
  "pending_on k s = (case get_channel k s of None \<Rightarrow> [] | Some c \<Rightarrow> ch_queue c)"

definition ipc_wf :: "ipc_state \<Rightarrow> bool" where
  "ipc_wf s \<longleftrightarrow> length (ipc_channels s) = 32
     \<and> (\<forall>k c. get_channel k s = Some c \<longrightarrow> \<not> ch_closed c \<and> (bounded (ch_config c) \<longrightarrow> length (ch_queue c) \<le> max_messages (ch_config c)))"

lemma get_channel_upd:
  "get_channel j (s\<lparr>ipc_channels := (ipc_channels s)[k := c]\<rparr>) = (if j = k \<and> k < length (ipc_channels s) then c else get_channel j s)"
  by (auto simp: get_channel_def)

lemma get_channel_lt: "get_channel k s = Some c \<Longrightarrow> k < length (ipc_channels s)"
  by (auto simp: get_channel_def split: if_splits)

lemma ipc_send_step:
  assumes "ipc_wf s"
  shows "ipc_wf (snd (ipc_send j m s))"
    "pending_on k (snd (ipc_send j m s)) = pending_on k s @ (if j = k \<and> fst (ipc_send j m s) = Inr () then [m] else [])"
proof -
  have "ipc_wf (snd (ipc_send j m s)) \<and>
    pending_on k (snd (ipc_send j m s)) = pending_on k s @ (if j = k \<and> fst (ipc_send j m s) = Inr () then [m] else [])"
  proof (cases "get_channel j s")
    case None
    then show ?thesis using assms by (simp add: ipc_send_def)
  next
    case (Some c)
    note lt = get_channel_lt [OF Some]
    show ?thesis
      using assms Some lt
      by (auto simp: ipc_send_def channel_send_def ipc_wf_def pending_on_def get_channel_upd split: if_splits)
  qed
  then show "ipc_wf (snd (ipc_send j m s))"
    "pending_on k (snd (ipc_send j m s)) = pending_on k s @ (if j = k \<and> fst (ipc_send j m s) = Inr () then [m] else [])"
    by simp_all
qed

lemma ipc_receive_step:
  assumes "ipc_wf s"
  shows "ipc_wf (snd (ipc_receive j s)) \<and>
    pending_on k s = (case fst (ipc_receive j s) of Inr m \<Rightarrow> if j = k then [m] else [] | Inl e \<Rightarrow> []) @ pending_on k (snd (ipc_receive j s))"
proof (cases "get_channel j s")
  case None
  then show ?thesis using assms by (simp add: ipc_receive_def)
next
  case (Some c)
  note lt = get_channel_lt [OF Some]
  have c: "\<not> ch_closed c" "bounded (ch_config c) \<Longrightarrow> length (ch_queue c) \<le> max_messages (ch_config c)"
    using assms Some by (auto simp: ipc_wf_def)
  show ?thesis
  proof (cases "ch_queue c")
    case Nil
    then show ?thesis
      using assms Some lt c by (auto simp: ipc_receive_def channel_receive_def ipc_wf_def pending_on_def get_channel_upd)
  next
    case (Cons m ms)
    then have "bounded (ch_config c) \<Longrightarrow> length ms \<le> max_messages (ch_config c)" using c(2) by simp
    then show ?thesis
      using assms Some lt c(1) Cons by (auto simp: ipc_receive_def channel_receive_def ipc_wf_def pending_on_def get_channel_upd)
  qed
qed

lemma create_channel_step:
  assumes "ipc_wf s"
  shows "ipc_wf (snd (create_channel name config s)) \<and> pending_on k (snd (create_channel name config s)) = pending_on k s"
proof (cases "ipc_initialized s \<and> ipc_count s < 32 \<and> find (\<lambda>i. ipc_channels s ! i = None) [0..<length (ipc_channels s)] \<noteq> None")
  case False
  then show ?thesis using assms by (auto simp: create_channel_def not_less)
next
  case True
  then obtain slot where f: "find (\<lambda>i. ipc_channels s ! i = None) [0..<length (ipc_channels s)] = Some slot" by auto
  then have sl: "slot < length (ipc_channels s)" "get_channel slot s = None" by (auto simp: find_Some_iff get_channel_def)
  define s' where "s' = snd (create_channel name config s)"
  have s': "s' = s\<lparr>ipc_channels := (ipc_channels s)[slot := Some (channel_new slot name config)], ipc_count := ipc_count s + 1\<rparr>"
    using True f by (simp add: s'_def create_channel_def)
  have g: "get_channel j s' = (if j = slot then Some (channel_new slot name config) else get_channel j s)" for j
    using sl(1) by (auto simp: s' get_channel_def)
  have "length (ipc_channels s') = length (ipc_channels s)" by (simp add: s')
  then show ?thesis
    using assms sl(2) by (auto simp: s'_def [symmetric] ipc_wf_def pending_on_def g channel_new_def)
qed

text \<open>C12. Channels are first-in first-out and do not mix: over any calls that create channels, send and receive, what
  channel \<open>k\<close> had pending and what was accepted on it since is exactly what was delivered from it followed by what is
  pending now, in that order; no bounded channel ever exceeds its limit.\<close>

theorem rust_channel_fifo:
  assumes "ipc_wf s"
  shows "pending_on k s @ accepted_on k ops s = delivered_from k ops s @ pending_on k (fold ipc_call ops s)
    \<and> ipc_wf (fold ipc_call ops s)"
  using assms
proof (induction ops arbitrary: s)
  case (Cons op ops)
  show ?case
  proof (cases op)
    case (Ipc_create name config)
    then show ?thesis using create_channel_step [OF Cons.prems, of name config k] Cons.IH [of "ipc_call op s"] by simp
  next
    case (Ipc_send j m)
    then show ?thesis using ipc_send_step [OF Cons.prems, where j = j and m = m] Cons.IH [of "ipc_call op s"] by simp
  next
    case (Ipc_receive j)
    have w: "ipc_wf (ipc_call op s)" using ipc_receive_step [OF Cons.prems, of j] Ipc_receive by simp
    let ?d = "case fst (ipc_receive j s) of Inr m \<Rightarrow> if j = k then [m] else [] | Inl e \<Rightarrow> []"
    have "pending_on k s = ?d @ pending_on k (ipc_call op s)" using ipc_receive_step [OF Cons.prems, of j k] Ipc_receive by simp
    then have "pending_on k s @ accepted_on k (op # ops) s = ?d @ (pending_on k (ipc_call op s) @ accepted_on k ops (ipc_call op s))"
      using Ipc_receive by simp
    then show ?thesis using Cons.IH [OF w] Ipc_receive by simp
  qed
qed simp

text \<open>Message round trip: data of at most 64 bytes is read back from the message unchanged; longer data is not cut to
  64 bytes as the size field suggests, the construction panics.\<close>

theorem rust_message_roundtrip:
  "map_option message_data (message_new ty sender data) = (if length data \<le> 64 then Some data else None)"
  by (simp add: message_new_def copy_from_slice_def message_data_def Let_def min_def)

section \<open>Witness\<close>

lemma ipc_new_wf: "ipc_wf (ipc_init ipc_new)"
  by (auto simp: ipc_wf_def ipc_init_def ipc_new_def get_channel_def)

definition demo_message :: message where
  "demo_message = \<lparr>msg_type = Data, msg_sender = 4, msg_size = 2, msg_flags = 0, msg_data = [1, 2] @ replicate 62 0\<rparr>"

theorem rust_channel_fifo_witness:
  "accepted_on 0 [Ipc_create [] default_config, Ipc_send 0 demo_message, Ipc_receive 0] (ipc_init ipc_new) = [demo_message]
   \<and> delivered_from 0 [Ipc_create [] default_config, Ipc_send 0 demo_message, Ipc_receive 0] (ipc_init ipc_new) = [demo_message]
   \<and> pending_on 0 (fold ipc_call [Ipc_create [] default_config, Ipc_send 0 demo_message, Ipc_receive 0] (ipc_init ipc_new)) = []"
proof -
  let ?ops = "[Ipc_create [] default_config, Ipc_send 0 demo_message, Ipc_receive 0]"
  have "find (\<lambda>i. replicate 32 None ! i = (None :: channel option)) [0..<32] = Some 0"
    unfolding find_Some_iff by (intro exI [of _ 0]) simp
  then have a: "accepted_on 0 ?ops (ipc_init ipc_new) = [demo_message]" "pending_on 0 (ipc_init ipc_new) = []"
      "delivered_from 0 ?ops (ipc_init ipc_new) \<noteq> []"
    by (simp_all add: ipc_init_def ipc_new_def create_channel_def RustIpc.ipc_send_def get_channel_def channel_new_def channel_send_def
        default_config_def demo_message_def pending_on_def ipc_receive_def channel_receive_def)
  from rust_channel_fifo [OF ipc_new_wf, of 0 ?ops] have "[demo_message] = delivered_from 0 ?ops (ipc_init ipc_new)
      @ pending_on 0 (fold ipc_call ?ops (ipc_init ipc_new))" unfolding a by simp
  with a show ?thesis by (metis append_eq_Cons_conv append_is_Nil_conv)
qed

end
