(* ===== verification/Spec2Isabelle.thy ===== *)
theory Spec2Isabelle
  imports Prelude Uart Sched Ipc Pmm Heap Sync Ramfs Bytes Virtio Afs Storage Fixpoint AiCore AiLearn Irq
    AiState Cmt AiDebug Ai Sdk Log Net Smp RustMemory RustSecurity RustIpc
begin

text \<open>
  \<^bold>\<open>AEOS\<close> is a small operating system: a freestanding C kernel for AArch64 (\<^verbatim>\<open>src/boot/aarch64\<close>, \<^verbatim>\<open>src/kernel\<close>) with
  a smaller x86-64 port, a set of \<^verbatim>\<open>no_std\<close> Rust crates (\<^verbatim>\<open>src/memory\<close>, \<^verbatim>\<open>src/security\<close>, \<^verbatim>\<open>src/ipc\<close>, and others), and
  a host-side C mirror of the kernel's policy network for a Python SDK (\<^verbatim>\<open>src/sdk/bindings\<close>).  This development models
  the C kernel's core services, its storage and network stacks, its adaptive timer policy (the AI and CMT engines),
  the secondary cores, the mirror, and three of the crates, and proves what makes each of them correct.

  \<^bold>\<open>How the parts interact.\<close>  The timer interrupt (\<^verbatim>\<open>irq.c\<close>, \<^verbatim>\<open>timer.c\<close>, \<^verbatim>\<open>gic.c\<close>) runs the registered tick tasks, among
  them the scheduler's tick (\<^verbatim>\<open>sched.c\<close>) and the AI engine (\<^verbatim>\<open>ai_api.c\<close>).  Every 50 ticks the engine reads the page
  allocator (\<^verbatim>\<open>pmm.c\<close>), the heap (\<^verbatim>\<open>heap.c\<close>) and the CMT engine (\<^verbatim>\<open>cmt_core.c\<close>), decides with its network
  (\<^verbatim>\<open>ai_core.c\<close>), changes the timer rate and learns (\<^verbatim>\<open>ai_learn.c\<close>); the debugger (\<^verbatim>\<open>ai_debug.c\<close>) may disable
  it.  The file system (\<^verbatim>\<open>afs.c\<close>) calls the virtio driver (\<^verbatim>\<open>virtio.c\<close>), which gets its ring pages from the page
  allocator.  All of them print through the console (\<^verbatim>\<open>uart.c\<close>).

  \<^bold>\<open>Conventions.\<close>  An unsigned C or Rust integer is a word of its width, with wrap-around.  A signed C integer is an
  \<^typ>\<open>int\<close>, and each store narrows it explicitly with \<open>i32\<close> or \<open>i16\<close>.  A buffer is a list of bytes.  A handler takes
  its state as a record and returns it updated together with the C return value and, where it prints, the bytes it
  puts on the wire.  Undefined behaviour of C and a panic of Rust are \<open>None\<close>; a Rust \<^verbatim>\<open>Result\<close> is a sum with the error on the left.
  Hardware and code outside the repository are parameters: the virtio device with the locale \<open>virtio_device\<close> as its
  specification, the packets a network device delivers, and what other tasks do between two attempts to take a lock.

  \<^bold>\<open>Theories.\<close>
  \<^item> \<open>Prelude\<close>: integers, strings and \<^verbatim>\<open>utils.c\<close>; first-free-slot search; the locales \<open>event_system\<close> (an invariant
    kept by every event), \<open>bounded_fifo\<close> and \<open>history_ring\<close>.  \<open>Bytes\<close>: memory as bytes, both byte orders.
    \<open>Uart\<close>: the number formatters print the number they are given.
  \<^item> \<open>Sched\<close> (\<^verbatim>\<open>sched.c\<close>): task table, round robin, watchdog, address-space switch.  Yielding and exiting implement an
    abstract queue; every ready task runs within fifteen switches; one task runs; the MMU holds the address space
    of the running task.
  \<^item> \<open>Ipc\<close> (\<^verbatim>\<open>ipc.c\<close>), \<open>Sync\<close> (\<^verbatim>\<open>sync.c\<close>): queues are FIFOs bounded by sixteen messages that do not disturb
    each other; mutual exclusion under any interleaving, when \<^verbatim>\<open>mutex_lock\<close> returns, and conservation of semaphore units.
  \<^item> \<open>Pmm\<close> (\<^verbatim>\<open>pmm.c\<close>), \<open>Heap\<close> (\<^verbatim>\<open>heap.c\<close>): the allocator takes exactly the lowest free frame or a complete run, its
    counter is exact, the locale \<open>page_allocator\<close> is interpreted on it; heap blocks are disjoint.
  \<^item> \<open>Ramfs\<close> (\<^verbatim>\<open>ramfs.c\<close>): the slot table is a map from names to contents, for names in clean buffers.
  \<^item> \<open>Virtio\<close> (\<^verbatim>\<open>virtio.c\<close>), \<open>Afs\<close> (\<^verbatim>\<open>afs.c\<close>), \<open>Storage\<close>: bring-up lays the rings out without overlap, the driver on
    a device that satisfies \<open>virtio_device\<close> is a disk, the file system on any \<open>block_device\<close> is an abstract volume with
    exactly determined results, and the two are put together.  Files survive a mount.
  \<^item> \<open>Fixpoint\<close> (\<^verbatim>\<open>fp.h\<close>), \<open>AiCore\<close>, \<open>AiLearn\<close>, \<open>AiState\<close>, \<open>Cmt\<close>, \<open>AiDebug\<close>, \<open>Irq\<close>, \<open>Ai\<close>: the 32-bit networks
    agree with the networks over the integers, learning is the temporal-difference rule, rates and tables stay inside
    their bounds through any run of the machine, and the fail-safe is never left by the timer.  \<open>Sdk\<close> (\<^verbatim>\<open>aeos_kernel.c\<close>): the
    mirror decides as the kernel does.
  \<^item> \<open>Log\<close> (\<^verbatim>\<open>log.c\<close>), \<open>Net\<close> (\<^verbatim>\<open>net.c\<close>): the formatter is bounded, the log keeps the last 64 records; ARP answers and
    the gateway address, address parsing, checksums.
  \<^item> \<open>Smp\<close> (\<^verbatim>\<open>smp.c\<close>): a step relation interleaves the cores at their accesses to shared memory; jobs are neither
    lost nor run twice.
  \<^item> \<open>RustMemory\<close>, \<open>RustSecurity\<close>, \<open>RustIpc\<close>: the frame allocator, page tables, capabilities and channels of the
    crates.

  Several theorems state a defect of the code rather than a merit: the overrun of \<^verbatim>\<open>afs_read\<close>, the free list that outlives a
  format, the byte order of the IPv4 checksum, frames handed out twice by the Rust allocator, page tables
  that can map nothing, and, below, pages handed out from inside the heap.

  \<^bold>\<open>Bounds.\<close>  The functions of the model are total, so no fuel is needed: a loop that polls hardware takes what it sees,
  round by round, as a list or as the device parameter.  The exceptions are the blocking calls \<^verbatim>\<open>mutex_lock\<close> and
  \<^verbatim>\<open>sem_wait\<close>, partial functions whose result \<open>None\<close> is a call that never returns; \<open>Sync\<close> proves exactly when
  \<^verbatim>\<open>mutex_lock\<close> returns.  The theorems on storage hold while the driver
  has descriptor chains left: it never gives one back, 40 requests after bring-up is what a queue of 120 allows, and
  \<open>Virtio\<close> proves that the next request breaks the ring.  Names in \<open>Afs\<close> are at most 23 bytes, the longest the
  directory can hold.  Heap requests are at most 2^62 bytes, beyond which the address arithmetic of \<^verbatim>\<open>kmalloc\<close> wraps.

  \<^bold>\<open>Not modelled.\<close>  Assembly and linker scripts (boot, exception vectors, context switch, user programs); page-table
  construction (\<^verbatim>\<open>vmm.c\<close>), processes and system calls (\<^verbatim>\<open>proc.c\<close>, \<^verbatim>\<open>syscall.c\<close>), the stage 2 loader, the device table, PSCI;
  the network device driver \<^verbatim>\<open>vnet.c\<close>, whose interface is a parameter of \<open>Net\<close>; the interactive programs
  (\<^verbatim>\<open>shell.c\<close>, \<^verbatim>\<open>tui.c\<close>) and the boot sequences (\<^verbatim>\<open>kernel.c\<close>, except the start of the AI engines and the tick callback, and \<^verbatim>\<open>bios_main.c\<close>);
  the x86-64 port; the Rust scheduler, kernel and command-line crates, except the kernel crate's memory initialisation;
  the Python packages and tools.  Timing, memory barriers and caches have no counterpart in the models.
\<close>

section \<open>The page allocator and the heap\<close>

text \<open>
  The comment in \<^verbatim>\<open>pmm_init\<close> says that the reserved area, which ends 18 MB after the kernel's base, covers the kernel heap, so that
  the page allocator never hands out pages of the heap.  The heap starts 16 MB after the base and is 16 MB long: the
  first page allocated after boot lies inside it, and the first block of 3 MB that \<^verbatim>\<open>kmalloc\<close> returns contains that page.
\<close>

theorem pmm_page_inside_heap:
  "\<exists>s p h b. pmm_alloc_page (pmm_init pmm_statics) = (s, p) \<and> kmalloc 0x300000 (fst (heap_init h0)) = (h, b)
     \<and> unat b = unat HEAP_START \<and> unat b \<le> unat p \<and> unat p + 4096 \<le> unat b + 0x300000"
proof -
  obtain f s where f: "pmm_alloc_page (pmm_init pmm_statics) = (s, frame_to_phys f)" "f \<in> {0x1280..<FRAMES}"
      "\<forall>g\<in>{0x1280..<FRAMES}. f \<le> g"
    using alloc_page_spec [OF pmm_boot_free(1), unfolded pmm_boot_free(2)] by auto
  have "f \<le> 0x1280" using f(3) [rule_format, of "0x1280"] by simp
  then have "unat (frame_to_phys f) = 0x41280000" using f(2) frame_to_phys_unat [of "0x1280"] by simp
  moreover have "snd (kmalloc 0x300000 (fst (heap_init h0))) = HEAP_START" by (simp add: kmalloc_def heap_init_def)
  then obtain h where "kmalloc 0x300000 (fst (heap_init h0)) = (h, HEAP_START)" by (metis prod.collapse)
  ultimately show ?thesis using f(1) by (intro exI [of _ s] exI [of _ "frame_to_phys f"] exI [of _ h] exI [of _ HEAP_START]) simp
qed

end
